(* ===== verification/Prelude.thy ===== *)
theory Prelude
  imports Main "HOL-Library.Word" "HOL-Library.List_Lexorder"
begin

text \<open>
  Shared vocabulary of the development: the machine types of the program, computations that
  thread a state and may fail (the code's \<^verbatim>\<open>Result\<close> with the \<^verbatim>\<open>?\<close> operator), the operations of
  \<^verbatim>\<open>Vec\<close> the code uses (\<^verbatim>\<open>insert\<close>, \<^verbatim>\<open>remove\<close>, \<^verbatim>\<open>split_off\<close>, the linear search for a child) and the
  standard library's binary search with its specification on sorted lists.
\<close>

section \<open>Machine types\<close>

text \<open>
  The crate is compiled for \<^verbatim>\<open>wasm32\<close> only (\<^verbatim>\<open>#![cfg(target_arch = "wasm32")]\<close> in \<^verbatim>\<open>lib.rs\<close>), so a
  \<^verbatim>\<open>usize\<close> has 32 bits. Lengths of vectors are natural numbers; a \<^verbatim>\<open>usize\<close> that a caller
  chooses (configuration, limits) keeps its width.
\<close>

type_synonym u8 = "8 word"
type_synonym u32 = "32 word"
type_synonym u64 = "64 word"
type_synonym usize = "32 word"
type_synonym bytes = "u8 list"

lemma u8_level: "lvl = of_nat (Suc n) \<Longrightarrow> Suc n < 256 \<Longrightarrow> lvl - 1 = of_nat n \<and> lvl \<noteq> (0 :: u8)"
proof -
  assume lvl: "lvl = of_nat (Suc n)" and le: "Suc n < 256"
  then have "\<not> 2 ^ LENGTH(8) dvd Suc n"
    by (auto dest: dvd_imp_le)
  with lvl show "lvl - 1 = of_nat n \<and> lvl \<noteq> (0 :: u8)"
    by (simp only: word_of_nat_eq_0_iff) simp
qed

section \<open>Fallible computations over a state\<close>

text \<open>
  A computation takes a state and returns a result, an error on the left, and the new state.
  As in the code, what was written before an error stays written.
\<close>

type_synonym ('s, 'e, 'a) comp = "'s \<Rightarrow> ('e + 'a) \<times> 's"

definition returnC :: "'a \<Rightarrow> ('s, 'e, 'a) comp" where
  "returnC x = (\<lambda>s. (Inr x, s))"

definition throwC :: "'e \<Rightarrow> ('s, 'e, 'a) comp" where
  "throwC e = (\<lambda>s. (Inl e, s))"

definition bindC :: "('s, 'e, 'a) comp \<Rightarrow> ('a \<Rightarrow> ('s, 'e, 'b) comp) \<Rightarrow> ('s, 'e, 'b) comp" where
  "bindC m f = (\<lambda>s. case m s of (Inl e, s') \<Rightarrow> (Inl e, s') | (Inr x, s') \<Rightarrow> f x s')"

named_theorems comp_simps "evaluation of computations"

lemma returnC_apply [comp_simps]: "returnC x s = (Inr x, s)"
  by (simp add: returnC_def)

lemma throwC_apply [comp_simps]: "throwC e s = (Inl e, s)"
  by (simp add: throwC_def)

lemma bindC_apply [comp_simps]:
  "bindC m f s = (case m s of (Inl e, s') \<Rightarrow> (Inl e, s') | (Inr x, s') \<Rightarrow> f x s')"
  by (simp add: bindC_def)

lemma bindC_returnC [simp]: "bindC (returnC x) f = f x"
  by (simp add: bindC_def returnC_def)

lemma bindC_throwC [simp]: "bindC (throwC e) f = throwC e"
  by (simp add: bindC_def throwC_def)

lemma bindC_assoc: "bindC (bindC m f) g = bindC m (\<lambda>x. bindC (f x) g)"
  by (auto simp: bindC_def fun_eq_iff split: prod.splits sum.splits)

lemma bindC_Inr: "m s = (Inr x, s') \<Longrightarrow> bindC m f s = f x s'"
  by (simp add: bindC_def)

lemma bindC_Inl: "m s = (Inl e, s') \<Longrightarrow> bindC m f s = (Inl e, s')"
  by (simp add: bindC_def)

lemma bindC_cases:
  assumes "bindC m f s = (r, s')"
  obtains (error) e where "m s = (Inl e, s')" "r = Inl e"
  | (ok) x s1 where "m s = (Inr x, s1)" "f x s1 = (r, s')"
proof (cases "m s")
  case (Pair a s1)
  then show thesis
    using assms that by (cases a) (auto simp: bindC_def)
qed

section \<open>Vectors\<close>

definition vec_insert :: "nat \<Rightarrow> 'a \<Rightarrow> 'a list \<Rightarrow> 'a list" where
  "vec_insert i x xs = take i xs @ x # drop i xs"

definition vec_remove :: "nat \<Rightarrow> 'a list \<Rightarrow> 'a list" where
  "vec_remove i xs = take i xs @ drop (Suc i) xs"

lemma vec_insert_append [simp]: "vec_insert (length as) x (as @ bs) = as @ x # bs"
  by (simp add: vec_insert_def)

lemma vec_remove_append [simp]: "vec_remove (length as) (as @ x # bs) = as @ bs"
  by (simp add: vec_remove_def)

text \<open>The first index that satisfies a predicate: the shape of the code's search loops.\<close>

fun find_index :: "('a \<Rightarrow> bool) \<Rightarrow> 'a list \<Rightarrow> nat option" where
  "find_index P [] = None"
| "find_index P (x # xs) = (if P x then Some 0 else map_option Suc (find_index P xs))"

lemma find_index_SomeD:
  "find_index P xs = Some i \<Longrightarrow> i < length xs \<and> P (xs ! i) \<and> (\<forall>j<i. \<not> P (xs ! j))"
proof (induction xs arbitrary: i)
  case Nil
  then show ?case by simp
next
  case (Cons x xs)
  show ?case
  proof (cases "P x")
    case True
    with Cons.prems show ?thesis by auto
  next
    case False
    with Cons.prems obtain j where j: "find_index P xs = Some j" "i = Suc j"
      by auto
    from Cons.IH [OF j(1)] False j(2) show ?thesis
      by (auto simp: less_Suc_eq_0_disj)
  qed
qed

lemma find_index_NoneD: "find_index P xs = None \<Longrightarrow> x \<in> set xs \<Longrightarrow> \<not> P x"
  by (induction xs) (auto split: if_splits)

lemma split_at_index:
  assumes "i < length xs"
  obtains as bs where "xs = as @ xs ! i # bs" "length as = i"
  using assms by (metis id_take_nth_drop length_take min.absorb4)

section \<open>Binary search\<close>

text \<open>
  \<^verbatim>\<open>slice::binary_search_by\<close> of the standard library: the loop keeps a window
  \<^verbatim>\<open>[base, base + size)\<close> and halves it; the last comparison decides between \<^verbatim>\<open>Ok\<close> (the index of
  an equal element) and \<^verbatim>\<open>Err\<close> (where it would be inserted).
\<close>

datatype search_result = Found nat | Missing nat

function bsearch_loop :: "'a::linorder list \<Rightarrow> 'a \<Rightarrow> nat \<Rightarrow> nat \<Rightarrow> nat" where
  "bsearch_loop xs k base size' =
     (if 1 < size' then
        let half = size' div 2; mid = base + half
        in bsearch_loop xs k (if k < xs ! mid then base else mid) (size' - half)
      else base)"
  by pat_completeness auto
termination
  by (relation "measure (\<lambda>(xs, k, base, size'). size')") auto

declare bsearch_loop.simps [simp del]

lemma bsearch_loop_one [simp]: "bsearch_loop xs k base (Suc 0) = base"
  by (simp add: bsearch_loop.simps [of xs k base "Suc 0"])

definition binary_search :: "'a::linorder list \<Rightarrow> 'a \<Rightarrow> search_result" where
  "binary_search xs k =
     (if xs = [] then Missing 0
      else let b = bsearch_loop xs k 0 (length xs)
           in if xs ! b = k then Found b
              else Missing (if xs ! b < k then Suc b else b))"

text \<open>\<^verbatim>\<open>Result::unwrap_or_else(|e| e)\<close>, the position whether or not the key was found.\<close>

fun search_pos :: "search_result \<Rightarrow> nat" where
  "search_pos (Found i) = i"
| "search_pos (Missing i) = i"

lemma bsearch_loop_bounds:
  assumes "sorted_wrt (<) xs" "0 < n" "base + n \<le> length xs"
    and "base = 0 \<or> xs ! base \<le> k"
    and "\<forall>j. base + n \<le> j \<and> j < length xs \<longrightarrow> k < xs ! j"
  shows "let b = bsearch_loop xs k base n
         in b < length xs \<and> (b = 0 \<or> xs ! b \<le> k) \<and> (\<forall>j. b < j \<and> j < length xs \<longrightarrow> k < xs ! j)"
  using assms
proof (induction xs k base n rule: bsearch_loop.induct)
  case (1 xs k base n)
  show ?case
  proof (cases "1 < n")
    case False
    with "1.prems" have "n = 1" by simp
    with "1.prems" show ?thesis
      by (simp add: Let_def)
  next
    case True
    define half where "half = n div 2"
    define base' where "base' = (if k < xs ! (base + half) then base else base + half)"
    have half: "0 < half" "half < n"
      using True by (auto simp: half_def)
    have upper: "k < xs ! j" if "base' + (n - half) \<le> j" "j < length xs" for j
    proof (cases "k < xs ! (base + half)")
      case True
      then have ge: "base + half \<le> j"
        using that half by (auto simp: base'_def half_def)
      then have "xs ! (base + half) \<le> xs ! j"
        using "1.prems"(1) that(2)
        by (cases "base + half = j") (auto simp: sorted_wrt_iff_nth_less less_imp_le)
      with True show ?thesis by simp
    next
      case False
      then have "base + n \<le> j"
        using that half by (auto simp: base'_def)
      with "1.prems"(5) that(2) show ?thesis by blast
    qed
    have le: "base' + (n - half) \<le> length xs"
      using "1.prems"(3) half by (auto simp: base'_def)
    have lower: "base' = 0 \<or> xs ! base' \<le> k"
      using "1.prems"(4) by (auto simp: base'_def)
    have pos: "0 < n - half" using half by simp
    have upper': "\<forall>j. base' + (n - half) \<le> j \<and> j < length xs \<longrightarrow> k < xs ! j"
      using upper by blast
    have "let b = bsearch_loop xs k base' (n - half)
          in b < length xs \<and> (b = 0 \<or> xs ! b \<le> k) \<and> (\<forall>j. b < j \<and> j < length xs \<longrightarrow> k < xs ! j)"
      by (rule "1.IH" [OF True half_def refl "1.prems"(1), folded base'_def,
            OF pos le lower upper'])
    moreover have "bsearch_loop xs k base n = bsearch_loop xs k base' (n - half)"
      using True by (subst bsearch_loop.simps) (simp add: Let_def half_def base'_def)
    ultimately show ?thesis by simp
  qed
qed

lemma binary_search_bounds:
  assumes "sorted_wrt (<) xs" "xs \<noteq> []"
  obtains b where "b < length xs" "b = 0 \<or> xs ! b \<le> k"
    "\<And>j. b < j \<Longrightarrow> j < length xs \<Longrightarrow> k < xs ! j"
    "binary_search xs k =
       (if xs ! b = k then Found b else Missing (if xs ! b < k then Suc b else b))"
proof -
  let ?b = "bsearch_loop xs k 0 (length xs)"
  have "\<forall>j. 0 + length xs \<le> j \<and> j < length xs \<longrightarrow> k < xs ! j" by auto
  with assms have "?b < length xs \<and> (?b = 0 \<or> xs ! ?b \<le> k)
      \<and> (\<forall>j. ?b < j \<and> j < length xs \<longrightarrow> k < xs ! j)"
    using bsearch_loop_bounds [of xs "length xs" 0 k] by (simp add: Let_def)
  moreover have "binary_search xs k =
      (if xs ! ?b = k then Found ?b else Missing (if xs ! ?b < k then Suc ?b else ?b))"
    using assms(2) by (simp add: binary_search_def Let_def)
  ultimately show thesis
    using that [of ?b] by blast
qed

lemma binary_search_Found:
  assumes "sorted_wrt (<) (as @ k # bs)"
  shows "binary_search (as @ k # bs) k = Found (length as)"
proof -
  let ?xs = "as @ k # bs"
  obtain b where b: "b < length ?xs" "b = 0 \<or> ?xs ! b \<le> k"
    "\<And>j. b < j \<Longrightarrow> j < length ?xs \<Longrightarrow> k < ?xs ! j"
    "binary_search ?xs k =
       (if ?xs ! b = k then Found b else Missing (if ?xs ! b < k then Suc b else b))"
    using binary_search_bounds [OF assms] by (metis append_is_Nil_conv list.distinct(1))
  have nth: "?xs ! length as = k" by simp
  have "\<not> b < length as"
    using b(3) [of "length as"] nth by auto
  moreover have "\<not> length as < b"
  proof
    assume less: "length as < b"
    then have "?xs ! length as < ?xs ! b"
      using assms b(1) sorted_wrt_nth_less by blast
    with b(2) less nth show False by auto
  qed
  ultimately have "b = length as" by simp
  with b(4) show ?thesis by simp
qed

lemma binary_search_Missing:
  assumes "sorted_wrt (<) (as @ bs)"
    and "\<forall>x\<in>set as. x < k" "\<forall>x\<in>set bs. k < x"
  shows "binary_search (as @ bs) k = Missing (length as)"
proof (cases "as @ bs = []")
  case True
  then show ?thesis by (simp add: binary_search_def)
next
  case False
  let ?xs = "as @ bs"
  obtain b where b: "b < length ?xs" "b = 0 \<or> ?xs ! b \<le> k"
    "\<And>j. b < j \<Longrightarrow> j < length ?xs \<Longrightarrow> k < ?xs ! j"
    "binary_search ?xs k =
       (if ?xs ! b = k then Found b else Missing (if ?xs ! b < k then Suc b else b))"
    using binary_search_bounds [OF assms(1) False] by metis
  have low: "?xs ! j < k" if "j < length as" for j
    using that assms(2) by (simp add: nth_append)
  have high: "k < ?xs ! j" if "length as \<le> j" "j < length ?xs" for j
    using that assms(3) by (simp add: nth_append)
  show ?thesis
  proof (cases "b < length as")
    case True
    then have "Suc b = length as"
      using b(3) [of "Suc b"] low [of "Suc b"]
      by (metis Suc_lessI length_append lessI not_less_iff_gr_or_eq trans_less_add1)
    with b(4) low [OF True] show ?thesis by auto
  next
    case False
    with b(1) high [of b] have above: "k < ?xs ! b" by simp
    with b(2) have "b = 0" by auto
    with False above b(4) show ?thesis by auto
  qed
qed

end
