(* ===== verification/Common.thy ===== *)
theory Common
  imports Prelude
begin

text \<open>
  The types every component shares: hashes, keys and values and the tree configuration with its
  defaults (\<^verbatim>\<open>src/src/common.rs\<close>) and the error type (\<^verbatim>\<open>src/src/error.rs\<close>).
\<close>

section \<open>Hashes, keys, values\<close>

text \<open>
  A \<^verbatim>\<open>Hash\<close> is \<^verbatim>\<open>[u8; 32]\<close>, a \<^verbatim>\<open>Key\<close> and a \<^verbatim>\<open>Value\<close> are \<^verbatim>\<open>Vec<u8>\<close>. Byte strings are compared
  lexicographically, bytes as unsigned numbers (\<^verbatim>\<open>Ord\<close> of \<^verbatim>\<open>[u8]\<close>, here the order of
  \<^verbatim>\<open>List_Lexorder\<close> on lists of words). No operation of the tree depends on the width of a hash;
  the file format does, and asks for it there.
\<close>

type_synonym hash = "bytes"
type_synonym key = "bytes"
type_synonym val = "bytes"

section \<open>Configuration\<close>

record tree_config =
  target_fanout :: usize
  min_fanout :: usize
  cdc_min_size :: usize
  cdc_avg_size :: usize
  cdc_max_size :: usize
  max_inline_value_size :: usize

definition default_config :: tree_config where
  "default_config =
     \<lparr>target_fanout = 32,
      min_fanout = 32 div 2,
      cdc_min_size = 4 * 1024,
      cdc_avg_size = 16 * 1024,
      cdc_max_size = 64 * 1024,
      max_inline_value_size = 1024\<rparr>"

section \<open>Errors\<close>

text \<open>
  \<^verbatim>\<open>BincodeError\<close> carries a \<^verbatim>\<open>bincode::Error\<close> and \<^verbatim>\<open>IoError\<close> a \<^verbatim>\<open>std::io::Error\<close>; both are opaque to
  the program and their payload is left out.
\<close>

datatype prolly_error =
    ChunkNotFound hash
  | NodeDeserialization string
  | NodeSerialization string
  | StorageError string
  | BincodeError
  | EmptyTree
  | KeyNotFound
  | InvalidRootHash
  | ConfigError string
  | InternalError string
  | JsBindingError string
  | InvalidFileFormat string
  | ChecksumMismatch string
  | Serialization string
  | Deserialization string
  | IoError
  | WasmInteropError string
  | InvalidOperation string

text \<open>
  How a call can fail to return a value: with an error of the program, with a panic, or, in the
  model only, because the fuel of a recursion over the stored nodes ran out. The recursion of the
  code follows hashes through the store and has no bound of its own; every theorem about a result
  says how much fuel is enough.
\<close>

datatype failure = Err prolly_error | Panic | OutOfFuel

section \<open>Validity of a configuration\<close>

text \<open>
  The test of \<^verbatim>\<open>ProllyTree::new\<close> and \<^verbatim>\<open>from_root_hash\<close>, with the product taken in \<^verbatim>\<open>usize\<close>; the
  product wraps around in a release build.
\<close>

definition config_rejected :: "tree_config \<Rightarrow> bool" where
  "config_rejected cfg \<longleftrightarrow>
     min_fanout cfg = 0 \<or> target_fanout cfg < min_fanout cfg * 2 \<or> target_fanout cfg = 0"

text \<open>The same test over the numbers: what the check means to ensure.\<close>

definition config_valid :: "tree_config \<Rightarrow> bool" where
  "config_valid cfg \<longleftrightarrow>
     0 < unat (min_fanout cfg) \<and> 2 * unat (min_fanout cfg) \<le> unat (target_fanout cfg)"

lemma config_rejected_iff:
  assumes "unat (min_fanout cfg) < 2 ^ 31"
  shows "config_rejected cfg \<longleftrightarrow> \<not> config_valid cfg"
proof -
  have double: "unat (min_fanout cfg * 2) = unat (min_fanout cfg) * 2"
    using assms by (simp add: unat_word_ariths)
  have "min_fanout cfg = 0 \<longleftrightarrow> unat (min_fanout cfg) = 0"
    "target_fanout cfg = 0 \<longleftrightarrow> unat (target_fanout cfg) = 0"
    by (simp_all add: unat_eq_0)
  then show ?thesis
    by (auto simp: config_rejected_def config_valid_def word_less_nat_alt double)
qed

lemma default_config_valid: "config_valid default_config"
  by (simp add: config_valid_def default_config_def)

end
