(* ===== verification/Node.thy ===== *)
theory Node
  imports Common
begin

text \<open>
  Tree nodes (\<^verbatim>\<open>src/src/node/definition.rs\<close>), their hashing (\<^verbatim>\<open>src/src/chunk.rs\<close>) and the functions
  of third-party crates the program calls: \<^verbatim>\<open>blake3\<close>, \<^verbatim>\<open>bincode\<close> and \<^verbatim>\<open>fastcdc\<close>. They are the fields
  of a record that every operation takes; what the program relies on is stated here as predicates
  of that record. The second half holds the reference semantics of a list of leaf entries: a
  sorted association list, with insertion, removal and lookup.
\<close>

section \<open>Data\<close>

datatype value_repr =
    Inline val
  | Chunked hash
  | ChunkedSequence "hash list" u64

record leaf_entry =
  le_key :: key
  le_value :: value_repr

record internal_entry =
  boundary_key :: key
  child_hash :: hash
  num_items_subtree :: u64

datatype node =
    Leaf u8 "leaf_entry list"
  | Internal u8 "internal_entry list"

section \<open>Third-party functions\<close>

text \<open>
  \<^verbatim>\<open>blake3\<close> hashes a byte string. \<^verbatim>\<open>bincode\<close> serializes and deserializes a node; the code passes its
  errors on as \<^verbatim>\<open>BincodeError\<close>, here \<^term>\<open>None\<close>. \<^verbatim>\<open>fastcdc\<close> takes the data and the three sizes and
  yields the offset and length of each chunk; its constructor panics on sizes outside its limits,
  here \<^term>\<open>None\<close>.
\<close>

record extern =
  blake3 :: "bytes \<Rightarrow> hash"
  bincode_serialize :: "node \<Rightarrow> bytes option"
  bincode_deserialize :: "bytes \<Rightarrow> node option"
  fastcdc :: "bytes \<Rightarrow> u32 \<Rightarrow> u32 \<Rightarrow> u32 \<Rightarrow> (nat \<times> nat) list option"

text \<open>Serialization succeeds and deserialization undoes it.\<close>

definition bincode_ok :: "extern \<Rightarrow> bool" where
  "bincode_ok E \<longleftrightarrow>
     (\<forall>nd. \<exists>b. bincode_serialize E nd = Some b \<and> bincode_deserialize E b = Some nd)"

text \<open>The chunks of \<^verbatim>\<open>fastcdc\<close> lie inside the data and are the data, cut.\<close>

definition cdc_slice :: "bytes \<Rightarrow> nat \<times> nat \<Rightarrow> bytes" where
  "cdc_slice v p = take (snd p) (drop (fst p) v)"

definition fastcdc_ok :: "extern \<Rightarrow> bool" where
  "fastcdc_ok E \<longleftrightarrow>
     (\<forall>v a b c es. fastcdc E v a b c = Some es \<longrightarrow>
        (\<forall>p\<in>set es. fst p + snd p \<le> length v) \<and> concat (map (cdc_slice v) es) = v)"

text \<open>The chunk sizes of a configuration are inside the limits of \<^verbatim>\<open>fastcdc\<close>.\<close>

definition fastcdc_accepts :: "extern \<Rightarrow> tree_config \<Rightarrow> bool" where
  "fastcdc_accepts E cfg \<longleftrightarrow>
     (\<forall>v. fastcdc E v (cdc_min_size cfg) (cdc_avg_size cfg) (cdc_max_size cfg) \<noteq> None)"

definition extern_ok :: "extern \<Rightarrow> tree_config \<Rightarrow> bool" where
  "extern_ok E cfg \<longleftrightarrow> bincode_ok E \<and> fastcdc_ok E \<and> fastcdc_accepts E cfg"

section \<open>Operations of a node\<close>

definition new_leaf :: node where
  "new_leaf = Leaf 0 []"

definition new_internal :: "internal_entry list \<Rightarrow> u8 \<Rightarrow> prolly_error + node" where
  "new_internal children level =
     (if level = 0 then Inl (ConfigError ''Internal node level cannot be 0'')
      else Inr (Internal level children))"

fun level :: "node \<Rightarrow> u8" where
  "level (Leaf l _) = l"
| "level (Internal l _) = l"

fun is_full :: "node \<Rightarrow> tree_config \<Rightarrow> bool" where
  "is_full (Leaf _ entries) cfg = (unat (target_fanout cfg) \<le> length entries)"
| "is_full (Internal _ children) cfg = (unat (target_fanout cfg) \<le> length children)"

fun is_underflow :: "node \<Rightarrow> tree_config \<Rightarrow> bool" where
  "is_underflow (Leaf _ entries) cfg = (length entries < unat (min_fanout cfg))"
| "is_underflow (Internal _ children) cfg = (length children < unat (min_fanout cfg))"

fun num_entries :: "node \<Rightarrow> nat" where
  "num_entries (Leaf _ entries) = length entries"
| "num_entries (Internal _ children) = length children"

definition encode :: "extern \<Rightarrow> node \<Rightarrow> prolly_error + bytes" where
  "encode E nd = (case bincode_serialize E nd of None \<Rightarrow> Inl BincodeError | Some b \<Rightarrow> Inr b)"

definition decode :: "extern \<Rightarrow> bytes \<Rightarrow> prolly_error + node" where
  "decode E b = (case bincode_deserialize E b of None \<Rightarrow> Inl BincodeError | Some nd \<Rightarrow> Inr nd)"

text \<open>Hashing a byte string and encoding and hashing a node (\<^verbatim>\<open>src/src/chunk.rs\<close>).\<close>

definition hash_bytes :: "extern \<Rightarrow> bytes \<Rightarrow> hash" where
  "hash_bytes E b = blake3 E b"

definition chunk_node :: "extern \<Rightarrow> node \<Rightarrow> prolly_error + hash \<times> bytes" where
  "chunk_node E nd = (case encode E nd of Inl e \<Rightarrow> Inl e | Inr b \<Rightarrow> Inr (hash_bytes E b, b))"

lemma is_underflow_iff: "is_underflow nd cfg \<longleftrightarrow> num_entries nd < unat (min_fanout cfg)"
  by (cases nd) auto

lemma encode_decode:
  assumes "bincode_ok E"
  obtains b where "encode E nd = Inr b" "decode E b = Inr nd"
proof -
  from assms obtain b where "bincode_serialize E nd = Some b" "bincode_deserialize E b = Some nd"
    unfolding bincode_ok_def by blast
  then show thesis
    by (intro that [of b]) (simp_all add: encode_def decode_def)
qed

section \<open>Leaf entries as a sorted association list\<close>

abbreviation sorted_keys :: "leaf_entry list \<Rightarrow> bool" where
  "sorted_keys es \<equiv> sorted_wrt (<) (map le_key es)"

fun upsert :: "key \<Rightarrow> value_repr \<Rightarrow> leaf_entry list \<Rightarrow> leaf_entry list" where
  "upsert k v [] = [\<lparr>le_key = k, le_value = v\<rparr>]"
| "upsert k v (e # es) =
     (if k < le_key e then \<lparr>le_key = k, le_value = v\<rparr> # e # es
      else if k = le_key e then e\<lparr>le_value := v\<rparr> # es
      else e # upsert k v es)"

fun delete_key :: "key \<Rightarrow> leaf_entry list \<Rightarrow> leaf_entry list" where
  "delete_key k [] = []"
| "delete_key k (e # es) = (if le_key e = k then es else e # delete_key k es)"

fun lookup_key :: "key \<Rightarrow> leaf_entry list \<Rightarrow> value_repr option" where
  "lookup_key k [] = None"
| "lookup_key k (e # es) = (if le_key e = k then Some (le_value e) else lookup_key k es)"

named_theorems entries_simps "lookup, insertion and removal on lists of leaf entries"

lemma upsert_not_Nil [simp]: "upsert k v es \<noteq> []"
  by (cases es) auto

lemma keys_upsert: "set (map le_key (upsert k v es)) = insert k (set (map le_key es))"
  by (induction es) auto

lemma keys_delete_key: "sorted_keys es \<Longrightarrow> set (map le_key (delete_key k es)) = set (map le_key es) - {k}"
  by (induction es) auto

lemma sorted_upsert: "sorted_keys es \<Longrightarrow> sorted_keys (upsert k v es)"
proof (induction es)
  case Nil
  then show ?case by simp
next
  case (Cons e es)
  have "\<forall>x\<in>set (map le_key (upsert k v es)). le_key e < x" if "le_key e < k"
    using that Cons.prems by (simp only: keys_upsert) auto
  with Cons show ?case
    by (auto dest: less_trans)
qed

lemma sorted_delete_key: "sorted_keys es \<Longrightarrow> sorted_keys (delete_key k es)"
proof (induction es)
  case Nil
  then show ?case by simp
next
  case (Cons e es)
  then have "\<forall>x\<in>set (map le_key (delete_key k es)). le_key e < x"
    by (simp only: keys_delete_key sorted_wrt.simps list.map) auto
  with Cons show ?case by auto
qed

lemma lookup_key_None_iff: "lookup_key k es = None \<longleftrightarrow> k \<notin> le_key ` set es"
  by (induction es) auto

lemma lookup_key_in_set: "lookup_key k es = Some r \<Longrightarrow> \<exists>e\<in>set es. le_key e = k \<and> le_value e = r"
  by (induction es) (auto split: if_splits)

lemma lookup_key_append:
  "lookup_key k (xs @ ys) = (case lookup_key k xs of None \<Rightarrow> lookup_key k ys | Some r \<Rightarrow> Some r)"
  by (induction xs) auto

lemma lookup_upsert: "lookup_key k (upsert k' v es) = (if k = k' then Some v else lookup_key k es)"
  by (induction es) auto

lemma lookup_delete_key:
  assumes "sorted_keys es"
  shows "lookup_key k (delete_key k' es) = (if k = k' then None else lookup_key k es)"
  using assms
proof (induction es)
  case Nil
  then show ?case by simp
next
  case (Cons e es)
  then show ?case
    by (auto simp: lookup_key_None_iff)
qed

lemma upsert_keys_above: "\<forall>e\<in>set es. k < le_key e \<Longrightarrow> upsert k v es = \<lparr>le_key = k, le_value = v\<rparr> # es"
  by (cases es) auto

lemma upsert_append_right:
  "\<forall>e\<in>set xs. le_key e < k \<Longrightarrow> upsert k v (xs @ ys) = xs @ upsert k v ys"
  by (induction xs) auto

lemma upsert_append_left:
  "\<exists>e\<in>set xs. k \<le> le_key e \<Longrightarrow> upsert k v (xs @ ys) = upsert k v xs @ ys"
  by (induction xs) auto

lemma delete_key_absent: "k \<notin> le_key ` set es \<Longrightarrow> delete_key k es = es"
  by (induction es) auto

lemma delete_key_append_right:
  "k \<notin> le_key ` set xs \<Longrightarrow> delete_key k (xs @ ys) = xs @ delete_key k ys"
  by (induction xs) auto

lemma delete_key_append_left:
  "k \<notin> le_key ` set ys \<Longrightarrow> delete_key k (xs @ ys) = delete_key k xs @ ys"
  by (induction xs) (auto simp: delete_key_absent)

lemma length_upsert:
  "sorted_keys es \<Longrightarrow> length (upsert k v es) = (if k \<in> le_key ` set es then length es else Suc (length es))"
  by (induction es) auto

lemma length_delete_key:
  "length (delete_key k es) = (if k \<in> le_key ` set es then length es - 1 else length es)"
  by (induction es) (auto simp: Suc_diff_le dest: gr0_implies_Suc length_pos_if_in_set)

lemma upsert_same: "sorted_keys es \<Longrightarrow> lookup_key k es = Some v \<Longrightarrow> upsert k v es = es"
proof (induction es)
  case Nil
  then show ?case by simp
next
  case (Cons e es)
  show ?case
  proof (cases "le_key e = k")
    case True
    with Cons.prems show ?thesis by simp
  next
    case False
    then have "k \<in> le_key ` set es"
      using Cons.prems(2) lookup_key_None_iff [of k es] by auto
    then have "le_key e < k"
      using Cons.prems(1) by auto
    with Cons False show ?thesis by auto
  qed
qed

text \<open>Where a key stands in a sorted list.\<close>

lemma sorted_keys_split:
  assumes "sorted_keys es"
  obtains (found) as e bs where "es = as @ e # bs" "le_key e = k"
    "\<forall>x\<in>set as. le_key x < k" "\<forall>x\<in>set bs. k < le_key x"
  | (missing) as bs where "es = as @ bs"
    "\<forall>x\<in>set as. le_key x < k" "\<forall>x\<in>set bs. k < le_key x"
proof (cases "k \<in> le_key ` set es")
  case True
  then obtain e as bs where es: "es = as @ e # bs" "le_key e = k"
    by (metis imageE split_list)
  with assms have "\<forall>x\<in>set as. le_key x < k" "\<forall>x\<in>set bs. k < le_key x"
    by (auto simp: sorted_wrt_append)
  with es show thesis by (rule found)
next
  case False
  let ?as = "takeWhile (\<lambda>x. le_key x < k) es" and ?bs = "dropWhile (\<lambda>x. le_key x < k) es"
  have low: "\<forall>x\<in>set ?as. le_key x < k"
    by (auto dest: set_takeWhileD)
  have high: "\<forall>x\<in>set ?bs. k < le_key x"
  proof (cases ?bs)
    case Nil
    show ?thesis by (simp only: Nil) simp
  next
    case (Cons b bs)
    then have "\<not> le_key b < k"
      by (metis hd_dropWhile list.distinct(1) list.sel(1))
    moreover have "b \<in> set es"
      using Cons by (metis list.set_intros(1) set_dropWhileD)
    ultimately have b: "k < le_key b"
      using False by (metis image_eqI linorder_cases)
    have "sorted_keys (?as @ ?bs)"
      using assms by simp
    then have "sorted_keys ?bs"
      by (simp only: map_append sorted_wrt_append)
    with Cons b show ?thesis
      by (auto dest: less_trans)
  qed
  have "es = ?as @ ?bs" by simp
  from missing [OF this low high] show thesis .
qed

lemma last_key_greatest:
  "sorted_keys es \<Longrightarrow> e \<in> set es \<Longrightarrow> le_key e \<le> le_key (last es)"
  by (induction es) (auto simp: less_imp_le split: if_splits)

end
