(* ===== verification/Chunk_Store.thy ===== *)
theory Chunk_Store
  imports Node
begin

text \<open>
  The content-addressed store: the trait \<^verbatim>\<open>ChunkStore\<close> (\<^verbatim>\<open>src/src/store/chunk_store.rs\<close>) as a locale,
  its in-memory implementation (\<^verbatim>\<open>src/src/store/mem_store.rs\<close>) as definitions, the interpretation of
  the trait on it, and the two notions all later proofs rest on: a computation only adds chunks
  (\<open>grows\<close>), and a computation returns a result that satisfies a postcondition unless two of the
  chunks it wrote have the same hash (\<open>achieves\<close>).
\<close>

section \<open>State\<close>

text \<open>
  \<^verbatim>\<open>InMemoryStoreInner::data\<close> is a hash map; \<open>chunks\<close> lists its entries in the order an iteration
  meets them. \<open>lock\<close> is the state of the \<^verbatim>\<open>RwLock\<close> around it, as another task left it: an
  asynchronous call waits for the lock, a synchronous one fails when it is taken.
  \<open>history\<close> is a history variable of the proofs and no part of the program's state: the set of all
  byte strings ever given to \<^verbatim>\<open>put\<close>. No operation reads it. It lets a theorem ask that the
  strings of one run have different hashes, which is what \<^verbatim>\<open>blake3\<close> promises in practice,
  and not that the hash function is injective, which no function into 32 bytes is.
\<close>

datatype lock_state = Unlocked | ReadLocked | WriteLocked

record store =
  chunks :: "(hash \<times> bytes) list"
  lock :: lock_state
  history :: "bytes set"

definition new_store :: store where
  "new_store = \<lparr>chunks = [], lock = Unlocked, history = {}\<rparr>"

abbreviation chunk_at :: "store \<Rightarrow> hash \<Rightarrow> bytes option" where
  "chunk_at s \<equiv> map_of (chunks s)"

type_synonym 'a io = "(store, failure, 'a) comp"

section \<open>Operations\<close>

definition get :: "hash \<Rightarrow> bytes option io" where
  "get h = (\<lambda>s. (Inr (chunk_at s h), s))"

text \<open>\<^verbatim>\<open>entry(hash).or_insert_with\<close>: a chunk that is already there stays.\<close>

definition or_insert :: "hash \<Rightarrow> bytes \<Rightarrow> (hash \<times> bytes) list \<Rightarrow> (hash \<times> bytes) list" where
  "or_insert h b cs = (case map_of cs h of None \<Rightarrow> cs @ [(h, b)] | Some _ \<Rightarrow> cs)"

definition put :: "extern \<Rightarrow> bytes \<Rightarrow> hash io" where
  "put E b = (\<lambda>s. let h = hash_bytes E b
     in (Inr h, s\<lparr>chunks := or_insert h b (chunks s), history := insert b (history s)\<rparr>))"

definition exists_chunk :: "hash \<Rightarrow> bool io" where
  "exists_chunk h = (\<lambda>s. (Inr (h \<in> set (map fst (chunks s))), s))"

definition remove_chunk :: "hash \<Rightarrow> (hash \<times> bytes) list \<Rightarrow> (hash \<times> bytes) list" where
  "remove_chunk h cs = filter (\<lambda>p. fst p \<noteq> h) cs"

definition delete_batch :: "hash list \<Rightarrow> unit io" where
  "delete_batch hs = (\<lambda>s. if hs = [] then (Inr (), s)
     else (Inr (), s\<lparr>chunks := fold remove_chunk hs (chunks s)\<rparr>))"

definition all_hashes :: "hash list io" where
  "all_hashes = (\<lambda>s. (Inr (map fst (chunks s)), s))"

definition get_sync :: "hash \<Rightarrow> bytes option io" where
  "get_sync h = (\<lambda>s. if lock s = WriteLocked
     then (Inl (Err (StorageError ''Failed to acquire synchronous read lock on store. An async write operation is likely in progress.'')), s)
     else (Inr (chunk_at s h), s))"

definition put_sync :: "extern \<Rightarrow> bytes \<Rightarrow> hash io" where
  "put_sync E b = (\<lambda>s. let h = hash_bytes E b in
     if lock s \<noteq> Unlocked
     then (Inl (Err (StorageError ''Failed to acquire synchronous write lock on store. An async operation is likely in progress.'')), s)
     else (Inr h, s\<lparr>chunks := or_insert h b (chunks s), history := insert b (history s)\<rparr>))"

definition delete_batch_sync :: "hash list \<Rightarrow> unit io" where
  "delete_batch_sync hs = (\<lambda>s. if hs = [] then (Inr (), s)
     else if lock s \<noteq> Unlocked
     then (Inl (Err (StorageError ''Failed to acquire synchronous write lock on store for delete. An async operation is likely in progress.'')), s)
     else (Inr (), s\<lparr>chunks := fold remove_chunk hs (chunks s)\<rparr>))"

text \<open>
  The tree's asynchronous and synchronous functions differ in nothing but the store functions they
  call; the mode says which.
\<close>

datatype mode = Async | Sync

fun store_get :: "mode \<Rightarrow> hash \<Rightarrow> bytes option io" where
  "store_get Async h = get h"
| "store_get Sync h = get_sync h"

fun store_put :: "extern \<Rightarrow> mode \<Rightarrow> bytes \<Rightarrow> hash io" where
  "store_put E Async b = put E b"
| "store_put E Sync b = put_sync E b"

definition avail :: "mode \<Rightarrow> store \<Rightarrow> bool" where
  "avail md s \<longleftrightarrow> md = Async \<or> lock s = Unlocked"

text \<open>
  The default methods of the trait: looking for a chunk by fetching it, and no synchronous access. The
  store in memory overrides all of them.
\<close>

definition exists_default :: "(hash \<Rightarrow> ('s, failure, bytes option) comp) \<Rightarrow> hash \<Rightarrow> ('s, failure, bool) comp" where
  "exists_default get_chunk h = bindC (get_chunk h) (\<lambda>found. returnC (found \<noteq> None))"

definition get_sync_default :: "hash \<Rightarrow> ('s, failure, bytes option) comp" where
  "get_sync_default h = throwC (Err (InvalidOperation ''This store does not support synchronous get.''))"

definition put_sync_default :: "bytes \<Rightarrow> ('s, failure, hash) comp" where
  "put_sync_default b = throwC (Err (InvalidOperation ''This store does not support synchronous put.''))"

definition delete_batch_sync_default :: "hash list \<Rightarrow> ('s, failure, unit) comp" where
  "delete_batch_sync_default hs = throwC (Err (InvalidOperation ''This store does not support synchronous delete_batch.''))"

text \<open>The override of \<^verbatim>\<open>exists\<close> does what the default does.\<close>

lemma exists_default_get: "exists_default get = exists_chunk"
proof (intro ext)
  fix h s
  have "(chunk_at s h \<noteq> None) = (h \<in> set (map fst (chunks s)))" by (simp add: map_of_eq_None_iff)
  then show "exists_default get h s = exists_chunk h s"
    unfolding exists_default_def exists_chunk_def get_def bindC_apply returnC_apply by simp
qed

section \<open>The contract of the trait\<close>

text \<open>
  What a client may rely on: a lookup returns the stored chunk and changes nothing; a \<^verbatim>\<open>put\<close>
  returns the hash of the bytes and leaves a chunk under that hash, the old one if there was one.
\<close>

locale chunk_store =
  fixes cs_get :: "hash \<Rightarrow> ('s, failure, bytes option) comp"
    and cs_put :: "bytes \<Rightarrow> ('s, failure, hash) comp"
    and cs_avail :: "'s \<Rightarrow> bool"
    and cs_view :: "'s \<Rightarrow> hash \<Rightarrow> bytes option"
    and cs_hash :: "bytes \<Rightarrow> hash"
  assumes get_law: "cs_avail s \<Longrightarrow> cs_get h s = (Inr (cs_view s h), s)"
    and put_law: "cs_avail s \<Longrightarrow> cs_put b s = (r, s') \<Longrightarrow> r = Inr (cs_hash b) \<and> cs_avail s'
      \<and> cs_view s' = (case cs_view s (cs_hash b) of
            None \<Rightarrow> (cs_view s)(cs_hash b \<mapsto> b) | Some _ \<Rightarrow> cs_view s)"
begin

lemma put_keeps:
  assumes "cs_avail s" "cs_put b s = (r, s')" "cs_view s h = Some c"
  shows "cs_view s' h = Some c"
  using put_law [OF assms(1,2)] assms(3) by (auto split: option.splits)

lemma put_stores:
  assumes "cs_avail s" "cs_put b s = (r, s')" "cs_view s (cs_hash b) \<in> {None, Some b}"
  shows "cs_view s' (cs_hash b) = Some b"
  using put_law [OF assms(1,2)] assms(3) by (auto split: option.splits)

lemma put_other:
  assumes "cs_avail s" "cs_put b s = (r, s')" "h \<noteq> cs_hash b"
  shows "cs_view s' h = cs_view s h"
  using put_law [OF assms(1,2)] assms(3) by (auto split: option.splits)

lemma get_after_put:
  assumes "cs_avail s" "cs_view s (cs_hash b) \<in> {None, Some b}"
  shows "fst (bindC (cs_put b) cs_get s) = Inr (Some b)"
proof (cases "cs_put b s")
  case (Pair r s')
  from put_law [OF assms(1) Pair] have r: "r = Inr (cs_hash b)" "cs_avail s'" by auto
  from put_stores [OF assms(1) Pair assms(2)] r show ?thesis
    using Pair by (simp add: bindC_def get_law)
qed

lemma exists_law: "cs_avail s \<Longrightarrow> exists_default cs_get h s = (Inr (cs_view s h \<noteq> None), s)"
  by (simp add: exists_default_def bindC_apply returnC_apply get_law)

lemma put_idempotent:
  assumes "cs_avail s" "cs_put b s = (r, s')" "cs_put b s' = (r', s'')"
  shows "r' = r \<and> cs_view s'' = cs_view s'"
proof -
  note first = put_law [OF assms(1,2)]
  then have "cs_avail s'" by blast
  from first put_law [OF this assms(3)] show ?thesis
    by (auto split: option.splits)
qed

end

lemma map_of_or_insert:
  "map_of (or_insert h b cs) =
     (case map_of cs h of None \<Rightarrow> (map_of cs)(h \<mapsto> b) | Some _ \<Rightarrow> map_of cs)"
  by (auto simp: or_insert_def map_add_def fun_eq_iff split: option.splits)

interpretation mem: chunk_store "store_get md" "store_put E md" "avail md" chunk_at "blake3 E"
  for E md
proof unfold_locales
  show "store_get md h s = (Inr (chunk_at s h), s)" if "avail md s" for s h
    using that by (cases md) (auto simp: get_def get_sync_def avail_def)
next
  show "r = Inr (blake3 E b) \<and> avail md s' \<and> chunk_at s' =
      (case chunk_at s (blake3 E b) of
         None \<Rightarrow> (chunk_at s)(blake3 E b \<mapsto> b) | Some _ \<Rightarrow> chunk_at s)"
    if "avail md s" "store_put E md b s = (r, s')" for s b r s'
    using that
    by (cases md)
      (auto simp: put_def put_sync_def avail_def hash_bytes_def Let_def map_of_or_insert)
qed

section \<open>Well-formed stores, extension, absence of collisions\<close>

definition store_ok :: "extern \<Rightarrow> store \<Rightarrow> bool" where
  "store_ok E s \<longleftrightarrow> distinct (map fst (chunks s))
     \<and> (\<forall>(h, b)\<in>set (chunks s). h = blake3 E b \<and> b \<in> history s)"

definition collision_free :: "extern \<Rightarrow> store \<Rightarrow> bool" where
  "collision_free E s \<longleftrightarrow> inj_on (blake3 E) (history s)"

definition extends :: "store \<Rightarrow> store \<Rightarrow> bool" where
  "extends s s' \<longleftrightarrow> (\<forall>h b. chunk_at s h = Some b \<longrightarrow> chunk_at s' h = Some b)
     \<and> history s \<subseteq> history s' \<and> lock s' = lock s"

lemma store_ok_new [simp]: "store_ok E new_store"
  by (simp add: store_ok_def new_store_def)

lemma store_okD:
  "store_ok E s \<Longrightarrow> chunk_at s h = Some b \<Longrightarrow> h = blake3 E b \<and> b \<in> history s"
  unfolding store_ok_def by (auto dest: map_of_SomeD)

lemma extends_refl [simp]: "extends s s"
  by (simp add: extends_def)

lemma extends_trans [trans]: "extends s s' \<Longrightarrow> extends s' s'' \<Longrightarrow> extends s s''"
  by (auto simp: extends_def)

lemma extends_chunk: "extends s s' \<Longrightarrow> chunk_at s h = Some b \<Longrightarrow> chunk_at s' h = Some b"
  by (simp add: extends_def)

lemma extends_avail: "extends s s' \<Longrightarrow> avail md s' = avail md s"
  by (simp add: extends_def avail_def)

lemma extends_availI: "extends s s' \<Longrightarrow> avail md s \<Longrightarrow> avail md s'"
  by (simp add: extends_avail)

lemma collision_free_mono: "extends s s' \<Longrightarrow> collision_free E s' \<Longrightarrow> collision_free E s"
  by (auto simp: extends_def collision_free_def intro: inj_on_subset)

section \<open>Computations that only add chunks\<close>

definition grows :: "extern \<Rightarrow> 'a io \<Rightarrow> bool" where
  "grows E m \<longleftrightarrow> (\<forall>s r s'. m s = (r, s') \<longrightarrow>
     extends s s' \<and> (store_ok E s \<longrightarrow> store_ok E s'))"

named_theorems grows_intros "composition of computations that only add chunks"

lemma growsD: "grows E m \<Longrightarrow> m s = (r, s') \<Longrightarrow> extends s s' \<and> (store_ok E s \<longrightarrow> store_ok E s')"
  unfolding grows_def by blast

lemma grows_return [grows_intros]: "grows E (returnC x)"
  by (simp add: grows_def returnC_def)

lemma grows_throw [grows_intros]: "grows E (throwC e)"
  by (simp add: grows_def throwC_def)

lemma grows_bind [grows_intros]:
  assumes "grows E m" and "\<And>x. grows E (f x)"
  shows "grows E (bindC m f)"
  unfolding grows_def
proof (intro allI impI)
  fix s r s'
  assume "bindC m f s = (r, s')"
  then show "extends s s' \<and> (store_ok E s \<longrightarrow> store_ok E s')"
  proof (cases rule: bindC_cases)
    case (error e)
    with assms(1) show ?thesis by (auto dest: growsD)
  next
    case (ok x s1)
    with growsD [OF assms(1) ok(1)] growsD [OF assms(2) ok(2)] show ?thesis
      by (auto intro: extends_trans)
  qed
qed

lemma grows_get [grows_intros]: "grows E (store_get md h)"
  by (cases md) (auto simp: grows_def get_def get_sync_def split: if_splits)

lemma store_ok_put:
  assumes "store_ok E s"
  shows "store_ok E (s\<lparr>chunks := or_insert (blake3 E b) b (chunks s), history := insert b (history s)\<rparr>)"
  using assms
  by (auto simp: store_ok_def or_insert_def map_of_eq_None_iff image_iff split: option.splits)

lemma grows_put [grows_intros]: "grows E (store_put E md b)"
proof -
  have "extends s (s\<lparr>chunks := or_insert h b (chunks s), history := insert b (history s)\<rparr>)" for s h
    by (auto simp: extends_def map_of_or_insert split: option.splits)
  with store_ok_put [of E _ b] show ?thesis
    by (cases md) (auto simp: grows_def put_def put_sync_def hash_bytes_def Let_def split: if_splits)
qed

lemma grows_if [grows_intros]: "grows E m \<Longrightarrow> grows E m' \<Longrightarrow> grows E (if b then m else m')"
  by simp

lemma grows_case_sum [grows_intros]:
  "(\<And>x. grows E (f x)) \<Longrightarrow> (\<And>y. grows E (g y)) \<Longrightarrow> grows E (case z of Inl x \<Rightarrow> f x | Inr y \<Rightarrow> g y)"
  by (cases z) auto

lemma grows_case_option [grows_intros]:
  "grows E f \<Longrightarrow> (\<And>y. grows E (g y)) \<Longrightarrow> grows E (case z of None \<Rightarrow> f | Some y \<Rightarrow> g y)"
  by (cases z) auto

lemma grows_case_node [grows_intros]:
  "(\<And>l es. grows E (f l es)) \<Longrightarrow> (\<And>l cs. grows E (g l cs)) \<Longrightarrow>
   grows E (case nd of Leaf l es \<Rightarrow> f l es | Internal l cs \<Rightarrow> g l cs)"
  by (cases nd) auto

lemma grows_case_search [grows_intros]:
  "(\<And>i. grows E (f i)) \<Longrightarrow> (\<And>i. grows E (g i)) \<Longrightarrow>
   grows E (case r of Found i \<Rightarrow> f i | Missing i \<Rightarrow> g i)"
  by (cases r) auto

lemma grows_case_prod [grows_intros]:
  "(\<And>a b. grows E (f a b)) \<Longrightarrow> grows E (case p of (a, b) \<Rightarrow> f a b)"
  by (cases p) auto

lemma grows_Let [grows_intros]: "(\<And>x. grows E (f x)) \<Longrightarrow> grows E (let x = z in f x)"
  by (simp add: Let_def)

section \<open>Results in the absence of collisions\<close>

definition achieves :: "extern \<Rightarrow> 'a io \<Rightarrow> store \<Rightarrow> ('a \<Rightarrow> store \<Rightarrow> bool) \<Rightarrow> bool" where
  "achieves E m s Q \<longleftrightarrow> (\<forall>r s'. m s = (r, s') \<longrightarrow> collision_free E s' \<longrightarrow>
     (\<exists>x. r = Inr x \<and> Q x s'))"

lemma achievesI:
  "(\<And>r s'. m s = (r, s') \<Longrightarrow> collision_free E s' \<Longrightarrow> \<exists>x. r = Inr x \<and> Q x s') \<Longrightarrow> achieves E m s Q"
  unfolding achieves_def by blast

lemma achievesD:
  assumes "achieves E m s Q" "m s = (r, s')" "collision_free E s'"
  obtains x where "r = Inr x" "Q x s'"
  using assms unfolding achieves_def by blast

lemma achieves_return: "Q x s \<Longrightarrow> achieves E (returnC x) s Q"
  by (simp add: achieves_def returnC_def)

lemma achieves_weaken:
  "achieves E m s P \<Longrightarrow> (\<And>x s'. P x s' \<Longrightarrow> Q x s') \<Longrightarrow> achieves E m s Q"
  unfolding achieves_def by blast

lemma achieves_bind:
  assumes "achieves E m s P" and "\<And>x s1. P x s1 \<Longrightarrow> achieves E (f x) s1 Q"
    and "\<And>x. grows E (f x)"
  shows "achieves E (bindC m f) s Q"
proof (rule achievesI)
  fix r s'
  assume run: "bindC m f s = (r, s')" and cf: "collision_free E s'"
  from run show "\<exists>x. r = Inr x \<and> Q x s'"
  proof (cases rule: bindC_cases)
    case (error e)
    with achievesD [OF assms(1) error(1) cf] show ?thesis by blast
  next
    case (ok x s1)
    from growsD [OF assms(3) ok(2)] cf have "collision_free E s1"
      by (blast intro: collision_free_mono)
    with achievesD [OF assms(1) ok(1)] have "P x s1" by blast
    from achievesD [OF assms(2) [OF this] ok(2) cf] show ?thesis by blast
  qed
qed

lemma achieves_map:
  assumes "achieves E m s P" and "\<And>x s'. P x s' \<Longrightarrow> Q (f x) s'"
  shows "achieves E (bindC m (\<lambda>x. returnC (f x))) s Q"
  using assms(1) by (rule achieves_bind) (auto intro: achieves_return assms(2) grows_intros)

lemma achieves_get: "avail md s \<Longrightarrow> Q (chunk_at s h) s \<Longrightarrow> achieves E (store_get md h) s Q"
  by (simp add: achieves_def mem.get_law)

lemma achieves_put:
  assumes "avail md s" "store_ok E s"
  shows "achieves E (store_put E md b) s
     (\<lambda>h s'. h = blake3 E b \<and> chunk_at s' h = Some b \<and> extends s s' \<and> store_ok E s')"
proof (rule achievesI)
  fix r s'
  assume run: "store_put E md b s = (r, s')" and cf: "collision_free E s'"
  note grow = growsD [OF grows_put run]
  have b: "b \<in> history s'"
    using run assms(1)
    by (cases md) (auto simp: put_def put_sync_def avail_def Let_def)
  have "chunk_at s (blake3 E b) \<in> {None, Some b}"
  proof (cases "chunk_at s (blake3 E b)")
    case (Some c)
    with store_okD [OF assms(2)] have "blake3 E b = blake3 E c" "c \<in> history s" by auto
    with cf grow b have "c = b"
      by (auto simp: collision_free_def extends_def dest: inj_onD)
    with Some show ?thesis by simp
  qed simp
  from mem.put_stores [OF assms(1) run this] mem.put_law [OF assms(1) run] grow assms(2)
  show "\<exists>h. r = Inr h \<and> h = blake3 E b \<and> chunk_at s' h = Some b \<and> extends s s' \<and> store_ok E s'"
    by auto
qed

end
