(* ===== verification/Tree_IO.thy ===== *)
theory Tree_IO
  imports Chunk_Store
begin

text \<open>
  Nodes and values in the store: \<^verbatim>\<open>src/src/tree/io.rs\<close> (storing a node, preparing a value) and
  the loading functions of \<^verbatim>\<open>src/src/tree/prolly_tree.rs\<close> (\<^verbatim>\<open>load_node\<close>, \<^verbatim>\<open>load_value_repr_sync\<close>).
  The asynchronous and the synchronous version of each function are the same text over the
  asynchronous and the synchronous functions of the store, so a definition takes the mode; the
  versions with \<open>sync\<close> in the name are its instances.
\<close>

section \<open>Loading and storing nodes\<close>

definition liftE :: "prolly_error + 'a \<Rightarrow> 'a io" where
  "liftE r = (case r of Inl e \<Rightarrow> throwC (Err e) | Inr x \<Rightarrow> returnC x)"

definition load_node :: "extern \<Rightarrow> mode \<Rightarrow> hash \<Rightarrow> node io" where
  "load_node E md h = bindC (store_get md h) (\<lambda>found.
     case found of
       None \<Rightarrow> throwC (Err (ChunkNotFound h))
     | Some b \<Rightarrow> liftE (decode E b))"

definition load_node_sync :: "extern \<Rightarrow> hash \<Rightarrow> node io" where
  "load_node_sync E = load_node E Sync"

fun node_boundary_key :: "node \<Rightarrow> prolly_error + key" where
  "node_boundary_key (Leaf _ entries) =
     (if entries \<noteq> [] then Inr (le_key (last entries))
      else Inl (InternalError ''Attempted to get boundary key from empty or invalid node''))"
| "node_boundary_key (Internal _ children) =
     (if children \<noteq> [] then Inr (boundary_key (last children))
      else Inl (InternalError ''Attempted to get boundary key from empty or invalid node''))"

definition store_node_and_get_key_hash_pair :: "extern \<Rightarrow> mode \<Rightarrow> node \<Rightarrow> (key \<times> hash) io" where
  "store_node_and_get_key_hash_pair E md nd =
     bindC (liftE (chunk_node E nd)) (\<lambda>(h, b).
     bindC (store_put E md b) (\<lambda>_.
     bindC (liftE (node_boundary_key nd)) (\<lambda>k.
     returnC (k, h))))"

definition store_node_and_get_key_hash_pair_sync :: "extern \<Rightarrow> node \<Rightarrow> (key \<times> hash) io" where
  "store_node_and_get_key_hash_pair_sync E = store_node_and_get_key_hash_pair E Sync"

section \<open>Values\<close>

text \<open>
  The loop over the chunks of a value: each chunk is cut out of the value (out of range, a slice
  panics), hashed and stored; the hashes are collected in order.
\<close>

fun store_chunks :: "extern \<Rightarrow> mode \<Rightarrow> val \<Rightarrow> (nat \<times> nat) list \<Rightarrow> hash list io" where
  "store_chunks E md v [] = returnC []"
| "store_chunks E md v (p # ps) =
     (if length v < fst p + snd p then throwC Panic
      else bindC (store_put E md (cdc_slice v p)) (\<lambda>_.
           bindC (store_chunks E md v ps) (\<lambda>hs.
           returnC (hash_bytes E (cdc_slice v p) # hs))))"

definition prepare_value_repr :: "extern \<Rightarrow> mode \<Rightarrow> tree_config \<Rightarrow> val \<Rightarrow> value_repr io" where
  "prepare_value_repr E md cfg v =
     (if length v \<le> unat (max_inline_value_size cfg) then returnC (Inline v)
      else case fastcdc E v (cdc_min_size cfg) (cdc_avg_size cfg) (cdc_max_size cfg) of
        None \<Rightarrow> throwC Panic
      | Some ps \<Rightarrow> bindC (store_chunks E md v ps) (\<lambda>hs.
          returnC (case hs of
              [] \<Rightarrow> Inline v
            | [h] \<Rightarrow> Chunked h
            | _ \<Rightarrow> ChunkedSequence hs (of_nat (length v)))))"

definition prepare_value_repr_sync :: "extern \<Rightarrow> tree_config \<Rightarrow> val \<Rightarrow> value_repr io" where
  "prepare_value_repr_sync E = prepare_value_repr E Sync"

text \<open>
  Loading reserves a vector of \<^verbatim>\<open>total_size as usize\<close> bytes first; more than \<^verbatim>\<open>isize::MAX\<close> is a
  panic. A total size that differs from what the chunks amount to is only logged.
\<close>

definition capacity_ok :: "u64 \<Rightarrow> bool" where
  "capacity_ok n \<longleftrightarrow> unat (ucast n :: usize) < 2 ^ 31"

fun load_chunks :: "mode \<Rightarrow> hash list \<Rightarrow> bytes \<Rightarrow> bytes io" where
  "load_chunks md [] acc = returnC acc"
| "load_chunks md (h # hs) acc = bindC (store_get md h) (\<lambda>found.
     case found of
       None \<Rightarrow> throwC (Err (ChunkNotFound h))
     | Some b \<Rightarrow> load_chunks md hs (acc @ b))"

fun load_value_repr :: "mode \<Rightarrow> value_repr \<Rightarrow> val io" where
  "load_value_repr md (Inline v) = returnC v"
| "load_value_repr md (Chunked h) = bindC (store_get md h) (\<lambda>found.
     case found of
       None \<Rightarrow> throwC (Err (ChunkNotFound h))
     | Some b \<Rightarrow> returnC b)"
| "load_value_repr md (ChunkedSequence hs total_size) =
     (if capacity_ok total_size then load_chunks md hs [] else throwC Panic)"

definition load_value_repr_sync :: "value_repr \<Rightarrow> val option io" where
  "load_value_repr_sync r = bindC (load_value_repr Sync r) (\<lambda>v. returnC (Some v))"

section \<open>What is stored\<close>

text \<open>A node is stored under a hash when the chunk there is its encoding.\<close>

definition stored :: "extern \<Rightarrow> store \<Rightarrow> hash \<Rightarrow> node \<Rightarrow> bool" where
  "stored E s h nd \<longleftrightarrow> (\<exists>b. chunk_at s h = Some b \<and> bincode_serialize E nd = Some b)"

text \<open>The value a representation stands for in a store, if all its chunks are there.\<close>

fun chunks_value :: "store \<Rightarrow> hash list \<Rightarrow> val option" where
  "chunks_value s [] = Some []"
| "chunks_value s (h # hs) =
     (case (chunk_at s h, chunks_value s hs) of (Some b, Some v) \<Rightarrow> Some (b @ v) | _ \<Rightarrow> None)"

fun repr_value :: "store \<Rightarrow> value_repr \<Rightarrow> val option" where
  "repr_value s (Inline v) = Some v"
| "repr_value s (Chunked h) = chunk_at s h"
| "repr_value s (ChunkedSequence hs total_size) =
     (if capacity_ok total_size then chunks_value s hs else None)"

lemma stored_extends: "extends s s' \<Longrightarrow> stored E s h nd \<Longrightarrow> stored E s' h nd"
  by (auto simp: stored_def dest: extends_chunk)

lemma stored_unique: "bincode_ok E \<Longrightarrow> stored E s h nd \<Longrightarrow> stored E s h nd' \<Longrightarrow> nd = nd'"
  by (metis bincode_ok_def option.inject stored_def)

lemma chunks_value_extends: "extends s s' \<Longrightarrow> chunks_value s hs = Some v \<Longrightarrow> chunks_value s' hs = Some v"
  by (induction hs arbitrary: v) (auto split: option.splits dest: extends_chunk)

lemma repr_value_extends: "extends s s' \<Longrightarrow> repr_value s r = Some v \<Longrightarrow> repr_value s' r = Some v"
  by (cases r) (auto split: if_splits dest: extends_chunk chunks_value_extends)

section \<open>Growth\<close>

lemma liftE_simps [simp]: "liftE (Inr x) = returnC x" "liftE (Inl e) = throwC (Err e)"
  by (simp_all add: liftE_def)

lemma grows_liftE [grows_intros]: "grows E (liftE r)"
  by (auto simp: liftE_def intro!: grows_intros)

lemma grows_load_node [grows_intros]: "grows E (load_node E md h)"
  unfolding load_node_def by (intro grows_intros)

lemma grows_store_node [grows_intros]: "grows E (store_node_and_get_key_hash_pair E md nd)"
  unfolding store_node_and_get_key_hash_pair_def by (intro grows_intros)

lemma grows_store_chunks [grows_intros]: "grows E (store_chunks E md v ps)"
  by (induction ps) (auto intro!: grows_intros)

lemma grows_prepare_value_repr [grows_intros]: "grows E (prepare_value_repr E md cfg v)"
  unfolding prepare_value_repr_def by (intro grows_intros)

lemma grows_load_chunks [grows_intros]: "grows E (load_chunks md hs acc)"
  by (induction hs arbitrary: acc) (auto intro!: grows_intros)

lemma grows_load_value_repr [grows_intros]: "grows E (load_value_repr md r)"
  by (cases r) (auto intro!: grows_intros)

section \<open>Results\<close>

lemma load_node_stored:
  assumes "bincode_ok E" "avail md s" "stored E s h nd"
  shows "load_node E md h s = (Inr nd, s)"
proof -
  from assms(1,3) obtain b where "chunk_at s h = Some b" "bincode_deserialize E b = Some nd"
    unfolding stored_def bincode_ok_def by (metis option.inject)
  then show ?thesis
    by (simp add: load_node_def liftE_def decode_def comp_simps mem.get_law [OF assms(2)])
qed

lemma achieves_load_node:
  assumes "bincode_ok E" "avail md s" "stored E s h nd"
  shows "achieves E (load_node E md h) s (\<lambda>x s'. x = nd \<and> s' = s)"
  by (simp add: achieves_def load_node_stored [OF assms])

lemma achieves_store_node:
  assumes "bincode_ok E" "avail md s" "store_ok E s" "node_boundary_key nd = Inr k"
  shows "achieves E (store_node_and_get_key_hash_pair E md nd) s
     (\<lambda>x s'. fst x = k \<and> stored E s' (snd x) nd \<and> extends s s' \<and> store_ok E s')"
proof -
  obtain b where b: "bincode_serialize E nd = Some b"
    using assms(1) by (auto simp: bincode_ok_def)
  then have chunk: "chunk_node E nd = Inr (blake3 E b, b)"
    by (simp add: chunk_node_def encode_def hash_bytes_def)
  show ?thesis
    unfolding store_node_and_get_key_hash_pair_def chunk assms(4)
    by (auto intro!: achieves_map [OF achieves_put [OF assms(2,3)]] simp: stored_def b)
qed

lemma load_chunks_value:
  assumes "avail md s" "chunks_value s hs = Some v"
  shows "load_chunks md hs acc s = (Inr (acc @ v), s)"
  using assms(2)
proof (induction hs arbitrary: acc v)
  case Nil
  then show ?case by (simp add: comp_simps)
next
  case (Cons h hs)
  then show ?case
    by (auto simp: comp_simps mem.get_law [OF assms(1)] split: option.splits)
qed

lemma load_value_repr_value:
  assumes "avail md s" "repr_value s r = Some v"
  shows "load_value_repr md r s = (Inr v, s)"
  using assms(2)
  by (cases r)
    (auto simp: comp_simps mem.get_law [OF assms(1)] load_chunks_value [OF assms(1)] split: if_splits)

lemma achieves_store_chunks:
  assumes "avail md s" "store_ok E s" "\<forall>p\<in>set ps. fst p + snd p \<le> length v"
  shows "achieves E (store_chunks E md v ps) s
     (\<lambda>hs s'. length hs = length ps \<and> chunks_value s' hs = Some (concat (map (cdc_slice v) ps))
        \<and> extends s s' \<and> store_ok E s')"
  using assms
proof (induction ps arbitrary: s)
  case Nil
  then show ?case by (auto intro: achieves_return)
next
  case (Cons p ps)
  let ?b = "cdc_slice v p"
  have rest: "achieves E (store_chunks E md v ps) s1
      (\<lambda>hs s'. length hs = length ps \<and> chunks_value s' hs = Some (concat (map (cdc_slice v) ps))
        \<and> chunk_at s' (blake3 E ?b) = Some ?b \<and> extends s s' \<and> store_ok E s')"
    if "h = blake3 E ?b \<and> chunk_at s1 h = Some ?b \<and> extends s s1 \<and> store_ok E s1" for h s1
    using Cons.prems that
    by (intro achieves_weaken [OF Cons.IH])
      (auto simp: extends_avail intro: extends_trans extends_chunk)
  have "achieves E (bindC (store_put E md ?b) (\<lambda>_. bindC (store_chunks E md v ps)
       (\<lambda>hs. returnC (hash_bytes E ?b # hs)))) s
     (\<lambda>hs s'. length hs = length (p # ps)
        \<and> chunks_value s' hs = Some (concat (map (cdc_slice v) (p # ps)))
        \<and> extends s s' \<and> store_ok E s')"
    by (rule achieves_bind [OF achieves_put [OF Cons.prems(1,2)]], rule achieves_map, erule rest)
      (auto intro: grows_intros simp: hash_bytes_def)
  then show ?case
    using Cons.prems(3) by simp
qed

lemma achieves_prepare_value_repr:
  assumes "avail md s" "store_ok E s" "fastcdc_ok E" "fastcdc_accepts E cfg" "length v < 2 ^ 31"
  shows "achieves E (prepare_value_repr E md cfg v) s
     (\<lambda>r s'. repr_value s' r = Some v \<and> extends s s' \<and> store_ok E s')"
proof (cases "length v \<le> unat (max_inline_value_size cfg)")
  case True
  then show ?thesis
    using assms by (simp add: prepare_value_repr_def achieves_return)
next
  case False
  obtain ps where ps: "fastcdc E v (cdc_min_size cfg) (cdc_avg_size cfg) (cdc_max_size cfg) = Some ps"
    using assms(4) by (auto simp: fastcdc_accepts_def)
  with assms(3) have cut: "\<forall>p\<in>set ps. fst p + snd p \<le> length v" "concat (map (cdc_slice v) ps) = v"
    unfolding fastcdc_ok_def by blast+
  have cap: "capacity_ok (of_nat (length v))"
    using assms(5) by (simp add: capacity_ok_def unsigned_ucast_eq unsigned_of_nat take_bit_eq_mod)
  have result: "repr_value s' (case hs of [] \<Rightarrow> Inline v | [h] \<Rightarrow> Chunked h
      | _ \<Rightarrow> ChunkedSequence hs (of_nat (length v))) = Some v"
    if "chunks_value s' hs = Some v" for s' hs
    using that cap by (auto split: list.splits option.splits)
  show ?thesis
    using False ps cut
    by (auto simp: prepare_value_repr_def
        intro!: achieves_map [OF achieves_store_chunks [OF assms(1,2)]] result)
qed

end
