(* ===== verification/Tree_Shape.thy ===== *)
theory Tree_Shape
  imports Tree_IO
begin

text \<open>
  The shape of a well-formed subtree in the store and the list of leaf entries it stands for; the
  choice of a child for a key; the item counts of a node. Everything here is specification except
  the two functions the code uses to descend (\<open>child_idx\<close>) and to count (\<open>node_item_count\<close>).
\<close>

section \<open>Choosing a child and counting items\<close>

text \<open>
  The first child whose boundary key is not below the key, the last child if there is none. The
  code runs this loop in every descent (\<^verbatim>\<open>child_idx_to_search\<close>, \<^verbatim>\<open>child_idx_to_descend\<close>).
\<close>

definition child_idx :: "internal_entry list \<Rightarrow> key \<Rightarrow> nat" where
  "child_idx cs k = (case find_index (\<lambda>c. k \<le> boundary_key c) cs of
     Some i \<Rightarrow> i | None \<Rightarrow> length cs - 1)"

fun node_item_count :: "node \<Rightarrow> u64" where
  "node_item_count (Leaf _ entries) = of_nat (length entries)"
| "node_item_count (Internal _ children) = sum_list (map num_items_subtree children)"

section \<open>Well-formed subtrees\<close>

text \<open>
  \<open>node_at E lo hi s b n nd es\<close>: the node \<open>nd\<close> is the root of a subtree of height \<open>n\<close> whose leaf
  entries, from left to right, are \<open>es\<close>. It has between \<open>b\<close> and \<open>hi\<close> entries and every node below
  it between \<open>lo\<close> and \<open>hi\<close>; its level is its height; each child is stored under its hash, is not
  empty, and the entry of the child has its largest key and its number of items.
\<close>

fun node_at :: "extern \<Rightarrow> nat \<Rightarrow> nat \<Rightarrow> store \<Rightarrow> nat \<Rightarrow> nat \<Rightarrow> node \<Rightarrow> leaf_entry list \<Rightarrow> bool" where
  "node_at E lo hi s b 0 nd es \<longleftrightarrow> nd = Leaf 0 es \<and> b \<le> length es \<and> length es \<le> hi"
| "node_at E lo hi s b (Suc n) nd es \<longleftrightarrow>
     (\<exists>cs ess. nd = Internal (of_nat (Suc n)) cs \<and> b \<le> length cs \<and> length cs \<le> hi \<and> es = concat ess
        \<and> list_all2 (\<lambda>c es. es \<noteq> [] \<and> boundary_key c = le_key (last es)
             \<and> num_items_subtree c = of_nat (length es)
             \<and> (\<exists>nd. stored E s (child_hash c) nd \<and> node_at E lo hi s lo n nd es)) cs ess)"

text \<open>An entry of an internal node and the leaf entries below it.\<close>

definition child_at :: "extern \<Rightarrow> nat \<Rightarrow> nat \<Rightarrow> store \<Rightarrow> nat \<Rightarrow> nat \<Rightarrow> internal_entry \<Rightarrow> leaf_entry list \<Rightarrow> bool" where
  "child_at E lo hi s b n c es \<longleftrightarrow> es \<noteq> [] \<and> boundary_key c = le_key (last es)
     \<and> num_items_subtree c = of_nat (length es)
     \<and> (\<exists>nd. stored E s (child_hash c) nd \<and> node_at E lo hi s b n nd es)"

abbreviation children_at :: "extern \<Rightarrow> nat \<Rightarrow> nat \<Rightarrow> store \<Rightarrow> nat \<Rightarrow> internal_entry list \<Rightarrow> leaf_entry list list \<Rightarrow> bool" where
  "children_at E lo hi s n \<equiv> list_all2 (child_at E lo hi s lo n)"

lemma node_at_Suc:
  "node_at E lo hi s b (Suc n) nd es \<longleftrightarrow>
     (\<exists>cs ess. nd = Internal (of_nat (Suc n)) cs \<and> b \<le> length cs \<and> length cs \<le> hi
        \<and> es = concat ess \<and> children_at E lo hi s n cs ess)"
  by (simp add: child_at_def [abs_def])

declare node_at.simps(2) [simp del]

lemma node_at_extends: "extends s s' \<Longrightarrow> node_at E lo hi s b n nd es \<Longrightarrow> node_at E lo hi s' b n nd es"
proof (induction n arbitrary: b nd es)
  case 0
  then show ?case by simp
next
  case (Suc n)
  have "child_at E lo hi s lo n c es \<Longrightarrow> child_at E lo hi s' lo n c es" for c es
    using Suc.IH [OF Suc.prems(1)] by (auto simp: child_at_def intro: stored_extends [OF Suc.prems(1)])
  with Suc.prems(2) show ?case
    by (fastforce simp: node_at_Suc intro: list_all2_mono)
qed

lemma child_at_extends: "extends s s' \<Longrightarrow> child_at E lo hi s b n c es \<Longrightarrow> child_at E lo hi s' b n c es"
  by (auto simp: child_at_def intro: stored_extends node_at_extends)

lemma children_at_extends:
  "extends s s' \<Longrightarrow> children_at E lo hi s n cs ess \<Longrightarrow> children_at E lo hi s' n cs ess"
  by (auto intro: list_all2_mono child_at_extends)

lemma node_at_num_entries: "node_at E lo hi s b n nd es \<Longrightarrow> b \<le> num_entries nd \<and> num_entries nd \<le> hi"
  by (cases n) (auto simp: node_at_Suc)

text \<open>The bound of the root of a subtree says nothing but how many entries it has at least.\<close>

lemma node_at_bound:
  "node_at E lo hi s b n nd es \<Longrightarrow> b' \<le> num_entries nd \<Longrightarrow> node_at E lo hi s b' n nd es"
  by (cases n) (auto simp: node_at_Suc)

lemma child_at_bound:
  assumes "child_at E lo hi s b n c es" "stored E s (child_hash c) nd" "bincode_ok E"
    and "b' \<le> num_entries nd"
  shows "child_at E lo hi s b' n c es"
  using assms unfolding child_at_def by (metis node_at_bound stored_unique)

lemma children_at_nonempty: "children_at E lo hi s n cs ess \<Longrightarrow> es \<in> set ess \<Longrightarrow> es \<noteq> []"
  by (induction rule: list_all2_induct) (auto simp: child_at_def)

lemma concat_nonempty: "children_at E lo hi s n cs ess \<Longrightarrow> cs \<noteq> [] \<Longrightarrow> concat ess \<noteq> []"
  by (cases cs; cases ess) (auto simp: child_at_def)

lemma last_concat: "ess \<noteq> [] \<Longrightarrow> last ess \<noteq> [] \<Longrightarrow> last (concat ess) = last (last ess)"
  by (induction ess rule: rev_induct) auto

lemma children_last_boundary:
  assumes "children_at E lo hi s n cs ess" "cs \<noteq> []"
  shows "boundary_key (last cs) = le_key (last (concat ess))"
proof -
  from assms have len: "length ess = length cs" "ess \<noteq> []"
    by (auto dest: list_all2_lengthD)
  from assms len have "child_at E lo hi s lo n (last cs) (last ess)"
    by (simp add: last_conv_nth list_all2_nthD)
  with len show ?thesis
    by (simp add: child_at_def last_concat)
qed

lemma sum_items:
  "list_all2 (\<lambda>c es. num_items_subtree c = of_nat (length es)) cs ess \<Longrightarrow>
   sum_list (map num_items_subtree cs) = of_nat (length (concat ess))"
  by (induction rule: list_all2_induct) auto

lemma children_sum_items:
  "children_at E lo hi s n cs ess \<Longrightarrow>
   sum_list (map num_items_subtree cs) = of_nat (length (concat ess))"
  by (rule sum_items) (auto elim!: list_all2_mono simp: child_at_def)

lemma node_at_item_count:
  "node_at E lo hi s b n nd es \<Longrightarrow> node_item_count nd = of_nat (length es)"
  by (cases n) (auto simp: node_at_Suc children_sum_items)

lemma node_at_boundary:
  assumes "node_at E lo hi s b n nd es" "es \<noteq> []"
  shows "node_boundary_key nd = Inr (le_key (last es))"
proof (cases n)
  case 0
  with assms show ?thesis by simp
next
  case (Suc m)
  with assms(1) obtain cs ess where "nd = Internal (of_nat (Suc m)) cs" "es = concat ess"
    "children_at E lo hi s m cs ess"
    by (auto simp: node_at_Suc)
  moreover from this assms(2) have "cs \<noteq> []" by auto
  ultimately show ?thesis
    by (simp add: children_last_boundary)
qed

lemma node_at_nonempty: "node_at E lo hi s b n nd es \<Longrightarrow> 0 < num_entries nd \<longleftrightarrow> es \<noteq> []"
  by (cases n) (auto simp: node_at_Suc dest: concat_nonempty)

section \<open>Storing a well-formed node\<close>

lemma achieves_store_node_at:
  assumes "bincode_ok E" "avail md s" "store_ok E s" "node_at E lo hi s b n nd es" "es \<noteq> []"
  shows "achieves E (store_node_and_get_key_hash_pair E md nd) s
     (\<lambda>x s'. fst x = le_key (last es) \<and> extends s s' \<and> store_ok E s'
        \<and> stored E s' (snd x) nd \<and> node_at E lo hi s' b n nd es)"
  by (rule achieves_weaken [OF achieves_store_node [OF assms(1-3) node_at_boundary [OF assms(4,5)]]])
    (auto intro: node_at_extends assms(4))

lemma achieves_store_entry:
  assumes "bincode_ok E" "avail md s" "store_ok E s" "node_at E lo hi s b n nd es" "es \<noteq> []"
  shows "achieves E (store_node_and_get_key_hash_pair E md nd) s
     (\<lambda>x s'. extends s s' \<and> store_ok E s' \<and> stored E s' (snd x) nd \<and> child_at E lo hi s' b n
        \<lparr>boundary_key = fst x, child_hash = snd x, num_items_subtree = node_item_count nd\<rparr> es)"
  by (rule achieves_weaken [OF achieves_store_node_at [OF assms]])
    (auto simp: child_at_def node_at_item_count [OF assms(4)] assms(5))

section \<open>Boundaries\<close>

lemma child_boundary_in: "child_at E lo hi s b n c es \<Longrightarrow> boundary_key c \<in> le_key ` set es"
  by (auto simp: child_at_def)

lemma children_boundaries_in:
  "children_at E lo hi s n cs ess \<Longrightarrow> boundary_key ` set cs \<subseteq> le_key ` set (concat ess)"
  by (induction rule: list_all2_induct) (auto simp: image_Un dest!: child_boundary_in)

lemma children_boundaries_sorted:
  "children_at E lo hi s n cs ess \<Longrightarrow> sorted_keys (concat ess) \<Longrightarrow> sorted_wrt (<) (map boundary_key cs)"
proof (induction rule: list_all2_induct)
  case Nil
  then show ?case by simp
next
  case (Cons c cs es ess)
  from Cons.prems have sorted: "sorted_keys (concat ess)"
    "\<forall>x\<in>set es. \<forall>y\<in>set (concat ess). le_key x < le_key y"
    by (auto simp: sorted_wrt_append)
  have "boundary_key c < boundary_key c'" if "c' \<in> set cs" for c'
    using sorted(2) child_boundary_in [OF Cons.hyps(1)] children_boundaries_in [OF Cons.hyps(2)] that
    by fastforce
  with Cons.IH sorted(1) show ?case by simp
qed

section \<open>Descending\<close>

lemma child_idx_less: "cs \<noteq> [] \<Longrightarrow> child_idx cs k < length cs"
  by (auto simp: child_idx_def dest: find_index_SomeD split: option.splits)

lemma child_idx_before: "j < child_idx cs k \<Longrightarrow> boundary_key (cs ! j) < k"
proof (cases "find_index (\<lambda>c. k \<le> boundary_key c) cs")
  case None
  assume "j < child_idx cs k"
  with None have "j < length cs" by (simp add: child_idx_def)
  with find_index_NoneD [OF None nth_mem] show ?thesis by (simp add: not_le)
next
  case (Some i)
  assume "j < child_idx cs k"
  with find_index_SomeD [OF Some] Some show ?thesis by (simp add: child_idx_def not_le)
qed

lemma child_idx_at:
  assumes "child_idx cs k = i" "Suc i < length cs"
  shows "k \<le> boundary_key (cs ! i)"
  using assms by (auto simp: child_idx_def dest: find_index_SomeD split: option.splits)

text \<open>
  A descent cuts the children of a node, and the entries below them, into three parts: everything
  left of the chosen child is below the key, everything right of it above.
\<close>

lemma descend:
  assumes at: "children_at E lo hi s n cs ess" and ne: "cs \<noteq> []" and sorted: "sorted_keys (concat ess)"
  obtains ls c rs xs es ys where
    "cs = ls @ c # rs" "child_idx cs k = length ls" "ess = xs @ es # ys"
    "children_at E lo hi s n ls xs" "child_at E lo hi s lo n c es" "children_at E lo hi s n rs ys"
    "\<forall>e\<in>set (concat xs). le_key e < k" "\<forall>e\<in>set (concat ys). k < le_key e"
    "rs \<noteq> [] \<longrightarrow> k \<le> le_key (last es)" "sorted_keys es" "es \<noteq> []"
proof -
  let ?i = "child_idx cs k"
  obtain ls rs where cs: "cs = ls @ cs ! ?i # rs" "length ls = ?i"
    using split_at_index [OF child_idx_less [OF ne]] by metis
  define c where "c = cs ! ?i"
  have cs': "cs = ls @ c # rs" using cs(1) by (simp add: c_def)
  from at [unfolded cs'] obtain xs es ys where
    ess: "ess = xs @ es # ys" "children_at E lo hi s n ls xs" "child_at E lo hi s lo n c es"
      "children_at E lo hi s n rs ys"
    by (auto simp: list_all2_append1 list_all2_Cons1)
  have es: "es \<noteq> []" "boundary_key c = le_key (last es)"
    using ess(3) by (auto simp: child_at_def)
  have below: "le_key e < k" if "e \<in> set (concat xs)" for e
  proof -
    from that have ne': "ls \<noteq> []" using ess(2) by auto
    then have "length ls - 1 < ?i" using cs(2) by (cases ls) auto
    then have "boundary_key (cs ! (length ls - 1)) < k" by (rule child_idx_before)
    then have "boundary_key (last ls) < k"
      using cs' ne' by (metis cs(2) last_conv_nth nth_append diff_less length_greater_0_conv zero_less_one)
    then have "le_key (last (concat xs)) < k"
      using children_last_boundary [OF ess(2) ne'] by simp
    moreover have "sorted_keys (concat xs)"
      using sorted ess(1) by (simp add: sorted_wrt_append)
    ultimately show ?thesis
      using last_key_greatest [OF _ that] by (metis le_less_trans)
  qed
  have last: "k \<le> le_key (last es)" if "rs \<noteq> []"
  proof -
    have "Suc ?i < length cs"
      using that cs(2) arg_cong [OF cs', of length] by (cases rs) auto
    from child_idx_at [OF refl this] show ?thesis
      by (simp only: c_def [symmetric] es(2))
  qed
  have above: "k < le_key e" if "e \<in> set (concat ys)" for e
  proof -
    from that have "rs \<noteq> []" using ess(4) by auto
    then have "k \<le> le_key (last es)" by (rule last)
    also have "le_key (last es) < le_key e"
      using sorted that es(1) ess(1) by (auto simp: sorted_wrt_append)
    finally show ?thesis .
  qed
  have sorted': "sorted_keys es"
    using sorted ess(1) by (simp add: sorted_wrt_append)
  have bounds: "\<forall>e\<in>set (concat xs). le_key e < k" "\<forall>e\<in>set (concat ys). k < le_key e"
    using below above by blast+
  have "rs \<noteq> [] \<longrightarrow> k \<le> le_key (last es)" using last by blast
  from that [OF cs' cs(2) [symmetric] ess bounds this sorted' es(1)] show thesis .
qed

end
