(* ===== verification/Core_Get.thy ===== *)
theory Core_Get
  imports Tree_Shape
begin

text \<open>
  Lookup: \<^verbatim>\<open>get_recursive_impl\<close> and \<^verbatim>\<open>get_recursive_sync_impl\<close> of \<^verbatim>\<open>src/src/tree/core_logic.rs\<close>, and
  what the binary search in a leaf amounts to for lookup, insertion and removal. Fuel above the
  height of the tree is enough (lemma \<open>get_recursive_at\<close>).
\<close>

section \<open>Leaves\<close>

text \<open>The three uses of the binary search in a leaf.\<close>

definition leaf_search :: "leaf_entry list \<Rightarrow> key \<Rightarrow> search_result" where
  "leaf_search entries k = binary_search (map le_key entries) k"

definition leaf_upsert :: "leaf_entry list \<Rightarrow> key \<Rightarrow> value_repr \<Rightarrow> leaf_entry list" where
  "leaf_upsert entries k v = (case leaf_search entries k of
     Found i \<Rightarrow> entries[i := (entries ! i)\<lparr>le_value := v\<rparr>]
   | Missing i \<Rightarrow> vec_insert i \<lparr>le_key = k, le_value = v\<rparr> entries)"

lemma leaf_search_Found:
  assumes "sorted_keys (as @ e # bs)" "le_key e = k"
  shows "leaf_search (as @ e # bs) k = Found (length as)"
  using binary_search_Found [of "map le_key as" k "map le_key bs"] assms
  by (simp add: leaf_search_def)

lemma leaf_search_Missing:
  assumes "sorted_keys (as @ bs)" "\<forall>x\<in>set as. le_key x < k" "\<forall>x\<in>set bs. k < le_key x"
  shows "leaf_search (as @ bs) k = Missing (length as)"
  using binary_search_Missing [of "map le_key as" "map le_key bs" k] assms
  by (simp add: leaf_search_def)

lemma leaf_search_cases:
  assumes "sorted_keys es"
  obtains (found) as e bs where "es = as @ e # bs" "le_key e = k"
    "leaf_search es k = Found (length as)" "lookup_key k es = Some (le_value e)"
    "delete_key k es = as @ bs" "\<And>v. upsert k v es = as @ e\<lparr>le_value := v\<rparr> # bs"
  | (missing) as bs where "es = as @ bs" "leaf_search es k = Missing (length as)"
    "lookup_key k es = None" "delete_key k es = es"
    "\<And>v. upsert k v es = as @ \<lparr>le_key = k, le_value = v\<rparr> # bs"
  using assms
proof (cases rule: sorted_keys_split [where k = k])
  case (found as e bs)
  then have as: "k \<notin> le_key ` set as" by auto
  then have "lookup_key k es = Some (le_value e)"
    using found by (simp add: lookup_key_append lookup_key_None_iff [THEN iffD2])
  moreover have "delete_key k es = as @ bs"
    using found as by (simp add: delete_key_append_right)
  moreover have "upsert k v es = as @ e\<lparr>le_value := v\<rparr> # bs" for v
    using found by (simp add: upsert_append_right)
  moreover have "leaf_search es k = Found (length as)"
    using found leaf_search_Found assms by blast
  ultimately show thesis
    using that(1) [OF found(1,2)] by blast
next
  case (missing as bs)
  then have no: "k \<notin> le_key ` set es" by auto
  have "leaf_search es k = Missing (length as)"
    using missing leaf_search_Missing assms by blast
  moreover have "upsert k v es = as @ \<lparr>le_key = k, le_value = v\<rparr> # bs" for v
    using missing by (simp add: upsert_append_right upsert_keys_above)
  ultimately show thesis
    using that(2) [OF missing(1)] no by (simp add: lookup_key_None_iff delete_key_absent)
qed

lemma leaf_upsert_eq: "sorted_keys es \<Longrightarrow> leaf_upsert es k v = upsert k v es"
  by (erule leaf_search_cases [where k = k]) (simp_all add: leaf_upsert_def)

section \<open>Lookup\<close>

fun get_recursive :: "extern \<Rightarrow> mode \<Rightarrow> nat \<Rightarrow> hash \<Rightarrow> key \<Rightarrow> val option io" where
  "get_recursive E md 0 node_hash k = throwC OutOfFuel"
| "get_recursive E md (Suc fuel) node_hash k =
     bindC (load_node E md node_hash) (\<lambda>nd. case nd of
       Leaf _ entries \<Rightarrow>
         (case leaf_search entries k of
            Found i \<Rightarrow> bindC (load_value_repr md (le_value (entries ! i))) (\<lambda>v. returnC (Some v))
          | Missing _ \<Rightarrow> returnC None)
     | Internal _ children \<Rightarrow>
         (if children = [] then returnC None
          else get_recursive E md fuel (child_hash (children ! child_idx children k)) k))"

definition get_recursive_sync_impl :: "extern \<Rightarrow> nat \<Rightarrow> hash \<Rightarrow> key \<Rightarrow> val option io" where
  "get_recursive_sync_impl E = get_recursive E Sync"

text \<open>Every value of the entries can be loaded.\<close>

definition values_ok :: "store \<Rightarrow> leaf_entry list \<Rightarrow> bool" where
  "values_ok s es \<longleftrightarrow> (\<forall>e\<in>set es. repr_value s (le_value e) \<noteq> None)"

text \<open>The map a list of entries stands for.\<close>

definition entries_map :: "store \<Rightarrow> leaf_entry list \<Rightarrow> key \<Rightarrow> val option" where
  "entries_map s es k = (case lookup_key k es of None \<Rightarrow> None | Some r \<Rightarrow> repr_value s r)"

lemma lookup_key_descend:
  assumes "sorted_keys (concat (xs @ es # ys))"
    and "\<forall>e\<in>set (concat xs). le_key e < k" "\<forall>e\<in>set (concat ys). k < le_key e"
  shows "lookup_key k (concat (xs @ es # ys)) = lookup_key k es"
proof -
  have "lookup_key k (concat xs) = None" "lookup_key k (concat ys) = None"
    using assms(2,3) by (auto simp: lookup_key_None_iff image_iff)
  then show ?thesis
    by (simp add: lookup_key_append split: option.splits)
qed

lemma get_recursive_at:
  assumes "bincode_ok E" "avail md s"
    and "stored E s h nd" "node_at E lo hi s b n nd es" "sorted_keys es" "values_ok s es" "n < fuel"
  shows "get_recursive E md fuel h k s = (Inr (entries_map s es k), s)"
  using assms(3-)
proof (induction n arbitrary: h nd b es fuel)
  case 0
  then obtain f where f: "fuel = Suc f" by (cases fuel) auto
  note load = load_node_stored [OF assms(1,2) "0.prems"(1)]
  from "0.prems"(3) show ?case
  proof (cases rule: leaf_search_cases [where k = k])
    case (found as e bs)
    then obtain v where v: "repr_value s (le_value e) = Some v"
      using "0.prems"(4) by (auto simp: values_ok_def)
    from found "0.prems"(2) have "nd = Leaf 0 (as @ e # bs)" by simp
    with found v f show ?thesis
      by (simp add: comp_simps load load_value_repr_value [OF assms(2)] entries_map_def)
  next
    case (missing as bs)
    from "0.prems"(2) have "nd = Leaf 0 es" by simp
    with missing(2,3) f show ?thesis
      by (simp add: comp_simps load entries_map_def)
  qed
next
  case (Suc n)
  then obtain f where f: "fuel = Suc f" by (cases fuel) auto
  note load = load_node_stored [OF assms(1,2) Suc.prems(1)]
  from Suc.prems(2) obtain cs ess where nd: "nd = Internal (of_nat (Suc n)) cs" "es = concat ess"
    "children_at E lo hi s n cs ess"
    by (auto simp: node_at_Suc)
  show ?case
  proof (cases "cs = []")
    case True
    with nd f show ?thesis
      by (simp add: comp_simps load entries_map_def)
  next
    case False
    have so: "sorted_keys (concat ess)" using Suc.prems(3) nd(2) by simp
    obtain ls c rs xs es' ys where d: "cs = ls @ c # rs" "child_idx cs k = length ls"
      "ess = xs @ es' # ys" "children_at E lo hi s n ls xs" "child_at E lo hi s lo n c es'"
      "children_at E lo hi s n rs ys"
      "\<forall>e\<in>set (concat xs). le_key e < k" "\<forall>e\<in>set (concat ys). k < le_key e"
      "rs \<noteq> [] \<longrightarrow> k \<le> le_key (last es')" "sorted_keys es'" "es' \<noteq> []"
      by (rule descend [OF nd(3) False so, of k])
    from d(5) obtain nd' where nd': "stored E s (child_hash c) nd'" "node_at E lo hi s lo n nd' es'"
      by (auto simp: child_at_def)
    have "values_ok s es'"
      using Suc.prems(4) nd(2) d(3) by (simp add: values_ok_def)
    from Suc.IH [OF nd' d(10) this, of f] Suc.prems(5) f
    have "get_recursive E md f (child_hash c) k s = (Inr (entries_map s es' k), s)" by simp
    moreover have "entries_map s es k = entries_map s es' k"
      using lookup_key_descend [OF _ d(7,8)] Suc.prems(3) unfolding nd(2) d(3) entries_map_def
      by (simp only:)
    moreover have "cs ! child_idx cs k = c"
      by (simp only: d(2)) (simp add: d(1))
    ultimately show ?thesis
      by (simp add: f load nd(1) False comp_simps)
  qed
qed

end
