(* ===== verification/Core_Insert.thy ===== *)
theory Core_Insert
  imports Core_Get
begin

text \<open>
  Insertion: \<^verbatim>\<open>insert_recursive_impl\<close> and \<^verbatim>\<open>insert_recursive_sync_impl\<close> of
  \<^verbatim>\<open>src/src/tree/core_logic.rs\<close>, with the record they return (\<^verbatim>\<open>src/src/tree/types.rs\<close>). The main
  lemma, \<open>insert_recursive_at\<close>: on a well-formed subtree, with fuel above its height, insertion
  returns the hash of a well-formed subtree, or of two of them if the node split, that together
  hold the old entries with the key inserted.
\<close>

section \<open>The functions\<close>

record processed_node_update =
  new_hash :: hash
  new_boundary_key :: key
  new_item_count :: u64
  split_info :: "(key \<times> hash \<times> u64) option"

text \<open>The entry of a child after the child was updated: the code assigns all three fields.\<close>

definition update_entry :: "processed_node_update \<Rightarrow> internal_entry" where
  "update_entry u = \<lparr>boundary_key = new_boundary_key u, child_hash = new_hash u,
     num_items_subtree = new_item_count u\<rparr>"

text \<open>The last lines of the internal case: store the node and report it.\<close>

definition finish_node :: "extern \<Rightarrow> mode \<Rightarrow> node \<Rightarrow> (key \<times> hash \<times> u64) option \<Rightarrow> processed_node_update io" where
  "finish_node E md nd split =
     bindC (store_node_and_get_key_hash_pair E md nd) (\<lambda>(b, h).
     returnC \<lparr>new_hash = h, new_boundary_key = b, new_item_count = node_item_count nd, split_info = split\<rparr>)"

definition insert_leaf :: "extern \<Rightarrow> mode \<Rightarrow> tree_config \<Rightarrow> u8 \<Rightarrow> leaf_entry list \<Rightarrow> processed_node_update io" where
  "insert_leaf E md cfg l entries =
     (if unat (target_fanout cfg) < length entries then
        let mid_idx = length entries div 2;
            left = take mid_idx entries;
            right_sibling_entries = drop mid_idx entries
        in if right_sibling_entries = []
           then throwC (Err (InternalError ''Split leaf created empty right sibling''))
           else bindC (store_node_and_get_key_hash_pair E md (Leaf 0 right_sibling_entries)) (\<lambda>(_, right_sibling_hash).
                finish_node E md (Leaf l left)
                  (Some (le_key (last right_sibling_entries), right_sibling_hash,
                         of_nat (length right_sibling_entries))))
      else finish_node E md (Leaf l entries) None)"

definition insert_internal ::
  "extern \<Rightarrow> mode \<Rightarrow> tree_config \<Rightarrow> u8 \<Rightarrow> u8 \<Rightarrow> internal_entry list \<Rightarrow> nat \<Rightarrow> processed_node_update
     \<Rightarrow> processed_node_update io" where
  "insert_internal E md cfg lvl l children i u =
     (let children1 = children[i := update_entry u]
      in case split_info u of
        None \<Rightarrow> finish_node E md (Internal l children1) None
      | Some (boundary_from_child_split, new_child_sibling_hash, child_sibling_item_count) \<Rightarrow>
          let new_internal_entry = \<lparr>boundary_key = boundary_from_child_split,
                child_hash = new_child_sibling_hash, num_items_subtree = child_sibling_item_count\<rparr>;
              pos = search_pos (binary_search (map boundary_key children1) boundary_from_child_split);
              children2 = vec_insert pos new_internal_entry children1
          in if unat (target_fanout cfg) < length children2 then
               let mid_idx = length children2 div 2;
                   left = take mid_idx children2;
                   right = drop mid_idx children2
               in if right = []
                  then throwC (Err (InternalError ''Split internal created empty right sibling''))
                  else bindC (store_node_and_get_key_hash_pair E md (Internal lvl right)) (\<lambda>(_, right_sibling_hash).
                       finish_node E md (Internal l left)
                         (Some (boundary_key (last right), right_sibling_hash,
                                sum_list (map num_items_subtree right))))
             else finish_node E md (Internal l children2) None)"

text \<open>
  \<^verbatim>\<open>children.len() - 1\<close> underflows for an internal node without children and the next access is out
  of range: a panic. The level is a \<^verbatim>\<open>u8\<close> and is decremented with wrap-around.
\<close>

fun insert_recursive ::
  "extern \<Rightarrow> mode \<Rightarrow> tree_config \<Rightarrow> nat \<Rightarrow> hash \<Rightarrow> key \<Rightarrow> value_repr \<Rightarrow> u8 \<Rightarrow> processed_node_update io" where
  "insert_recursive E md cfg 0 h k v lvl = throwC OutOfFuel"
| "insert_recursive E md cfg (Suc fuel) h k v lvl =
     bindC (load_node E md h) (\<lambda>nd. case nd of
       Leaf l entries \<Rightarrow> insert_leaf E md cfg l (leaf_upsert entries k v)
     | Internal l children \<Rightarrow>
         (if children = [] then throwC Panic
          else let i = child_idx children k
               in bindC (insert_recursive E md cfg fuel (child_hash (children ! i)) k v (lvl - 1)) (\<lambda>u.
                  insert_internal E md cfg lvl l children i u)))"

definition insert_recursive_sync_impl ::
  "extern \<Rightarrow> tree_config \<Rightarrow> nat \<Rightarrow> hash \<Rightarrow> key \<Rightarrow> value_repr \<Rightarrow> u8 \<Rightarrow> processed_node_update io" where
  "insert_recursive_sync_impl E = insert_recursive E Sync"

section \<open>Growth\<close>

lemma grows_finish_node [grows_intros]: "grows E (finish_node E md nd sp)"
  unfolding finish_node_def by (intro grows_intros)

lemma grows_insert_leaf [grows_intros]: "grows E (insert_leaf E md cfg l entries)"
  unfolding insert_leaf_def by (intro grows_intros)

lemma grows_insert_internal [grows_intros]: "grows E (insert_internal E md cfg lvl l children i u)"
  unfolding insert_internal_def by (intro grows_intros)

lemma grows_insert_recursive [grows_intros]: "grows E (insert_recursive E md cfg fuel h k v lvl)"
  by (induction fuel arbitrary: h lvl) (auto intro!: grows_intros)

section \<open>What an update reports\<close>

definition split_entry :: "key \<times> hash \<times> u64 \<Rightarrow> internal_entry" where
  "split_entry p = \<lparr>boundary_key = fst p, child_hash = fst (snd p), num_items_subtree = snd (snd p)\<rparr>"

definition update_at ::
  "extern \<Rightarrow> nat \<Rightarrow> nat \<Rightarrow> store \<Rightarrow> nat \<Rightarrow> nat \<Rightarrow> processed_node_update \<Rightarrow> leaf_entry list \<Rightarrow> bool" where
  "update_at E lo hi s b n u es \<longleftrightarrow> (case split_info u of
     None \<Rightarrow> child_at E lo hi s b n (update_entry u) es
   | Some p \<Rightarrow> \<exists>xs ys. es = xs @ ys \<and> child_at E lo hi s lo n (update_entry u) xs
        \<and> child_at E lo hi s lo n (split_entry p) ys)"

text \<open>The state of the store after a step that stored well-formed nodes.\<close>

abbreviation grown :: "extern \<Rightarrow> store \<Rightarrow> store \<Rightarrow> bool" where
  "grown E s s' \<equiv> extends s s' \<and> store_ok E s'"

lemma achieves_finish_node:
  assumes "bincode_ok E" "avail md s" "store_ok E s" "node_at E lo hi s b n nd es" "es \<noteq> []"
  shows "achieves E (finish_node E md nd sp) s
     (\<lambda>u s'. grown E s s' \<and> split_info u = sp \<and> child_at E lo hi s' b n (update_entry u) es)"
  unfolding finish_node_def
  by (rule achieves_bind [OF achieves_store_entry [OF assms]])
    (auto intro!: achieves_return grows_intros simp: update_entry_def split: prod.splits)

section \<open>Insertion into well-formed nodes\<close>

text \<open>Cutting a node in the middle.\<close>

lemma children_at_take_drop:
  assumes "children_at E lo hi s n cs ess"
  shows "children_at E lo hi s n (take i cs) (take i ess)" "children_at E lo hi s n (drop i cs) (drop i ess)"
  using assms by (auto intro: list_all2_takeI list_all2_dropI)

lemma half_bounds:
  assumes "hi < m" "m \<le> Suc hi" "2 * lo \<le> hi" "1 \<le> lo"
  shows "lo \<le> m div 2" "m div 2 \<le> hi" "lo \<le> m - m div 2" "m - m div 2 \<le> hi" "m div 2 < m" "0 < m div 2"
  using assms by auto

text \<open>A node that split: the right half is stored first, then the left half.\<close>

lemma achieves_split:
  assumes "bincode_ok E" "avail md s" "store_ok E s"
    and "node_at E lo hi s lo n ndl xs" "node_at E lo hi s lo n ndr ys" "xs \<noteq> []" "ys \<noteq> []"
    and "k = le_key (last ys)" "cnt = of_nat (length ys)"
  shows "achieves E (bindC (store_node_and_get_key_hash_pair E md ndr) (\<lambda>(_, h).
       finish_node E md ndl (Some (k, h, cnt)))) s
     (\<lambda>u s'. grown E s s' \<and> update_at E lo hi s' b n u (xs @ ys))"
proof (rule achieves_bind [OF achieves_store_entry [OF assms(1-3) assms(5,7)]])
  fix x s1
  assume right: "extends s s1 \<and> store_ok E s1 \<and> stored E s1 (snd x) ndr \<and> child_at E lo hi s1 lo n
     \<lparr>boundary_key = fst x, child_hash = snd x, num_items_subtree = node_item_count ndr\<rparr> ys"
  then have entry: "child_at E lo hi s1 lo n (split_entry (k, snd x, cnt)) ys"
    using assms(8,9) by (auto simp: child_at_def split_entry_def)
  from right have "avail md s1" "store_ok E s1" "node_at E lo hi s1 lo n ndl xs"
    using assms(2) node_at_extends [OF _ assms(4)] by (auto intro: extends_availI)
  note finish = achieves_finish_node [OF assms(1) this assms(6), of "Some (k, snd x, cnt)"]
  have "achieves E (finish_node E md ndl (Some (k, snd x, cnt))) s1
     (\<lambda>u s'. grown E s s' \<and> update_at E lo hi s' b n u (xs @ ys))"
    by (rule achieves_weaken [OF finish])
      (use right entry in \<open>auto simp: update_at_def intro: extends_trans child_at_extends\<close>)
  then show "achieves E (case x of (_, h) \<Rightarrow> finish_node E md ndl (Some (k, h, cnt))) s1
     (\<lambda>u s'. grown E s s' \<and> update_at E lo hi s' b n u (xs @ ys))"
    by (simp add: case_prod_beta)
qed (auto intro: grows_intros)

lemma insert_leaf_at:
  assumes "bincode_ok E" "avail md s" "store_ok E s" "1 \<le> lo" "2 * lo \<le> hi" "hi = unat (target_fanout cfg)"
    and "b \<le> length es" "length es \<le> Suc hi" "es \<noteq> []"
  shows "achieves E (insert_leaf E md cfg 0 es) s
     (\<lambda>u s'. grown E s s' \<and> update_at E lo hi s' b 0 u es)"
proof (cases "hi < length es")
  case True
  let ?m = "length es div 2"
  note half = half_bounds [OF True assms(8,5,4)]
  have ne: "take ?m es \<noteq> []" "drop ?m es \<noteq> []"
    using half(5,6) by auto
  have "node_at E lo hi s lo 0 (Leaf 0 (take ?m es)) (take ?m es)"
    "node_at E lo hi s lo 0 (Leaf 0 (drop ?m es)) (drop ?m es)"
    using half by auto
  from achieves_split [OF assms(1-3) this ne refl refl, of b] show ?thesis
    using True ne assms(6) by (simp add: insert_leaf_def Let_def)
next
  case False
  then have "node_at E lo hi s b 0 (Leaf 0 es) es"
    using assms(7) by simp
  from achieves_finish_node [OF assms(1-3) this assms(9), of None] False assms(6) show ?thesis
    by (auto simp: insert_leaf_def update_at_def elim!: achieves_weaken)
qed

lemma finish_internal_at:
  assumes "bincode_ok E" "avail md s" "store_ok E s" "1 \<le> lo" "2 * lo \<le> hi"
    and "children_at E lo hi s n cs ess" "b \<le> length cs" "length cs \<le> Suc hi" "cs \<noteq> []"
    and "lvl = of_nat (Suc n)"
  shows "achieves E (if hi < length cs then
        let mid_idx = length cs div 2; left = take mid_idx cs; right = drop mid_idx cs
        in if right = []
           then throwC (Err (InternalError ''Split internal created empty right sibling''))
           else bindC (store_node_and_get_key_hash_pair E md (Internal lvl right)) (\<lambda>(_, h).
                finish_node E md (Internal lvl left)
                  (Some (boundary_key (last right), h, sum_list (map num_items_subtree right))))
      else finish_node E md (Internal lvl cs) None) s
     (\<lambda>u s'. grown E s s' \<and> update_at E lo hi s' b (Suc n) u (concat ess))"
proof (cases "hi < length cs")
  case True
  let ?m = "length cs div 2"
  note half = half_bounds [OF True assms(8,5,4)]
  note cut = children_at_take_drop [OF assms(6), of ?m]
  have ne: "take ?m cs \<noteq> []" "drop ?m cs \<noteq> []"
    using half(5,6) by auto
  have at: "node_at E lo hi s lo (Suc n) (Internal lvl (take ?m cs)) (concat (take ?m ess))"
    "node_at E lo hi s lo (Suc n) (Internal lvl (drop ?m cs)) (concat (drop ?m ess))"
    using cut half unfolding node_at_Suc assms(10) by (force intro: exI)+
  have "boundary_key (last (drop ?m cs)) = le_key (last (concat (drop ?m ess)))"
    "sum_list (map num_items_subtree (drop ?m cs)) = of_nat (length (concat (drop ?m ess)))"
    using children_last_boundary [OF cut(2) ne(2)] children_sum_items [OF cut(2)] by auto
  from achieves_split [OF assms(1-3) at concat_nonempty [OF cut(1) ne(1)]
      concat_nonempty [OF cut(2) ne(2)] this, of b]
  show ?thesis
    using True ne by (simp add: Let_def flip: concat_append)
next
  case False
  then have "node_at E lo hi s b (Suc n) (Internal lvl cs) (concat ess)"
    using assms(6,7,10) by (auto simp: node_at_Suc)
  from achieves_finish_node [OF assms(1-3) this concat_nonempty [OF assms(6,9)], of None] False
  show ?thesis
    by (auto simp: update_at_def elim!: achieves_weaken)
qed

text \<open>The new sibling of a child goes right after the child.\<close>

lemma sibling_position:
  assumes "children_at E lo hi s n (ls @ c # c' # rs) ess" "sorted_keys (concat ess)"
  shows "search_pos (binary_search (map boundary_key (ls @ c # rs)) (boundary_key c')) = Suc (length ls)"
proof -
  have sorted: "sorted_wrt (<) (map boundary_key (ls @ c # c' # rs))"
    using children_boundaries_sorted [OF assms] .
  have "binary_search (map boundary_key (ls @ [c]) @ map boundary_key rs) (boundary_key c')
      = Missing (length (map boundary_key (ls @ [c])))"
    by (rule binary_search_Missing) (use sorted in \<open>auto simp: sorted_wrt_append\<close>)
  then show ?thesis by simp
qed

lemma insert_internal_at:
  assumes "bincode_ok E" "avail md s" "store_ok E s" "1 \<le> lo" "2 * lo \<le> hi" "hi = unat (target_fanout cfg)"
    and "children_at E lo hi s n ls xs" "children_at E lo hi s n rs ys"
    and "update_at E lo hi s lo n u es"
    and "b \<le> Suc (length ls + length rs)" "length ls + length rs < hi" "lvl = of_nat (Suc n)"
    and "sorted_keys (concat (xs @ es # ys))"
  shows "achieves E (insert_internal E md cfg lvl lvl (ls @ c # rs) (length ls) u) s
     (\<lambda>u' s'. grown E s s' \<and> update_at E lo hi s' b (Suc n) u' (concat (xs @ es # ys)))"
proof (cases "split_info u")
  case None
  with assms(7-9) have "children_at E lo hi s n (ls @ update_entry u # rs) (xs @ es # ys)"
    by (simp add: update_at_def list_all2_appendI)
  from finish_internal_at [OF assms(1-5) this _ _ _ assms(12), of b] assms(10,11) None
  show ?thesis by (simp add: insert_internal_def Let_def)
next
  case (Some p)
  then obtain us vs where es: "es = us @ vs" and "child_at E lo hi s lo n (update_entry u) us"
    "child_at E lo hi s lo n (split_entry p) vs"
    using assms(9) by (auto simp: update_at_def)
  with assms(7,8) have at: "children_at E lo hi s n (ls @ update_entry u # split_entry p # rs) (xs @ us # vs # ys)"
    by (simp add: list_all2_appendI)
  have "sorted_keys (concat (xs @ us # vs # ys))"
    using assms(13) es by simp
  from sibling_position [OF at this]
  have pos: "search_pos (binary_search (map boundary_key (ls @ update_entry u # rs)) (fst p)) = Suc (length ls)"
    by (simp add: split_entry_def)
  have ins: "vec_insert (Suc (length ls)) x (ls @ update_entry u # rs) = ls @ update_entry u # x # rs" for x
    using vec_insert_append [of "ls @ [update_entry u]" x rs] by simp
  obtain bk hh cnt where p: "p = (bk, hh, cnt)" by (cases p) auto
  let ?cs = "ls @ update_entry u # split_entry p # rs"
  have "b \<le> length ?cs" "length ?cs \<le> Suc hi" "?cs \<noteq> []"
    using assms(10,11) by auto
  note finish = finish_internal_at [OF assms(1-5) at this assms(12)]
  have "insert_internal E md cfg lvl lvl (ls @ c # rs) (length ls) u =
      (if hi < length ?cs then
        let mid_idx = length ?cs div 2; left = take mid_idx ?cs; right = drop mid_idx ?cs
        in if right = []
           then throwC (Err (InternalError ''Split internal created empty right sibling''))
           else bindC (store_node_and_get_key_hash_pair E md (Internal lvl right)) (\<lambda>(_, h).
                finish_node E md (Internal lvl left)
                  (Some (boundary_key (last right), h, sum_list (map num_items_subtree right))))
      else finish_node E md (Internal lvl ?cs) None)"
    using pos
    by (simp add: insert_internal_def Some p Let_def ins split_entry_def assms(6) del: map_append list.map)
  with finish show ?thesis by (simp add: es)
qed

lemma upsert_descend:
  assumes "\<forall>e\<in>set (concat xs). le_key e < k" "\<forall>e\<in>set (concat ys). k < le_key e"
    and "ys \<noteq> [] \<longrightarrow> k \<le> le_key (last es)" "es \<noteq> []"
  shows "upsert k v (concat (xs @ es # ys)) = concat (xs @ upsert k v es # ys)"
proof (cases "concat ys = []")
  case True
  with assms(1) show ?thesis
    by (simp add: upsert_append_right del: concat_eq_Nil_conv)
next
  case False
  then have "\<exists>e\<in>set es. k \<le> le_key e"
    using assms(3,4) last_in_set by auto
  with assms(1) show ?thesis
    by (simp add: upsert_append_right upsert_append_left)
qed

lemma insert_recursive_at:
  assumes "bincode_ok E" "1 \<le> lo" "2 * lo \<le> hi" "hi = unat (target_fanout cfg)"
    and "avail md s" "store_ok E s" "stored E s h nd" "node_at E lo hi s b n nd es"
    and "sorted_keys es" "es \<noteq> []" "n < fuel" "lvl = of_nat n"
  shows "achieves E (insert_recursive E md cfg fuel h k v lvl) s
     (\<lambda>u s'. grown E s s' \<and> update_at E lo hi s' b n u (upsert k v es))"
  using assms(5-)
proof (induction n arbitrary: b fuel lvl h nd es)
  case 0
  then obtain f where f: "fuel = Suc f" by (cases fuel) auto
  from "0.prems"(4) have nd: "nd = Leaf 0 es" "b \<le> length es" "length es \<le> hi" by auto
  have "b \<le> length (upsert k v es)" "length (upsert k v es) \<le> Suc hi"
    using nd(2,3) by (auto simp: length_upsert [OF "0.prems"(5)])
  from insert_leaf_at [OF assms(1) "0.prems"(1,2) assms(2-4) this upsert_not_Nil]
  have leaf: "achieves E (insert_leaf E md cfg 0 (leaf_upsert es k v)) s
      (\<lambda>u s'. grown E s s' \<and> update_at E lo hi s' b 0 u (upsert k v es))"
    by (simp add: leaf_upsert_eq [OF "0.prems"(5)])
  show ?case
    unfolding f insert_recursive.simps
    by (rule achieves_bind [OF achieves_load_node [OF assms(1) "0.prems"(1,3)]])
      (use leaf nd in \<open>auto intro!: grows_intros\<close>)
next
  case (Suc n)
  then obtain f where f: "fuel = Suc f" "n < f" by (cases fuel) auto
  from Suc.prems(4) obtain cs ess where nd: "nd = Internal (of_nat (Suc n)) cs" "es = concat ess"
    "children_at E lo hi s n cs ess" and len: "b \<le> length cs" "length cs \<le> hi"
    by (auto simp: node_at_Suc)
  have ne: "cs \<noteq> []" and so: "sorted_keys (concat ess)"
    using Suc.prems(5,6) nd by auto
  obtain ls c rs xs es' ys where d: "cs = ls @ c # rs" "child_idx cs k = length ls"
    "ess = xs @ es' # ys" "children_at E lo hi s n ls xs" "child_at E lo hi s lo n c es'"
    "children_at E lo hi s n rs ys"
    "\<forall>e\<in>set (concat xs). le_key e < k" "\<forall>e\<in>set (concat ys). k < le_key e"
    "rs \<noteq> [] \<longrightarrow> k \<le> le_key (last es')" "sorted_keys es'" "es' \<noteq> []"
    by (rule descend [OF nd(3) ne so, of k])
  from d(5) obtain nd' where nd': "stored E s (child_hash c) nd'" "node_at E lo hi s lo n nd' es'"
    by (auto simp: child_at_def)
  have "ys \<noteq> [] \<longrightarrow> k \<le> le_key (last es')"
    using d(6,9) by auto
  from upsert_descend [OF d(7,8) this d(11)] nd(2) d(3)
  have ups: "upsert k v es = concat (xs @ upsert k v es' # ys)" by simp
  have sorted': "sorted_keys (concat (xs @ upsert k v es' # ys))"
    using sorted_upsert [OF Suc.prems(5), of k v] unfolding ups .
  have lvl: "lvl - 1 = of_nat n"
    using Suc.prems(8) by simp
  note rec = Suc.IH [OF Suc.prems(1,2) nd' d(10,11) f(2) lvl]
  have step: "achieves E (insert_internal E md cfg lvl lvl cs (child_idx cs k) u) s1
      (\<lambda>u' s'. grown E s s' \<and> update_at E lo hi s' b (Suc n) u' (upsert k v es))"
    if u: "grown E s s1 \<and> update_at E lo hi s1 lo n u (upsert k v es')" for u s1
  proof -
    from u have s1: "avail md s1" "store_ok E s1" "children_at E lo hi s1 n ls xs" "children_at E lo hi s1 n rs ys"
      using Suc.prems(1) d(4,6) by (auto intro: extends_availI children_at_extends)
    have "b \<le> Suc (length ls + length rs)" "length ls + length rs < hi"
      using len d(1) by auto
    from insert_internal_at [OF assms(1) s1(1,2) assms(2-4) s1(3,4) _ this Suc.prems(8) sorted', of u c] u
    show ?thesis
      unfolding ups d(2) by (auto simp: d(1) elim!: achieves_weaken intro: extends_trans)
  qed
  have child: "child_hash (cs ! child_idx cs k) = child_hash c"
    by (simp only: d(2)) (simp add: d(1))
  have body: "achieves E (bindC (insert_recursive E md cfg f (child_hash (cs ! child_idx cs k)) k v (lvl - 1))
      (\<lambda>u. insert_internal E md cfg lvl lvl cs (child_idx cs k) u)) s
      (\<lambda>u' s'. grown E s s' \<and> update_at E lo hi s' b (Suc n) u' (upsert k v es))"
    unfolding child by (rule achieves_bind [OF rec step]) (auto intro: grows_intros)
  show ?case
    unfolding f(1) insert_recursive.simps
    by (rule achieves_bind [OF achieves_load_node [OF assms(1) Suc.prems(1,3)]])
      (use body nd(1) ne Suc.prems(8) in \<open>auto simp: Let_def intro!: grows_intros\<close>)
qed

end
