(* ===== verification/Modification.thy ===== *)
theory Modification
  imports Core_Insert
begin

text \<open>
  Rebalancing after a deletion: \<^verbatim>\<open>src/src/tree/modification.rs\<close>. A node that fell below the minimum
  takes an entry from its left or its right sibling, or is merged with one. The list of children of
  the parent is an argument and a result, where the code changes it in place. Every index comes
  from the search for a child in the same list, so it is in range.
\<close>

section \<open>Moving entries between siblings\<close>

fun move_from_left :: "node \<Rightarrow> node \<Rightarrow> prolly_error + node \<times> node" where
  "move_from_left (Leaf l left_entries) (Leaf l' underflow_entries) =
     (if left_entries = []
      then Inl (InternalError ''Attempted to borrow from empty left leaf sibling'')
      else Inr (Leaf l (butlast left_entries), Leaf l' (last left_entries # underflow_entries)))"
| "move_from_left (Internal l left_children) (Internal l' underflow_children) =
     (if left_children = []
      then Inl (InternalError ''Attempted to borrow from empty left internal sibling'')
      else Inr (Internal l (butlast left_children), Internal l' (last left_children # underflow_children)))"
| "move_from_left _ _ = Inl (InternalError ''Mismatched node types during rebalance from left'')"

fun move_from_right :: "node \<Rightarrow> node \<Rightarrow> prolly_error + node \<times> node" where
  "move_from_right (Leaf l underflow_entries) (Leaf l' right_entries) =
     (if right_entries = []
      then Inl (InternalError ''Attempted to borrow from empty right leaf sibling'')
      else Inr (Leaf l (underflow_entries @ [hd right_entries]), Leaf l' (tl right_entries)))"
| "move_from_right (Internal l underflow_children) (Internal l' right_children) =
     (if right_children = []
      then Inl (InternalError ''Attempted to borrow from empty right internal sibling'')
      else Inr (Internal l (underflow_children @ [hd right_children]), Internal l' (tl right_children)))"
| "move_from_right _ _ = Inl (InternalError ''Mismatched node types during rebalance from right'')"

fun append_nodes :: "node \<Rightarrow> node \<Rightarrow> prolly_error + node" where
  "append_nodes (Leaf l left_entries) (Leaf _ right_entries) = Inr (Leaf l (left_entries @ right_entries))"
| "append_nodes (Internal l left_children) (Internal _ right_children) =
     Inr (Internal l (left_children @ right_children))"
| "append_nodes _ _ = Inl (InternalError ''Mismatched node types during merge'')"

section \<open>The functions\<close>

text \<open>Both rebalancing functions end by storing the two nodes, left one first, and updating the parent.\<close>

definition store_siblings ::
  "extern \<Rightarrow> mode \<Rightarrow> internal_entry list \<Rightarrow> nat \<Rightarrow> nat \<Rightarrow> node \<times> node \<Rightarrow> internal_entry list io" where
  "store_siblings E md parent i j p =
     bindC (store_node_and_get_key_hash_pair E md (fst p)) (\<lambda>(b1, h1).
     bindC (store_node_and_get_key_hash_pair E md (snd p)) (\<lambda>(b2, h2).
     returnC (parent
       [i := \<lparr>boundary_key = b1, child_hash = h1, num_items_subtree = node_item_count (fst p)\<rparr>,
        j := \<lparr>boundary_key = b2, child_hash = h2, num_items_subtree = node_item_count (snd p)\<rparr>])))"

definition rebalance_borrow_from_left ::
  "extern \<Rightarrow> mode \<Rightarrow> internal_entry list \<Rightarrow> nat \<Rightarrow> nat \<Rightarrow> internal_entry list io" where
  "rebalance_borrow_from_left E md parent left_idx underflow_idx =
     bindC (load_node E md (child_hash (parent ! left_idx))) (\<lambda>left_node.
     bindC (load_node E md (child_hash (parent ! underflow_idx))) (\<lambda>underflow_node.
     bindC (liftE (move_from_left left_node underflow_node)) (\<lambda>p.
     store_siblings E md parent left_idx underflow_idx p)))"

definition rebalance_borrow_from_right ::
  "extern \<Rightarrow> mode \<Rightarrow> internal_entry list \<Rightarrow> nat \<Rightarrow> nat \<Rightarrow> internal_entry list io" where
  "rebalance_borrow_from_right E md parent underflow_idx right_idx =
     bindC (load_node E md (child_hash (parent ! underflow_idx))) (\<lambda>underflow_node.
     bindC (load_node E md (child_hash (parent ! right_idx))) (\<lambda>right_node.
     bindC (liftE (move_from_right underflow_node right_node)) (\<lambda>p.
     store_siblings E md parent underflow_idx right_idx p)))"

definition merge_into_left_sibling_internal ::
  "extern \<Rightarrow> mode \<Rightarrow> internal_entry list \<Rightarrow> nat \<Rightarrow> nat \<Rightarrow> internal_entry list io" where
  "merge_into_left_sibling_internal E md parent left_idx right_idx =
     (if left_idx + 1 \<noteq> right_idx
      then throwC (Err (InternalError ''Attempted to merge non-adjacent siblings''))
      else if length parent \<le> right_idx
      then throwC (Err (InternalError ''Right sibling index is out of bounds for parent_children_vec''))
      else
        bindC (load_node E md (child_hash (parent ! left_idx))) (\<lambda>left_node.
        bindC (load_node E md (child_hash (parent ! right_idx))) (\<lambda>right_node.
        bindC (liftE (append_nodes left_node right_node)) (\<lambda>merged.
        bindC (store_node_and_get_key_hash_pair E md merged) (\<lambda>(b, h).
        returnC (vec_remove right_idx (parent
          [left_idx := \<lparr>boundary_key = b, child_hash = h,
             num_items_subtree = num_items_subtree (parent ! left_idx)
               + num_items_subtree (parent ! right_idx)\<rparr>])))))))"

text \<open>The last resort: merge with the left sibling, or with the right one if there is no left one.\<close>

definition merge_with_sibling ::
  "extern \<Rightarrow> mode \<Rightarrow> internal_entry list \<Rightarrow> nat \<Rightarrow> internal_entry list io" where
  "merge_with_sibling E md children i =
     (if 0 < i then merge_into_left_sibling_internal E md children (i - 1) i
      else if length children \<le> 1
      then throwC (Err (InternalError ''Underflow node has no sibling to merge with.''))
      else merge_into_left_sibling_internal E md children i (i + 1))"

definition borrow_right_or_merge ::
  "extern \<Rightarrow> mode \<Rightarrow> tree_config \<Rightarrow> internal_entry list \<Rightarrow> nat \<Rightarrow> internal_entry list io" where
  "borrow_right_or_merge E md cfg children i =
     (if i + 1 < length children then
        bindC (load_node E md (child_hash (children ! (i + 1)))) (\<lambda>right_sibling_node.
          if unat (min_fanout cfg) < num_entries right_sibling_node
          then rebalance_borrow_from_right E md children i (i + 1)
          else merge_with_sibling E md children i)
      else merge_with_sibling E md children i)"

definition handle_underflow_strategy ::
  "extern \<Rightarrow> mode \<Rightarrow> tree_config \<Rightarrow> internal_entry list \<Rightarrow> nat \<Rightarrow> internal_entry list io" where
  "handle_underflow_strategy E md cfg children i =
     (if 0 < i then
        bindC (load_node E md (child_hash (children ! (i - 1)))) (\<lambda>left_sibling_node.
          if unat (min_fanout cfg) < num_entries left_sibling_node
          then rebalance_borrow_from_left E md children (i - 1) i
          else borrow_right_or_merge E md cfg children i)
      else borrow_right_or_merge E md cfg children i)"

definition handle_underflow_strategy_sync ::
  "extern \<Rightarrow> tree_config \<Rightarrow> internal_entry list \<Rightarrow> nat \<Rightarrow> internal_entry list io" where
  "handle_underflow_strategy_sync E = handle_underflow_strategy E Sync"

definition rebalance_borrow_from_left_sync ::
  "extern \<Rightarrow> internal_entry list \<Rightarrow> nat \<Rightarrow> nat \<Rightarrow> internal_entry list io" where
  "rebalance_borrow_from_left_sync E = rebalance_borrow_from_left E Sync"

definition rebalance_borrow_from_right_sync ::
  "extern \<Rightarrow> internal_entry list \<Rightarrow> nat \<Rightarrow> nat \<Rightarrow> internal_entry list io" where
  "rebalance_borrow_from_right_sync E = rebalance_borrow_from_right E Sync"

definition merge_into_left_sibling_internal_sync ::
  "extern \<Rightarrow> internal_entry list \<Rightarrow> nat \<Rightarrow> nat \<Rightarrow> internal_entry list io" where
  "merge_into_left_sibling_internal_sync E = merge_into_left_sibling_internal E Sync"

section \<open>Growth\<close>

lemma grows_store_siblings [grows_intros]: "grows E (store_siblings E md parent i j p)"
  unfolding store_siblings_def by (intro grows_intros)

lemma grows_rebalance_borrow_from_left [grows_intros]:
  "grows E (rebalance_borrow_from_left E md parent i j)"
  unfolding rebalance_borrow_from_left_def by (intro grows_intros)

lemma grows_rebalance_borrow_from_right [grows_intros]:
  "grows E (rebalance_borrow_from_right E md parent i j)"
  unfolding rebalance_borrow_from_right_def by (intro grows_intros)

lemma grows_merge_into_left [grows_intros]:
  "grows E (merge_into_left_sibling_internal E md parent i j)"
  unfolding merge_into_left_sibling_internal_def by (intro grows_intros)

lemma grows_merge_with_sibling [grows_intros]: "grows E (merge_with_sibling E md children i)"
  unfolding merge_with_sibling_def by (intro grows_intros)

lemma grows_borrow_right_or_merge [grows_intros]: "grows E (borrow_right_or_merge E md cfg children i)"
  unfolding borrow_right_or_merge_def by (intro grows_intros)

lemma grows_handle_underflow [grows_intros]: "grows E (handle_underflow_strategy E md cfg children i)"
  unfolding handle_underflow_strategy_def by (intro grows_intros)

section \<open>Moving entries keeps the shape\<close>

lemma children_at_butlast_last:
  assumes "children_at E lo hi s n cs ess" "cs \<noteq> []"
  shows "children_at E lo hi s n (butlast cs) (butlast ess)" "child_at E lo hi s lo n (last cs) (last ess)"
    "concat ess = concat (butlast ess) @ last ess"
proof -
  from assms have len: "length cs = length ess" "ess \<noteq> []"
    by (auto dest: list_all2_lengthD)
  show "children_at E lo hi s n (butlast cs) (butlast ess)"
    using assms(1) by (simp add: butlast_conv_take len(1) list_all2_takeI)
  show "child_at E lo hi s lo n (last cs) (last ess)"
    using assms len by (simp add: last_conv_nth list_all2_nthD)
  show "concat ess = concat (butlast ess) @ last ess"
    using len(2) by (metis append_butlast_last_id concat_append concat.simps append_Nil2)
qed

lemma move_from_left_at:
  assumes "node_at E lo hi s (Suc lo) n L xs" "node_at E lo hi s (lo - 1) n U ys"
    and "num_entries U < lo" "lo \<le> hi"
  obtains L' U' xs' ys' where "move_from_left L U = Inr (L', U')"
    "node_at E lo hi s lo n L' xs'" "node_at E lo hi s lo n U' ys'" "xs' @ ys' = xs @ ys"
proof (cases n)
  case 0
  with assms have LU: "L = Leaf 0 xs" "Suc lo \<le> length xs" "length xs \<le> hi" "U = Leaf 0 ys"
    "lo - 1 \<le> length ys" "length ys < lo"
    by auto
  then have "xs \<noteq> []" by auto
  then have "butlast xs @ last xs # ys = xs @ ys"
    by (metis append.assoc append_Cons append_Nil append_butlast_last_id)
  with LU assms(4) \<open>xs \<noteq> []\<close> show thesis
    by (intro that [of "Leaf 0 (butlast xs)" "Leaf 0 (last xs # ys)" "butlast xs" "last xs # ys"])
      (auto simp: 0)
next
  case (Suc m)
  let ?l = "of_nat (Suc m) :: u8"
  from assms(1-3) obtain cs ess ds dss where LU:
    "L = Internal ?l cs" "Suc lo \<le> length cs" "length cs \<le> hi" "xs = concat ess" "children_at E lo hi s m cs ess"
    "U = Internal ?l ds" "lo - 1 \<le> length ds" "length ds < lo" "ys = concat dss" "children_at E lo hi s m ds dss"
    unfolding Suc node_at_Suc by auto
  then have ne: "cs \<noteq> []" by auto
  note cut = children_at_butlast_last [OF LU(5) ne]
  have "node_at E lo hi s lo n (Internal ?l (butlast cs)) (concat (butlast ess))"
    using LU cut(1) unfolding Suc node_at_Suc by (auto intro!: exI [of _ "butlast ess"])
  moreover have "node_at E lo hi s lo n (Internal ?l (last cs # ds)) (concat (last ess # dss))"
    using LU cut(2) assms(4) unfolding Suc node_at_Suc by (auto intro!: exI [of _ "last ess # dss"])
  moreover have "concat (butlast ess) @ concat (last ess # dss) = xs @ ys"
    using cut(3) LU(4,9) by simp
  ultimately show thesis
    using that ne LU(1,6) by simp
qed

lemma move_from_right_at:
  assumes "node_at E lo hi s (lo - 1) n U xs" "node_at E lo hi s (Suc lo) n R ys"
    and "num_entries U < lo" "lo \<le> hi"
  obtains U' R' xs' ys' where "move_from_right U R = Inr (U', R')"
    "node_at E lo hi s lo n U' xs'" "node_at E lo hi s lo n R' ys'" "xs' @ ys' = xs @ ys"
proof (cases n)
  case 0
  with assms have UR: "U = Leaf 0 xs" "lo - 1 \<le> length xs" "length xs < lo"
    "R = Leaf 0 ys" "Suc lo \<le> length ys" "length ys \<le> hi"
    by auto
  then obtain y zs where "ys = y # zs" by (cases ys) auto
  with UR assms(4) show thesis
    by (intro that [of "Leaf 0 (xs @ [y])" "Leaf 0 zs" "xs @ [y]" zs]) (auto simp: 0)
next
  case (Suc m)
  let ?l = "of_nat (Suc m) :: u8"
  from assms(1-3) obtain cs ess ds dss where UR:
    "U = Internal ?l cs" "lo - 1 \<le> length cs" "length cs < lo" "xs = concat ess" "children_at E lo hi s m cs ess"
    "R = Internal ?l ds" "Suc lo \<le> length ds" "length ds \<le> hi" "ys = concat dss" "children_at E lo hi s m ds dss"
    unfolding Suc node_at_Suc by auto
  then obtain d ds' where ds: "ds = d # ds'" by (cases ds) auto
  with UR(10) obtain e dss' where dss: "dss = e # dss'" "child_at E lo hi s lo m d e"
    "children_at E lo hi s m ds' dss'"
    by (auto simp: list_all2_Cons1)
  have "node_at E lo hi s lo n (Internal ?l (cs @ [d])) (concat (ess @ [e]))"
    using UR dss(2) assms(4) unfolding Suc node_at_Suc
    by (auto intro!: exI [of _ "ess @ [e]"] list_all2_appendI)
  moreover have "node_at E lo hi s lo n (Internal ?l ds') (concat dss')"
    using UR dss(3) ds unfolding Suc node_at_Suc by (auto intro!: exI [of _ dss'])
  moreover have "concat (ess @ [e]) @ concat dss' = xs @ ys"
    using UR(4,9) dss(1) by simp
  ultimately show thesis
    using that ds UR(1,6) by simp
qed

lemma append_nodes_at:
  assumes "node_at E lo hi s b n L xs" "node_at E lo hi s b' n R ys"
    and "num_entries L + num_entries R \<le> hi" "lo \<le> num_entries L + num_entries R"
  obtains M where "append_nodes L R = Inr M" "node_at E lo hi s lo n M (xs @ ys)"
proof (cases n)
  case 0
  with assms show thesis
    by (intro that [of "Leaf 0 (xs @ ys)"]) auto
next
  case (Suc m)
  let ?l = "of_nat (Suc m) :: u8"
  from assms(1,2) obtain cs ess ds dss where LR:
    "L = Internal ?l cs" "xs = concat ess" "children_at E lo hi s m cs ess"
    "R = Internal ?l ds" "ys = concat dss" "children_at E lo hi s m ds dss"
    unfolding Suc node_at_Suc by auto
  then have "node_at E lo hi s lo n (Internal ?l (cs @ ds)) (xs @ ys)"
    using assms(3,4) unfolding Suc node_at_Suc
    by (auto intro!: exI [of _ "ess @ dss"] list_all2_appendI)
  with LR show thesis by (intro that) auto
qed

section \<open>The strategy keeps the shape\<close>

lemma achieves_store_siblings:
  assumes "bincode_ok E" "avail md s" "store_ok E s"
    and "node_at E lo hi s lo n L xs" "node_at E lo hi s lo n R ys" "xs \<noteq> []" "ys \<noteq> []"
    and "children_at E lo hi s n ls xss" "children_at E lo hi s n rs yss"
  shows "achieves E (store_siblings E md (ls @ c1 # c2 # rs) (length ls) (Suc (length ls)) (L, R)) s
     (\<lambda>cs' s'. grown E s s' \<and> length cs' = length (ls @ c1 # c2 # rs)
        \<and> children_at E lo hi s' n cs' (xss @ xs # ys # yss))"
proof -
  let ?c = "\<lambda>x nd. \<lparr>boundary_key = fst x, child_hash = snd x, num_items_subtree = node_item_count nd\<rparr>"
  have step: "achieves E (bindC (store_node_and_get_key_hash_pair E md R)
       (\<lambda>y. returnC (ls @ ?c x L # ?c y R # rs))) s1
      (\<lambda>cs' s'. grown E s s' \<and> length cs' = length (ls @ c1 # c2 # rs)
        \<and> children_at E lo hi s' n cs' (xss @ xs # ys # yss))"
    if left: "extends s s1 \<and> store_ok E s1 \<and> stored E s1 (snd x) L \<and> child_at E lo hi s1 lo n (?c x L) xs"
    for x s1
  proof -
    from left have s1: "avail md s1" "store_ok E s1" "node_at E lo hi s1 lo n R ys"
      using assms(2,5) by (auto intro: extends_availI node_at_extends)
    show ?thesis
    proof (rule achieves_map [OF achieves_store_entry [OF assms(1) s1 assms(7)]])
      fix y s'
      assume right: "extends s1 s' \<and> store_ok E s' \<and> stored E s' (snd y) R \<and> child_at E lo hi s' lo n (?c y R) ys"
      with left have ext: "extends s s'" by (blast intro: extends_trans)
      have "children_at E lo hi s' n ls xss" "children_at E lo hi s' n rs yss"
        using assms(8,9) by (auto intro: children_at_extends [OF ext])
      moreover have "child_at E lo hi s' lo n (?c x L) xs"
        using left right by (blast intro: child_at_extends)
      ultimately show "grown E s s' \<and> length (ls @ ?c x L # ?c y R # rs) = length (ls @ c1 # c2 # rs)
          \<and> children_at E lo hi s' n (ls @ ?c x L # ?c y R # rs) (xss @ xs # ys # yss)"
        using right ext by (simp add: list_all2_appendI)
    qed
  qed
  have upd: "(ls @ c1 # c2 # rs)[length ls := a, Suc (length ls) := b] = ls @ a # b # rs" for a b
    by (simp add: list_update_append)
  show ?thesis
    unfolding store_siblings_def upd case_prod_beta fst_conv snd_conv
    by (rule achieves_bind [OF achieves_store_entry [OF assms(1-4,6)]], rule step)
      (auto intro!: grows_intros)
qed

text \<open>What the strategy leaves in the parent: the same entries below it, and no more children.\<close>

definition rebalanced ::
  "extern \<Rightarrow> nat \<Rightarrow> nat \<Rightarrow> store \<Rightarrow> nat \<Rightarrow> internal_entry list \<Rightarrow> leaf_entry list
     \<Rightarrow> internal_entry list \<Rightarrow> store \<Rightarrow> bool" where
  "rebalanced E lo hi s n cs es cs' s' \<longleftrightarrow> grown E s s'
     \<and> length cs \<le> Suc (length cs') \<and> length cs' \<le> length cs
     \<and> (\<exists>ess. children_at E lo hi s' n cs' ess \<and> concat ess = es)"

lemma achieves_borrow_from_left:
  assumes "bincode_ok E" "avail md s" "store_ok E s" "1 \<le> lo" "lo \<le> hi"
    and "children_at E lo hi s n ls xss" "children_at E lo hi s n rs yss"
    and "stored E s (child_hash c1) L" "node_at E lo hi s (Suc lo) n L xs"
    and "stored E s (child_hash c2) U" "node_at E lo hi s (lo - 1) n U ys" "num_entries U < lo"
  shows "achieves E (rebalance_borrow_from_left E md (ls @ c1 # c2 # rs) (length ls) (Suc (length ls))) s
     (rebalanced E lo hi s n (ls @ c1 # c2 # rs) (concat xss @ xs @ ys @ concat yss))"
proof -
  obtain L' U' xs' ys' where m: "move_from_left L U = Inr (L', U')"
    "node_at E lo hi s lo n L' xs'" "node_at E lo hi s lo n U' ys'" "xs' @ ys' = xs @ ys"
    by (rule move_from_left_at [OF assms(9,11,12,5)])
  have ne: "xs' \<noteq> []" "ys' \<noteq> []"
    using node_at_num_entries [OF m(2)] node_at_num_entries [OF m(3)] node_at_nonempty [OF m(2)]
      node_at_nonempty [OF m(3)] assms(4) by auto
  have nth: "(ls @ c1 # c2 # rs) ! length ls = c1" "(ls @ c1 # c2 # rs) ! Suc (length ls) = c2"
    by (simp_all add: nth_append)
  have "concat (xss @ xs' # ys' # yss) = concat xss @ xs @ ys @ concat yss"
    using m(4) by (simp flip: append_assoc)
  with achieves_store_siblings [OF assms(1-3) m(2,3) ne assms(6,7), of c1 c2]
  have store: "achieves E (store_siblings E md (ls @ c1 # c2 # rs) (length ls) (Suc (length ls)) (L', U')) s
     (rebalanced E lo hi s n (ls @ c1 # c2 # rs) (concat xss @ xs @ ys @ concat yss))"
    unfolding rebalanced_def by (elim achieves_weaken) auto
  show ?thesis
    unfolding rebalance_borrow_from_left_def nth
    apply (rule achieves_bind [OF achieves_load_node [OF assms(1,2,8)]])
     apply (clarify, rule achieves_bind [OF achieves_load_node [OF assms(1,2,10)]])
    using store by (auto simp: m(1) intro!: grows_intros)
qed

lemma achieves_borrow_from_right:
  assumes "bincode_ok E" "avail md s" "store_ok E s" "1 \<le> lo" "lo \<le> hi"
    and "children_at E lo hi s n ls xss" "children_at E lo hi s n rs yss"
    and "stored E s (child_hash c1) U" "node_at E lo hi s (lo - 1) n U xs" "num_entries U < lo"
    and "stored E s (child_hash c2) R" "node_at E lo hi s (Suc lo) n R ys"
  shows "achieves E (rebalance_borrow_from_right E md (ls @ c1 # c2 # rs) (length ls) (Suc (length ls))) s
     (rebalanced E lo hi s n (ls @ c1 # c2 # rs) (concat xss @ xs @ ys @ concat yss))"
proof -
  obtain U' R' xs' ys' where m: "move_from_right U R = Inr (U', R')"
    "node_at E lo hi s lo n U' xs'" "node_at E lo hi s lo n R' ys'" "xs' @ ys' = xs @ ys"
    by (rule move_from_right_at [OF assms(9,12,10,5)])
  have ne: "xs' \<noteq> []" "ys' \<noteq> []"
    using node_at_num_entries [OF m(2)] node_at_num_entries [OF m(3)] node_at_nonempty [OF m(2)]
      node_at_nonempty [OF m(3)] assms(4) by auto
  have nth: "(ls @ c1 # c2 # rs) ! length ls = c1" "(ls @ c1 # c2 # rs) ! Suc (length ls) = c2"
    by (simp_all add: nth_append)
  have "concat (xss @ xs' # ys' # yss) = concat xss @ xs @ ys @ concat yss"
    using m(4) by (simp flip: append_assoc)
  with achieves_store_siblings [OF assms(1-3) m(2,3) ne assms(6,7), of c1 c2]
  have store: "achieves E (store_siblings E md (ls @ c1 # c2 # rs) (length ls) (Suc (length ls)) (U', R')) s
     (rebalanced E lo hi s n (ls @ c1 # c2 # rs) (concat xss @ xs @ ys @ concat yss))"
    unfolding rebalanced_def by (elim achieves_weaken) auto
  show ?thesis
    unfolding rebalance_borrow_from_right_def nth
    apply (rule achieves_bind [OF achieves_load_node [OF assms(1,2,8)]])
     apply (clarify, rule achieves_bind [OF achieves_load_node [OF assms(1,2,11)]])
    using store by (auto simp: m(1) intro!: grows_intros)
qed

text \<open>Merging: the count of the merged child is the sum of the two counts in the parent.\<close>

lemma achieves_merge:
  assumes "bincode_ok E" "avail md s" "store_ok E s"
    and "children_at E lo hi s n ls xss" "children_at E lo hi s n rs yss"
    and "child_at E lo hi s b n c1 xs" "child_at E lo hi s b' n c2 ys"
    and "stored E s (child_hash c1) L" "stored E s (child_hash c2) R"
    and "num_entries L + num_entries R \<le> hi" "lo \<le> num_entries L + num_entries R"
  shows "achieves E (merge_into_left_sibling_internal E md (ls @ c1 # c2 # rs) (length ls) (Suc (length ls))) s
     (rebalanced E lo hi s n (ls @ c1 # c2 # rs) (concat xss @ xs @ ys @ concat yss))"
proof -
  have LR: "node_at E lo hi s b n L xs" "node_at E lo hi s b' n R ys"
    using assms(6-9) stored_unique [OF assms(1)] unfolding child_at_def by blast+
  obtain M where M: "append_nodes L R = Inr M" "node_at E lo hi s lo n M (xs @ ys)"
    by (rule append_nodes_at [OF LR assms(10,11)])
  let ?cs = "ls @ c1 # c2 # rs"
  let ?c = "\<lambda>x. \<lparr>boundary_key = fst x, child_hash = snd x,
     num_items_subtree = num_items_subtree c1 + num_items_subtree c2\<rparr>"
  have nth: "?cs ! length ls = c1" "?cs ! Suc (length ls) = c2"
    by (simp_all add: nth_append)
  have ne: "xs @ ys \<noteq> []" using assms(6) by (simp add: child_at_def)
  have count: "node_item_count M = num_items_subtree c1 + num_items_subtree c2"
    using assms(6,7) node_at_item_count [OF M(2)] by (simp add: child_at_def)
  have rem: "vec_remove (Suc (length ls)) (?cs[length ls := a]) = ls @ a # rs" for a
    using vec_remove_append [of "ls @ [a]" c2 rs] by (simp add: list_update_append)
  have merge: "achieves E (bindC (store_node_and_get_key_hash_pair E md M)
       (\<lambda>x. returnC (ls @ ?c x # rs))) s
      (rebalanced E lo hi s n ?cs (concat xss @ xs @ ys @ concat yss))"
  proof (rule achieves_map [OF achieves_store_entry [OF assms(1-3) M(2) ne]], unfold count)
    fix x s'
    assume new: "extends s s' \<and> store_ok E s' \<and> stored E s' (snd x) M \<and> child_at E lo hi s' lo n (?c x) (xs @ ys)"
    then have "children_at E lo hi s' n ls xss" "children_at E lo hi s' n rs yss"
      using assms(4,5) by (auto intro: children_at_extends)
    with new have "children_at E lo hi s' n (ls @ ?c x # rs) (xss @ (xs @ ys) # yss)"
      by (simp add: list_all2_appendI)
    then have "\<exists>ess. children_at E lo hi s' n (ls @ ?c x # rs) ess \<and> concat ess = concat xss @ xs @ ys @ concat yss"
      by (rule exI [where x = "xss @ (xs @ ys) # yss", OF conjI]) simp
    with new show "rebalanced E lo hi s n ?cs (concat xss @ xs @ ys @ concat yss) (ls @ ?c x # rs) s'"
      by (simp add: rebalanced_def)
  qed
  have guard: "(length ls + 1 \<noteq> Suc (length ls)) = False" "(length ?cs \<le> Suc (length ls)) = False"
    by simp_all
  show ?thesis
    unfolding merge_into_left_sibling_internal_def guard if_False nth rem case_prod_beta
    apply (rule achieves_bind [OF achieves_load_node [OF assms(1,2,8)]])
     apply (clarify, rule achieves_bind [OF achieves_load_node [OF assms(1,2,9)]])
    using merge by (auto simp: M(1) intro!: grows_intros)
qed

text \<open>
  The strategy on a child that is one entry short. A sibling with more than the minimum gives one
  away; otherwise both together have less than twice the minimum and fit into one node.
\<close>

lemma merge_with_left:
  assumes "bincode_ok E" "avail md s" "store_ok E s" "1 \<le> lo" "2 * lo \<le> hi"
    and "children_at E lo hi s n ls xss" "children_at E lo hi s n rs yss"
    and "child_at E lo hi s lo n c1 xs" "child_at E lo hi s (lo - 1) n c2 ys"
    and "stored E s (child_hash c1) L" "stored E s (child_hash c2) U"
    and "\<not> lo < num_entries L" "num_entries U < lo"
  shows "achieves E (merge_with_sibling E md (ls @ c1 # c2 # rs) (Suc (length ls))) s
     (rebalanced E lo hi s n (ls @ c1 # c2 # rs) (concat xss @ xs @ ys @ concat yss))"
proof -
  from assms(8,10) have "lo \<le> num_entries L"
    unfolding child_at_def using node_at_num_entries stored_unique [OF assms(1)] by blast
  with assms(5,12,13) have "num_entries L + num_entries U \<le> hi" "lo \<le> num_entries L + num_entries U"
    by auto
  from achieves_merge [OF assms(1-3,6-11) this] show ?thesis
    by (simp add: merge_with_sibling_def)
qed

lemma merge_with_right:
  assumes "bincode_ok E" "avail md s" "store_ok E s" "1 \<le> lo" "2 * lo \<le> hi"
    and "children_at E lo hi s n rs yss"
    and "child_at E lo hi s (lo - 1) n c1 xs" "child_at E lo hi s lo n c2 ys"
    and "stored E s (child_hash c1) U" "stored E s (child_hash c2) R"
    and "\<not> lo < num_entries R" "num_entries U < lo"
  shows "achieves E (merge_with_sibling E md (c1 # c2 # rs) 0) s
     (rebalanced E lo hi s n (c1 # c2 # rs) (xs @ ys @ concat yss))"
proof -
  from assms(8,10) have "lo \<le> num_entries R"
    unfolding child_at_def using node_at_num_entries stored_unique [OF assms(1)] by blast
  with assms(5,11,12) have "num_entries U + num_entries R \<le> hi" "lo \<le> num_entries U + num_entries R"
    by auto
  from achieves_merge [where ls = "[]" and xss = "[]", OF assms(1-3) _ assms(6-10) this] show ?thesis
    by (simp add: merge_with_sibling_def)
qed

lemma child_at_stored:
  assumes "child_at E lo hi s b n c es"
  obtains nd where "stored E s (child_hash c) nd" "node_at E lo hi s b n nd es"
  using assms by (auto simp: child_at_def)

lemma achieves_borrow_right_or_merge:
  assumes "bincode_ok E" "avail md s" "store_ok E s" "1 \<le> lo" "2 * lo \<le> hi" "lo = unat (min_fanout cfg)"
    and "children_at E lo hi s n ls xss" "children_at E lo hi s n rs yss"
    and "child_at E lo hi s (lo - 1) n c es" "stored E s (child_hash c) U" "num_entries U < lo"
    and "ls \<noteq> [] \<Longrightarrow> achieves E (merge_with_sibling E md (ls @ c # rs) (length ls)) s
      (rebalanced E lo hi s n (ls @ c # rs) (concat (xss @ es # yss)))"
    and "ls = [] \<Longrightarrow> rs \<noteq> []"
  shows "achieves E (borrow_right_or_merge E md cfg (ls @ c # rs) (length ls)) s
     (rebalanced E lo hi s n (ls @ c # rs) (concat (xss @ es # yss)))"
proof (cases rs)
  case Nil
  then show ?thesis
    using assms(12,13) by (cases "ls = []") (simp_all add: borrow_right_or_merge_def)
next
  case (Cons r rs')
  with assms(8) obtain ys yss' where ys: "yss = ys # yss'" "child_at E lo hi s lo n r ys"
    "children_at E lo hi s n rs' yss'"
    by (auto simp: list_all2_Cons1)
  from child_at_stored [OF ys(2)] obtain R where R: "stored E s (child_hash r) R" "node_at E lo hi s lo n R ys" .
  have U: "node_at E lo hi s (lo - 1) n U es"
    using assms(9,10) stored_unique [OF assms(1)] unfolding child_at_def by blast
  have nth: "(ls @ c # r # rs') ! (length ls + 1) = r"
    by (simp add: nth_append)
  have guard: "(length ls + 1 < length (ls @ c # r # rs')) = True" by simp
  have borrow: "achieves E (rebalance_borrow_from_right E md (ls @ c # r # rs') (length ls) (length ls + 1)) s
      (rebalanced E lo hi s n (ls @ c # r # rs') (concat (xss @ es # ys # yss')))"
    if "lo < num_entries R"
  proof -
    have "node_at E lo hi s (Suc lo) n R ys" "lo \<le> hi"
      using node_at_bound [OF R(2)] that assms(4,5) by auto
    from achieves_borrow_from_right [OF assms(1-4) this(2) assms(7) ys(3) assms(10) U assms(11) R(1) this(1)]
    show ?thesis by simp
  qed
  have merge: "achieves E (merge_with_sibling E md (ls @ c # r # rs') (length ls)) s
      (rebalanced E lo hi s n (ls @ c # r # rs') (concat (xss @ es # ys # yss')))"
    if "\<not> lo < num_entries R"
  proof (cases "ls = []")
    case True
    with assms(7) merge_with_right [OF assms(1-5) ys(3) assms(9) ys(2) assms(10) R(1) that assms(11)]
    show ?thesis by simp
  next
    case False
    from assms(12) [OF this] show ?thesis by (simp add: Cons ys(1))
  qed
  have "achieves E (borrow_right_or_merge E md cfg (ls @ c # r # rs') (length ls)) s
     (rebalanced E lo hi s n (ls @ c # r # rs') (concat (xss @ es # ys # yss')))"
    unfolding borrow_right_or_merge_def guard if_True nth
    by (rule achieves_bind [OF achieves_load_node [OF assms(1,2) R(1)]])
      (use borrow merge in \<open>auto simp: assms(6) intro: grows_intros\<close>)
  then show ?thesis by (simp add: Cons ys(1))
qed

lemma handle_underflow_at:
  assumes "bincode_ok E" "avail md s" "store_ok E s" "1 \<le> lo" "2 * lo \<le> hi" "lo = unat (min_fanout cfg)"
    and "children_at E lo hi s n ls xss" "children_at E lo hi s n rs yss"
    and "child_at E lo hi s (lo - 1) n c es" "stored E s (child_hash c) U" "num_entries U < lo"
    and "ls = [] \<Longrightarrow> rs \<noteq> []"
  shows "achieves E (handle_underflow_strategy E md cfg (ls @ c # rs) (length ls)) s
     (rebalanced E lo hi s n (ls @ c # rs) (concat (xss @ es # yss)))"
proof (cases ls rule: rev_cases)
  case Nil
  with achieves_borrow_right_or_merge [OF assms(1-11) _ assms(12)] show ?thesis
    by (simp add: handle_underflow_strategy_def)
next
  case (snoc ls' l)
  with assms(7) obtain xss' xs where xs: "xss = xss' @ [xs]" "child_at E lo hi s lo n l xs"
    "children_at E lo hi s n ls' xss'"
    by (auto simp: list_all2_append1 list_all2_Cons1)
  from child_at_stored [OF xs(2)] obtain L where L: "stored E s (child_hash l) L" "node_at E lo hi s lo n L xs" .
  have U: "node_at E lo hi s (lo - 1) n U es"
    using assms(9,10) stored_unique [OF assms(1)] unfolding child_at_def by blast
  have cs: "ls @ c # rs = ls' @ l # c # rs" "length ls = Suc (length ls')"
    "concat (xss @ es # yss) = concat xss' @ xs @ es @ concat yss"
    by (simp_all add: snoc xs(1))
  have nth: "(ls' @ l # c # rs) ! (Suc (length ls') - 1) = l" by simp
  have borrow: "achieves E (rebalance_borrow_from_left E md (ls' @ l # c # rs) (length ls') (Suc (length ls'))) s
      (rebalanced E lo hi s n (ls' @ l # c # rs) (concat xss' @ xs @ es @ concat yss))"
    if "lo < num_entries L"
  proof -
    have "node_at E lo hi s (Suc lo) n L xs" "lo \<le> hi"
      using node_at_bound [OF L(2)] that assms(4,5) by auto
    from achieves_borrow_from_left [OF assms(1-4) this(2) xs(3) assms(8) L(1) this(1) assms(10) U assms(11)]
    show ?thesis .
  qed
  have right: "achieves E (borrow_right_or_merge E md cfg (ls' @ l # c # rs) (Suc (length ls'))) s
      (rebalanced E lo hi s n (ls' @ l # c # rs) (concat xss' @ xs @ es @ concat yss))"
    if "\<not> lo < num_entries L"
    using achieves_borrow_right_or_merge [OF assms(1-11) _ assms(12)]
      merge_with_left [OF assms(1-5) xs(3) assms(8) xs(2) assms(9) L(1) assms(10) that assms(11)]
    unfolding cs by simp
  show ?thesis
    unfolding handle_underflow_strategy_def cs nth
    by (simp, rule achieves_bind [OF achieves_load_node [OF assms(1,2) L(1)]])
      (use borrow right in \<open>auto simp: assms(6) intro: grows_intros\<close>)
qed

end
