(* ===== verification/Core_Delete.thy ===== *)
theory Core_Delete
  imports Modification
begin

text \<open>
  Deletion: \<^verbatim>\<open>delete_recursive_impl\<close> and \<^verbatim>\<open>delete_recursive_sync_impl\<close> of
  \<^verbatim>\<open>src/src/tree/core_logic.rs\<close>, with the result type of \<^verbatim>\<open>src/src/tree/types.rs\<close>. The main lemmas:
  a key that is not there leaves everything as it was (\<open>delete_recursive_absent\<close>); a key that is
  there goes, and what remains is a well-formed subtree at most one entry short, or nothing
  (\<open>delete_recursive_at\<close>).
\<close>

section \<open>The functions\<close>

datatype delete_result =
    NotFound hash key
  | Updated processed_node_update
  | Merged

text \<open>The internal case after the child was processed.\<close>

definition delete_internal ::
  "extern \<Rightarrow> mode \<Rightarrow> tree_config \<Rightarrow> hash \<Rightarrow> u8 \<Rightarrow> internal_entry list \<Rightarrow> nat \<Rightarrow> delete_result
     \<Rightarrow> delete_result io" where
  "delete_internal E md cfg node_hash l children i r = (case r of
     NotFound _ _ \<Rightarrow>
       (if children = [] then throwC (Err (InternalError ''Internal node empty during NotFound propagation''))
        else returnC (NotFound node_hash (boundary_key (last children))))
   | Updated child_update \<Rightarrow>
       (let children1 = children[i := update_entry child_update]
        in bindC (load_node E md (new_hash child_update)) (\<lambda>child_node_after_update.
           let underflow = is_underflow child_node_after_update cfg
           in bindC (if underflow then handle_underflow_strategy E md cfg children1 i
                     else returnC children1) (\<lambda>children2.
              if underflow \<and> children2 = [] then returnC Merged
              else bindC (finish_node E md (Internal l children2) None) (\<lambda>u. returnC (Updated u)))))
   | Merged \<Rightarrow>
       (let children1 = vec_remove i children
        in if children1 = [] then returnC Merged
           else bindC (finish_node E md (Internal l children1) None) (\<lambda>u. returnC (Updated u))))"

text \<open>The flag \<^verbatim>\<open>key_actually_deleted_flag\<close> goes in and comes back with the result.\<close>

fun delete_recursive ::
  "extern \<Rightarrow> mode \<Rightarrow> tree_config \<Rightarrow> nat \<Rightarrow> hash \<Rightarrow> key \<Rightarrow> u8 \<Rightarrow> bool \<Rightarrow> (delete_result \<times> bool) io" where
  "delete_recursive E md cfg 0 node_hash k lvl flag = throwC OutOfFuel"
| "delete_recursive E md cfg (Suc fuel) node_hash k lvl flag =
     bindC (load_node E md node_hash) (\<lambda>nd. case nd of
       Leaf l entries \<Rightarrow>
         (case leaf_search entries k of
            Found i \<Rightarrow>
              (let entries1 = vec_remove i entries
               in if entries1 = [] then returnC (Merged, True)
                  else bindC (finish_node E md (Leaf l entries1) None) (\<lambda>u. returnC (Updated u, True)))
          | Missing _ \<Rightarrow>
              (if entries = []
               then throwC (Err (InternalError ''Cannot get boundary key from empty leaf (key not found path)''))
               else returnC (NotFound node_hash (le_key (last entries)), flag)))
     | Internal l children \<Rightarrow>
         (if children = [] then throwC (Err (InternalError ''Internal node has no children during delete.''))
          else if lvl = 0
          then throwC (Err (InternalError ''Internal node level is 0, cannot descend further for delete.''))
          else
            let i = child_idx children k
            in bindC (delete_recursive E md cfg fuel (child_hash (children ! i)) k (lvl - 1) flag) (\<lambda>(r, flag1).
               bindC (delete_internal E md cfg node_hash l children i r) (\<lambda>r1.
               returnC (r1, flag1)))))"

definition delete_recursive_sync_impl ::
  "extern \<Rightarrow> tree_config \<Rightarrow> nat \<Rightarrow> hash \<Rightarrow> key \<Rightarrow> u8 \<Rightarrow> bool \<Rightarrow> (delete_result \<times> bool) io" where
  "delete_recursive_sync_impl E = delete_recursive E Sync"

lemma grows_delete_internal [grows_intros]: "grows E (delete_internal E md cfg h l cs i r)"
  unfolding delete_internal_def
  by (cases r) (auto intro!: grows_intros)

lemma grows_delete_recursive [grows_intros]: "grows E (delete_recursive E md cfg fuel h k lvl flag)"
  by (induction fuel arbitrary: h lvl flag) (auto intro!: grows_intros)

section \<open>A key that is not there\<close>

lemma delete_recursive_absent:
  assumes "bincode_ok E" "avail md s"
    and "stored E s h nd" "node_at E lo hi s b n nd es" "sorted_keys es" "es \<noteq> []"
    and "k \<notin> le_key ` set es" "n < fuel" "lvl = of_nat n" "n < 256"
  shows "delete_recursive E md cfg fuel h k lvl flag s = (Inr (NotFound h (le_key (last es)), flag), s)"
  using assms(3-)
proof (induction n arbitrary: h nd b es fuel lvl)
  case 0
  then obtain f where f: "fuel = Suc f" by (cases fuel) auto
  note load = load_node_stored [OF assms(1,2) "0.prems"(1)]
  have nd: "nd = Leaf 0 es" using "0.prems"(2) by simp
  from "0.prems"(3) show ?case
  proof (cases rule: leaf_search_cases [where k = k])
    case (found as e bs)
    then show ?thesis using "0.prems"(5) by auto
  next
    case (missing as bs)
    then show ?thesis
      using nd "0.prems"(4) f by (simp add: comp_simps load)
  qed
next
  case (Suc n)
  then obtain f where f: "fuel = Suc f" "n < f" by (cases fuel) auto
  note load = load_node_stored [OF assms(1,2) Suc.prems(1)]
  from Suc.prems(2) obtain cs ess where nd: "nd = Internal (of_nat (Suc n)) cs" "es = concat ess"
    "children_at E lo hi s n cs ess"
    by (auto simp: node_at_Suc)
  have ne: "cs \<noteq> []" and so: "sorted_keys (concat ess)"
    using Suc.prems(3,4) nd by auto
  obtain ls c rs xs es' ys where d: "cs = ls @ c # rs" "child_idx cs k = length ls"
    "ess = xs @ es' # ys" "children_at E lo hi s n ls xs" "child_at E lo hi s lo n c es'"
    "children_at E lo hi s n rs ys"
    "\<forall>e\<in>set (concat xs). le_key e < k" "\<forall>e\<in>set (concat ys). k < le_key e"
    "rs \<noteq> [] \<longrightarrow> k \<le> le_key (last es')" "sorted_keys es'" "es' \<noteq> []"
    by (rule descend [OF nd(3) ne so, of k])
  obtain nd' where nd': "stored E s (child_hash c) nd'" "node_at E lo hi s lo n nd' es'"
    by (rule child_at_stored [OF d(5)])
  have k: "k \<notin> le_key ` set es'"
    using Suc.prems(5) by (auto simp: nd(2) d(3))
  have lvl: "lvl - 1 = of_nat n" "lvl \<noteq> 0"
    using u8_level [OF Suc.prems(7,8)] by simp_all
  have "n < 256" using Suc.prems(8) by simp
  note rec = Suc.IH [OF nd' d(10,11) k f(2) lvl(1) this]
  have idx: "cs ! child_idx cs k = c"
    by (simp only: d(2)) (simp add: d(1))
  have last: "boundary_key (last cs) = le_key (last es)"
    using children_last_boundary [OF nd(3) ne] nd(2) by simp
  show ?case
    by (simp add: f(1) comp_simps load nd(1) ne lvl(2) idx rec delete_internal_def last Let_def)
qed

section \<open>A key that is there\<close>

text \<open>What a deletion reports about the subtree that is left.\<close>

definition deleted_at ::
  "extern \<Rightarrow> nat \<Rightarrow> nat \<Rightarrow> store \<Rightarrow> nat \<Rightarrow> nat \<Rightarrow> delete_result \<Rightarrow> leaf_entry list \<Rightarrow> bool" where
  "deleted_at E lo hi s b n r es \<longleftrightarrow> (case r of
     NotFound _ _ \<Rightarrow> False
   | Updated u \<Rightarrow> split_info u = None \<and> child_at E lo hi s b n (update_entry u) es
   | Merged \<Rightarrow> es = [])"

lemma delete_key_descend:
  assumes "\<forall>e\<in>set (concat xs). le_key e < k" "\<forall>e\<in>set (concat ys). k < le_key e"
  shows "delete_key k (concat (xs @ es # ys)) = concat (xs @ delete_key k es # ys)"
proof -
  have "k \<notin> le_key ` set (concat xs)" "k \<notin> le_key ` set (concat ys)"
    using assms by auto
  then show ?thesis
    by (simp add: delete_key_append_right delete_key_append_left del: set_concat)
qed

lemma finish_deleted_at:
  assumes "bincode_ok E" "avail md s" "store_ok E s" "node_at E lo hi s b n nd es" "es \<noteq> []"
  shows "achieves E (bindC (finish_node E md nd None) (\<lambda>u. returnC (Updated u))) s
     (\<lambda>r s'. grown E s s' \<and> deleted_at E lo hi s' b n r es)"
  by (rule achieves_map [OF achieves_finish_node [OF assms]]) (simp add: deleted_at_def)

lemma delete_internal_merged:
  assumes "bincode_ok E" "avail md s" "store_ok E s" "cs = ls @ c # rs" "length cs \<le> hi" "b \<le> length cs"
    and "children_at E lo hi s n ls xs" "children_at E lo hi s n rs ys"
  shows "achieves E (delete_internal E md cfg h (of_nat (Suc n)) cs (length ls) Merged) s
     (\<lambda>r s'. grown E s s' \<and> deleted_at E lo hi s' (b - 1) (Suc n) r (concat (xs @ ys)))"
proof (cases "ls @ rs = []")
  case True
  with assms(3,4,7,8) show ?thesis
    by (simp add: delete_internal_def vec_remove_def deleted_at_def achieves_return)
next
  case False
  have at: "children_at E lo hi s n (ls @ rs) (xs @ ys)"
    using assms(7,8) by (simp add: list_all2_appendI)
  have "node_at E lo hi s (b - 1) (Suc n) (Internal (of_nat (Suc n)) (ls @ rs)) (concat (xs @ ys))"
    unfolding node_at_Suc
    by (intro exI [of _ "ls @ rs"] exI [of _ "xs @ ys"]) (use at assms(4-6) in simp)
  from finish_deleted_at [OF assms(1-3) this concat_nonempty [OF at False]] show ?thesis
    unfolding delete_internal_def delete_result.case Let_def assms(4) vec_remove_append
    by (simp only: False if_False)
qed

text \<open>The parent is written with the children it has after the rebalancing.\<close>

lemma finish_rebalanced:
  assumes "bincode_ok E" "avail md s" "rebalanced E lo hi s n cs es cs' s'" "length cs \<le> hi" "b \<le> length cs" "es \<noteq> []"
  shows "achieves E (bindC (finish_node E md (Internal (of_nat (Suc n)) cs') None) (\<lambda>u. returnC (Updated u))) s'
    (\<lambda>r s'. grown E s s' \<and> deleted_at E lo hi s' (b - 1) (Suc n) r es)"
proof -
  have s': "avail md s'" "store_ok E s'"
    using assms(2,3) by (auto simp: rebalanced_def intro: extends_availI)
  have "b - 1 \<le> length cs'" "length cs' \<le> hi"
    using assms(3-5) by (auto simp: rebalanced_def)
  moreover obtain ess where "children_at E lo hi s' n cs' ess" "es = concat ess"
    using assms(3) unfolding rebalanced_def by metis
  ultimately have "node_at E lo hi s' (b - 1) (Suc n) (Internal (of_nat (Suc n)) cs') es"
    unfolding node_at_Suc by (intro exI [of _ cs'] exI [of _ ess] conjI refl)
  moreover have "extends s s'" using assms(3) by (simp add: rebalanced_def)
  ultimately show ?thesis
    using assms(6) by (intro achieves_weaken [OF finish_deleted_at [OF assms(1) s']]) (blast intro: extends_trans)+
qed

lemma rebalance_child:
  assumes "bincode_ok E" "avail md s" "store_ok E s" "1 \<le> lo" "2 * lo \<le> hi" "lo = unat (min_fanout cfg)"
    and "min 2 lo \<le> length (ls @ c # rs)" "children_at E lo hi s n ls xs" "children_at E lo hi s n rs ys"
    and "child_at E lo hi s (lo - 1) n c es" "stored E s (child_hash c) nd" "node_at E lo hi s (lo - 1) n nd es"
  shows "achieves E (if is_underflow nd cfg then handle_underflow_strategy E md cfg (ls @ c # rs) (length ls)
      else returnC (ls @ c # rs)) s
    (\<lambda>cs' s'. rebalanced E lo hi s n (ls @ c # rs) (concat (xs @ es # ys)) cs' s' \<and> (is_underflow nd cfg \<longrightarrow> cs' \<noteq> []))"
proof (cases "num_entries nd < lo")
  case True
  have "es \<noteq> []" using assms(10) by (simp add: child_at_def)
  then have "0 < num_entries nd" using node_at_nonempty [OF assms(12)] by simp
  with True assms(7) have "2 \<le> length (ls @ c # rs)" by simp
  then have ne: "ls = [] \<Longrightarrow> rs \<noteq> []" "2 \<le> length (ls @ c # rs)" by auto
  have "achieves E (handle_underflow_strategy E md cfg (ls @ c # rs) (length ls)) s
    (\<lambda>cs' s'. rebalanced E lo hi s n (ls @ c # rs) (concat (xs @ es # ys)) cs' s' \<and> cs' \<noteq> [])"
    by (rule achieves_weaken [OF handle_underflow_at [OF assms(1-6,8-11) True]]) (use ne in \<open>auto simp: rebalanced_def\<close>)
  with True show ?thesis by (simp add: is_underflow_iff assms(6))
next
  case False
  have "child_at E lo hi s lo n c es"
    by (rule child_at_bound [OF assms(10) _ assms(1), of nd]) (use False assms(11) in simp_all)
  with assms(8,9) have "children_at E lo hi s n (ls @ c # rs) (xs @ es # ys)"
    by (simp add: list_all2_appendI)
  with assms(3) have "rebalanced E lo hi s n (ls @ c # rs) (concat (xs @ es # ys)) (ls @ c # rs) s"
    unfolding rebalanced_def
    by (intro conjI exI [of _ "xs @ es # ys"] extends_refl) simp_all
  with False show ?thesis by (simp add: is_underflow_iff assms(6) achieves_return)
qed

lemma delete_internal_updated:
  assumes "bincode_ok E" "avail md s" "store_ok E s" "1 \<le> lo" "2 * lo \<le> hi" "lo = unat (min_fanout cfg)"
    and "cs = ls @ c # rs" "length cs \<le> hi" "b \<le> length cs" "min 2 lo \<le> b"
    and "children_at E lo hi s n ls xs" "children_at E lo hi s n rs ys"
    and "child_at E lo hi s (lo - 1) n (update_entry u) es"
  shows "achieves E (delete_internal E md cfg h (of_nat (Suc n)) cs (length ls) (Updated u)) s
     (\<lambda>r s'. grown E s s' \<and> deleted_at E lo hi s' (b - 1) (Suc n) r (concat (xs @ es # ys)))"
proof -
  let ?cs = "ls @ update_entry u # rs" and ?es = "concat (xs @ es # ys)"
  obtain nd where nd: "stored E s (new_hash u) nd" "node_at E lo hi s (lo - 1) n nd es"
    using assms(13) by (auto simp: child_at_def update_entry_def)
  have ne: "?es \<noteq> []" using assms(13) by (simp add: child_at_def)
  have len: "length ?cs \<le> hi" "b \<le> length ?cs" using assms(7-9) by simp_all
  have upd: "cs[length ls := update_entry u] = ?cs"
    by (simp add: assms(7))
  have "min 2 lo \<le> length ?cs" "stored E s (child_hash (update_entry u)) nd"
    using len(2) assms(10) nd(1) by (simp_all add: update_entry_def)
  note child = rebalance_child [OF assms(1-6) this(1) assms(11-13) this(2) nd(2)]
  have rest: "achieves E (bindC (if is_underflow nd cfg then handle_underflow_strategy E md cfg ?cs (length ls)
        else returnC ?cs) (\<lambda>cs'. if is_underflow nd cfg \<and> cs' = [] then returnC Merged
        else bindC (finish_node E md (Internal (of_nat (Suc n)) cs') None) (\<lambda>u. returnC (Updated u)))) s
      (\<lambda>r s'. grown E s s' \<and> deleted_at E lo hi s' (b - 1) (Suc n) r ?es)"
  proof (rule achieves_bind [OF child])
    fix cs' s'
    assume cs': "rebalanced E lo hi s n ?cs ?es cs' s' \<and> (is_underflow nd cfg \<longrightarrow> cs' \<noteq> [])"
    then have "\<not> (is_underflow nd cfg \<and> cs' = [])" by blast
    with finish_rebalanced [OF assms(1,2) _ len ne] cs' show "achieves E (if is_underflow nd cfg \<and> cs' = [] then returnC Merged
        else bindC (finish_node E md (Internal (of_nat (Suc n)) cs') None) (\<lambda>u. returnC (Updated u))) s'
       (\<lambda>r s'. grown E s s' \<and> deleted_at E lo hi s' (b - 1) (Suc n) r ?es)"
      by (simp only: if_False)
  qed (intro grows_intros)
  show ?thesis
    unfolding delete_internal_def delete_result.case Let_def upd
    by (rule achieves_bind [OF achieves_load_node [OF assms(1,2) nd(1)]])
      (use rest in \<open>auto intro!: grows_intros\<close>)
qed

text \<open>The case of a leaf, and what follows the removal from a child.\<close>

lemma delete_leaf_at:
  assumes "bincode_ok E" "avail md s" "store_ok E s" "stored E s h (Leaf 0 es)"
    and "b \<le> length es" "length es \<le> hi" "sorted_keys es" "k \<in> le_key ` set es"
  shows "achieves E (delete_recursive E md cfg (Suc f) h k lvl flag) s
     (\<lambda>r s'. grown E s s' \<and> snd r \<and> deleted_at E lo hi s' (b - 1) 0 (fst r) (delete_key k es))"
  using assms(7)
proof (cases rule: leaf_search_cases [where k = k])
  case (found as e bs)
  have rem: "vec_remove (length as) es = delete_key k es"
    using found(1,5) by simp
  have leaf: "achieves E (if delete_key k es = [] then returnC (Merged, True)
       else bindC (finish_node E md (Leaf 0 (delete_key k es)) None) (\<lambda>u. returnC (Updated u, True))) s
      (\<lambda>r s'. grown E s s' \<and> snd r \<and> deleted_at E lo hi s' (b - 1) 0 (fst r) (delete_key k es))"
  proof (cases "delete_key k es = []")
    case True
    then show ?thesis
      using assms(3) by (simp add: achieves_return deleted_at_def)
  next
    case False
    have "node_at E lo hi s (b - 1) 0 (Leaf 0 (delete_key k es)) (delete_key k es)"
      using assms(5,6) found(1,5) by simp
    from achieves_finish_node [OF assms(1-3) this False] False show ?thesis
      by (auto intro!: achieves_map simp: deleted_at_def)
  qed
  show ?thesis
    unfolding delete_recursive.simps
    by (rule achieves_bind [OF achieves_load_node [OF assms(1,2,4)]])
      (use leaf found(3) rem in \<open>auto simp: Let_def intro!: grows_intros\<close>)
next
  case (missing as bs)
  with assms(8) show ?thesis by (simp add: lookup_key_None_iff)
qed

lemma delete_internal_at:
  assumes "bincode_ok E" "1 \<le> lo" "2 * lo \<le> hi" "lo = unat (min_fanout cfg)" "avail md s"
    and "cs = ls @ c # rs" "length cs \<le> hi" "b \<le> length cs" "min 2 lo \<le> b"
    and "children_at E lo hi s n ls xs" "children_at E lo hi s n rs ys"
    and r: "grown E s s1" "deleted_at E lo hi s1 (lo - 1) n r es"
  shows "achieves E (delete_internal E md cfg h (of_nat (Suc n)) cs (length ls) r) s1
      (\<lambda>r' s'. grown E s s' \<and> deleted_at E lo hi s' (b - 1) (Suc n) r' (concat (xs @ es # ys)))"
proof -
  from r have s1: "avail md s1" "store_ok E s1" "children_at E lo hi s1 n ls xs" "children_at E lo hi s1 n rs ys"
    using assms(5,10,11) by (auto intro: extends_availI children_at_extends)
  show ?thesis
  proof (cases r)
    case (NotFound h' k')
    with r show ?thesis by (simp add: deleted_at_def)
  next
    case (Updated u)
    with r have "child_at E lo hi s1 (lo - 1) n (update_entry u) es"
      by (simp add: deleted_at_def)
    from delete_internal_updated [OF assms(1) s1(1,2) assms(2-4) assms(6-9) s1(3,4) this]
    show ?thesis unfolding Updated
      by (rule achieves_weaken) (use r in \<open>blast intro: extends_trans\<close>)
  next
    case Merged
    with r have "concat (xs @ es # ys) = concat (xs @ ys)"
      by (simp add: deleted_at_def)
    with delete_internal_merged [OF assms(1) s1(1,2) assms(6-8) s1(3,4)]
    have "achieves E (delete_internal E md cfg h (of_nat (Suc n)) cs (length ls) Merged) s1
       (\<lambda>r s'. grown E s1 s' \<and> deleted_at E lo hi s' (b - 1) (Suc n) r (concat (xs @ es # ys)))"
      by (simp only:)
    then show ?thesis unfolding Merged
      by (rule achieves_weaken) (use r in \<open>blast intro: extends_trans\<close>)
  qed
qed

lemma delete_recursive_at:
  assumes "bincode_ok E" "1 \<le> lo" "2 * lo \<le> hi" "lo = unat (min_fanout cfg)"
    and "avail md s" "store_ok E s" "stored E s h nd" "node_at E lo hi s b n nd es"
    and "sorted_keys es" "k \<in> le_key ` set es" "n < fuel" "lvl = of_nat n" "n < 256"
    and "1 \<le> b" "n = 0 \<or> min 2 lo \<le> b"
  shows "achieves E (delete_recursive E md cfg fuel h k lvl flag) s
     (\<lambda>r s'. grown E s s' \<and> snd r \<and> deleted_at E lo hi s' (b - 1) n (fst r) (delete_key k es))"
  using assms(5-)
proof (induction n arbitrary: b fuel lvl h nd es)
  case 0
  then obtain f where f: "fuel = Suc f" by (cases fuel) auto
  from "0.prems"(4) have "nd = Leaf 0 es" "b \<le> length es" "length es \<le> hi" by auto
  with delete_leaf_at [OF assms(1) "0.prems"(1,2) _ this(2,3) "0.prems"(5,6)] "0.prems"(3) show ?case
    unfolding f by simp
next
  case (Suc n)
  then obtain f where f: "fuel = Suc f" "n < f" by (cases fuel) auto
  from Suc.prems(4) obtain cs ess where nd: "nd = Internal (of_nat (Suc n)) cs" "es = concat ess"
    "children_at E lo hi s n cs ess" and len: "b \<le> length cs" "length cs \<le> hi"
    by (auto simp: node_at_Suc)
  have ne: "cs \<noteq> []" and so: "sorted_keys (concat ess)"
    using Suc.prems(5,6) nd by auto
  obtain ls c rs xs es' ys where d: "cs = ls @ c # rs" "child_idx cs k = length ls"
    "ess = xs @ es' # ys" "children_at E lo hi s n ls xs" "child_at E lo hi s lo n c es'"
    "children_at E lo hi s n rs ys"
    "\<forall>e\<in>set (concat xs). le_key e < k" "\<forall>e\<in>set (concat ys). k < le_key e"
    "rs \<noteq> [] \<longrightarrow> k \<le> le_key (last es')" "sorted_keys es'" "es' \<noteq> []"
    by (rule descend [OF nd(3) ne so, of k])
  obtain nd' where nd': "stored E s (child_hash c) nd'" "node_at E lo hi s lo n nd' es'"
    by (rule child_at_stored [OF d(5)])
  have "k \<in> le_key ` (set (concat xs) \<union> set es' \<union> set (concat ys))"
    using Suc.prems(6) by (auto simp: nd(2) d(3))
  then have k: "k \<in> le_key ` set es'"
    using d(7,8) by (auto simp del: set_concat)
  have del: "delete_key k es = concat (xs @ delete_key k es' # ys)"
    using delete_key_descend [OF d(7,8)] nd(2) d(3) by simp
  have lvl: "lvl - 1 = of_nat n" "lvl \<noteq> 0"
    using u8_level [OF Suc.prems(8,9)] by simp_all
  have b: "min 2 lo \<le> b" "n < 256" "n = 0 \<or> min 2 lo \<le> lo"
    using Suc.prems(9,11) by auto
  note rec = Suc.IH [OF Suc.prems(1,2) nd' d(10) k f(2) lvl(1) b(2) assms(2) b(3)]
  have idx: "child_hash (cs ! child_idx cs k) = child_hash c"
    by (simp only: d(2)) (simp add: d(1))
  have body: "achieves E (bindC (delete_recursive E md cfg f (child_hash c) k (lvl - 1) flag) (\<lambda>(r, flag1).
        bindC (delete_internal E md cfg h (of_nat (Suc n)) cs (length ls) r) (\<lambda>r1. returnC (r1, flag1)))) s
      (\<lambda>r s'. grown E s s' \<and> snd r \<and> deleted_at E lo hi s' (b - 1) (Suc n) (fst r) (delete_key k es))"
    unfolding case_prod_beta
  proof (rule achieves_bind [OF rec])
    fix r s1
    assume r: "grown E s s1 \<and> snd r \<and> deleted_at E lo hi s1 (lo - 1) n (fst r) (delete_key k es')"
    then have "grown E s s1" "deleted_at E lo hi s1 (lo - 1) n (fst r) (delete_key k es')" by simp_all
    from delete_internal_at [OF assms(1-4) Suc.prems(1) d(1) len(2,1) b(1) d(4,6) this, folded del] show "achieves E (bindC (delete_internal E md cfg h (of_nat (Suc n)) cs (length ls) (fst r))
        (\<lambda>r1. returnC (r1, snd r))) s1
       (\<lambda>r s'. grown E s s' \<and> snd r \<and> deleted_at E lo hi s' (b - 1) (Suc n) (fst r) (delete_key k es))"
      by (rule achieves_map) (use r in simp)
  qed (intro grows_intros)
  show ?case
    unfolding f(1) delete_recursive.simps
    by (rule achieves_bind [OF achieves_load_node [OF assms(1) Suc.prems(1,3)]])
      (use body nd(1) ne lvl(2) idx d(2) in \<open>auto simp: Let_def intro!: grows_intros\<close>)
qed

end
