(* ===== verification/Prolly_Tree.thy ===== *)
theory Prolly_Tree
  imports Core_Delete
begin

text \<open>
  The tree: \<^verbatim>\<open>ProllyTree\<close> of \<^verbatim>\<open>src/src/tree/prolly_tree.rs\<close>, its constructors and its operations on
  keys (\<^verbatim>\<open>get\<close>, \<^verbatim>\<open>insert\<close>, \<^verbatim>\<open>insert_batch\<close>, \<^verbatim>\<open>delete\<close>, \<^verbatim>\<open>checkout\<close>, \<^verbatim>\<open>count_all_items\<close>), with the
  invariant \<open>tree_at\<close> that says which sorted list of entries a tree holds. The fuel of the
  recursions is an argument; it must exceed the height of the tree.
\<close>

section \<open>State\<close>

record tree =
  root_hash :: "hash option"
  config :: tree_config

text \<open>An operation of a mutable tree works on the tree and the store behind its \<^verbatim>\<open>Arc\<close>.\<close>

type_synonym 'a tree_op = "(tree \<times> store, failure, 'a) comp"

definition on_store :: "'a io \<Rightarrow> 'a tree_op" where
  "on_store m = (\<lambda>(t, s). case m s of (r, s') \<Rightarrow> (r, (t, s')))"

definition read_tree :: "tree tree_op" where
  "read_tree = (\<lambda>(t, s). (Inr t, (t, s)))"

definition set_root :: "hash option \<Rightarrow> unit tree_op" where
  "set_root h = (\<lambda>(t, s). (Inr (), (t\<lparr>root_hash := h\<rparr>, s)))"

section \<open>Constructors\<close>

definition new_tree :: "tree_config \<Rightarrow> failure + tree" where
  "new_tree cfg = (if config_rejected cfg then Inl Panic else Inr \<lparr>root_hash = None, config = cfg\<rparr>)"

definition from_root_hash :: "extern \<Rightarrow> hash \<Rightarrow> tree_config \<Rightarrow> tree io" where
  "from_root_hash E h cfg =
     (if config_rejected cfg then throwC Panic
      else bindC (get h) (\<lambda>found. case found of
        Some b \<Rightarrow> bindC (liftE (decode E b)) (\<lambda>_. returnC \<lparr>root_hash = Some h, config = cfg\<rparr>)
      | None \<Rightarrow> throwC (Err (ChunkNotFound h))))"

definition get_root_hash :: "tree \<Rightarrow> hash option" where
  "get_root_hash t = root_hash t"

section \<open>Operations on keys\<close>

definition tree_get :: "extern \<Rightarrow> mode \<Rightarrow> nat \<Rightarrow> tree \<Rightarrow> key \<Rightarrow> val option io" where
  "tree_get E md fuel t k = (case root_hash t of
     None \<Rightarrow> returnC None
   | Some h \<Rightarrow> get_recursive E md fuel h k)"

definition tree_get_sync :: "extern \<Rightarrow> nat \<Rightarrow> tree \<Rightarrow> key \<Rightarrow> val option io" where
  "tree_get_sync E = tree_get E Sync"

text \<open>
  The new root after the old one split. The root of the tree was replaced by the left half before,
  so an error here leaves that half as the tree.
\<close>

definition grow_root :: "extern \<Rightarrow> mode \<Rightarrow> u8 \<Rightarrow> processed_node_update \<Rightarrow> key \<times> hash \<times> u64 \<Rightarrow> unit tree_op" where
  "grow_root E md root_level u sp =
     (let new_root_children = [update_entry u,
            \<lparr>boundary_key = fst sp, child_hash = fst (snd sp), num_items_subtree = snd (snd sp)\<rparr>]
      in bindC (on_store (liftE (new_internal new_root_children (root_level + 1)))) (\<lambda>new_root_node.
         bindC (on_store (store_node_and_get_key_hash_pair E md new_root_node)) (\<lambda>(_, final_root_hash).
         set_root (Some final_root_hash))))"

definition tree_insert :: "extern \<Rightarrow> mode \<Rightarrow> nat \<Rightarrow> key \<Rightarrow> val \<Rightarrow> bool tree_op" where
  "tree_insert E md fuel k v =
     bindC read_tree (\<lambda>t.
     bindC (on_store (prepare_value_repr E md (config t) v)) (\<lambda>r.
     case root_hash t of
       None \<Rightarrow>
         bindC (on_store (store_node_and_get_key_hash_pair E md (Leaf 0 [\<lparr>le_key = k, le_value = r\<rparr>]))) (\<lambda>(_, h).
         bindC (set_root (Some h)) (\<lambda>_.
         returnC True))
     | Some h \<Rightarrow>
         bindC (on_store (load_node E md h)) (\<lambda>root_node.
         bindC (on_store (insert_recursive E md (config t) fuel h k r (level root_node))) (\<lambda>u.
         bindC (set_root (Some (new_hash u))) (\<lambda>_.
         bindC (case split_info u of None \<Rightarrow> returnC () | Some sp \<Rightarrow> grow_root E md (level root_node) u sp) (\<lambda>_.
         bindC read_tree (\<lambda>t1.
         returnC (root_hash t \<noteq> root_hash t1))))))))"

definition tree_insert_sync :: "extern \<Rightarrow> nat \<Rightarrow> key \<Rightarrow> val \<Rightarrow> bool tree_op" where
  "tree_insert_sync E = tree_insert E Sync"

fun insert_all :: "extern \<Rightarrow> nat \<Rightarrow> (key \<times> val) list \<Rightarrow> unit tree_op" where
  "insert_all E fuel [] = returnC ()"
| "insert_all E fuel (kv # kvs) =
     bindC (tree_insert E Async fuel (fst kv) (snd kv)) (\<lambda>_. insert_all E fuel kvs)"

definition insert_batch :: "extern \<Rightarrow> nat \<Rightarrow> (key \<times> val) list \<Rightarrow> bool tree_op" where
  "insert_batch E fuel items =
     bindC read_tree (\<lambda>t.
     bindC (insert_all E fuel items) (\<lambda>_.
     bindC read_tree (\<lambda>t1. returnC (root_hash t \<noteq> root_hash t1))))"

definition collapse_root :: "extern \<Rightarrow> mode \<Rightarrow> hash \<Rightarrow> unit tree_op" where
  "collapse_root E md h =
     bindC (on_store (load_node E md h)) (\<lambda>potentially_new_root_node. case potentially_new_root_node of
       Internal _ children \<Rightarrow>
         (if length children = 1 then set_root (Some (child_hash (children ! 0))) else returnC ())
     | Leaf _ _ \<Rightarrow> returnC ())"

definition tree_delete :: "extern \<Rightarrow> mode \<Rightarrow> nat \<Rightarrow> key \<Rightarrow> bool tree_op" where
  "tree_delete E md fuel k =
     bindC read_tree (\<lambda>t. case root_hash t of
       None \<Rightarrow> returnC False
     | Some h \<Rightarrow>
         bindC (on_store (load_node E md h)) (\<lambda>root_node.
         bindC (on_store (delete_recursive E md (config t) fuel h k (level root_node) False)) (\<lambda>(r, key_was_actually_deleted).
         case r of
           NotFound _ _ \<Rightarrow> returnC key_was_actually_deleted
         | Updated u \<Rightarrow>
             bindC (set_root (Some (new_hash u))) (\<lambda>_.
             bindC (collapse_root E md (new_hash u)) (\<lambda>_.
             returnC key_was_actually_deleted))
         | Merged \<Rightarrow>
             bindC (set_root None) (\<lambda>_. returnC key_was_actually_deleted))))"

definition tree_delete_sync :: "extern \<Rightarrow> nat \<Rightarrow> key \<Rightarrow> bool tree_op" where
  "tree_delete_sync E = tree_delete E Sync"

section \<open>Versions and counts\<close>

definition checkout :: "extern \<Rightarrow> hash option \<Rightarrow> bool tree_op" where
  "checkout E h =
     bindC read_tree (\<lambda>t.
     bindC (case h of
         Some r \<Rightarrow> bindC (on_store (load_node E Async r)) (\<lambda>_. set_root (Some r))
       | None \<Rightarrow> set_root None) (\<lambda>_.
     bindC read_tree (\<lambda>t1. returnC (root_hash t \<noteq> root_hash t1))))"

definition count_all_items :: "extern \<Rightarrow> tree \<Rightarrow> u64 io" where
  "count_all_items E t = (case root_hash t of
     None \<Rightarrow> returnC 0
   | Some h \<Rightarrow> bindC (load_node E Async h) (\<lambda>root_node. returnC (node_item_count root_node)))"

end
