(* ===== verification/Tree_Map.thy ===== *)
theory Tree_Map
  imports Prolly_Tree
begin

text \<open>
  What the operations of a tree do to the map it stands for. \<open>tree_at E s t n es\<close> is the invariant:
  the tree \<open>t\<close> has height \<open>n\<close> and holds the sorted entries \<open>es\<close>, every value of which can be loaded.
\<close>

section \<open>Computations on a tree\<close>

definition growsT :: "extern \<Rightarrow> 'a tree_op \<Rightarrow> bool" where
  "growsT E m \<longleftrightarrow> (\<forall>t s r t' s'. m (t, s) = (r, (t', s')) \<longrightarrow>
     extends s s' \<and> (store_ok E s \<longrightarrow> store_ok E s') \<and> config t' = config t)"

definition achievesT :: "extern \<Rightarrow> 'a tree_op \<Rightarrow> tree \<Rightarrow> store \<Rightarrow> ('a \<Rightarrow> tree \<Rightarrow> store \<Rightarrow> bool) \<Rightarrow> bool" where
  "achievesT E m t s Q \<longleftrightarrow> (\<forall>r t' s'. m (t, s) = (r, (t', s')) \<longrightarrow> collision_free E s' \<longrightarrow>
     (\<exists>x. r = Inr x \<and> Q x t' s'))"

named_theorems growsT_intros "composition of operations on a tree"

lemma growsT_return [growsT_intros]: "growsT E (returnC x)"
  by (simp add: growsT_def returnC_def)

lemma growsT_throw [growsT_intros]: "growsT E (throwC x)"
  by (simp add: growsT_def throwC_def)

lemma growsT_on_store [growsT_intros]: "grows E m \<Longrightarrow> growsT E (on_store m)"
  unfolding growsT_def on_store_def by (auto dest: growsD split: prod.splits)

lemma growsT_read_tree [growsT_intros]: "growsT E read_tree"
  by (simp add: growsT_def read_tree_def)

lemma growsT_set_root [growsT_intros]: "growsT E (set_root h)"
  by (simp add: growsT_def set_root_def)

lemma growsTD:
  "growsT E m \<Longrightarrow> m (t, s) = (r, (t', s')) \<Longrightarrow>
   extends s s' \<and> (store_ok E s \<longrightarrow> store_ok E s') \<and> config t' = config t"
  unfolding growsT_def by blast

lemma growsT_bind [growsT_intros]:
  assumes "growsT E m" "\<And>x. growsT E (f x)"
  shows "growsT E (bindC m f)"
  unfolding growsT_def
proof (intro allI impI)
  fix t s r t' s'
  assume "bindC m f (t, s) = (r, (t', s'))"
  then show "extends s s' \<and> (store_ok E s \<longrightarrow> store_ok E s') \<and> config t' = config t"
  proof (cases rule: bindC_cases)
    case (error e)
    with growsTD [OF assms(1)] show ?thesis by blast
  next
    case (ok x p)
    obtain t1 s1 where p: "p = (t1, s1)" by (cases p)
    from growsTD [OF assms(1) ok(1) [unfolded p]] growsTD [OF assms(2) ok(2) [unfolded p]] show ?thesis
      by (auto intro: extends_trans)
  qed
qed

lemma growsT_case_option [growsT_intros]:
  "growsT E f \<Longrightarrow> (\<And>y. growsT E (g y)) \<Longrightarrow> growsT E (case z of None \<Rightarrow> f | Some y \<Rightarrow> g y)"
  by (cases z) auto

lemma growsT_case_prod [growsT_intros]:
  "(\<And>a b. growsT E (f a b)) \<Longrightarrow> growsT E (case p of (a, b) \<Rightarrow> f a b)"
  by (cases p) auto

lemma growsT_case_node [growsT_intros]:
  "(\<And>l es. growsT E (f l es)) \<Longrightarrow> (\<And>l cs. growsT E (g l cs)) \<Longrightarrow>
   growsT E (case nd of Leaf l es \<Rightarrow> f l es | Internal l cs \<Rightarrow> g l cs)"
  by (cases nd) auto

lemma growsT_case_delete [growsT_intros]:
  "(\<And>h k. growsT E (f h k)) \<Longrightarrow> (\<And>u. growsT E (g u)) \<Longrightarrow> growsT E m \<Longrightarrow>
   growsT E (case r of NotFound h k \<Rightarrow> f h k | Updated u \<Rightarrow> g u | Merged \<Rightarrow> m)"
  by (cases r) auto

lemma growsT_if [growsT_intros]: "growsT E m \<Longrightarrow> growsT E m' \<Longrightarrow> growsT E (if b then m else m')"
  by simp

lemma achievesT_return: "Q x t s \<Longrightarrow> achievesT E (returnC x) t s Q"
  by (simp add: achievesT_def returnC_def)

lemma achievesT_weaken:
  "achievesT E m t s P \<Longrightarrow> (\<And>x t' s'. P x t' s' \<Longrightarrow> Q x t' s') \<Longrightarrow> achievesT E m t s Q"
  unfolding achievesT_def by blast

lemma achievesT_on_store: "achieves E m s (\<lambda>x s'. Q x t s') \<Longrightarrow> achievesT E (on_store m) t s Q"
  unfolding achievesT_def achieves_def on_store_def by (auto split: prod.splits)

lemma achievesT_bind:
  assumes "achievesT E m t s P" "\<And>x t1 s1. P x t1 s1 \<Longrightarrow> achievesT E (f x) t1 s1 Q"
    and "\<And>x. growsT E (f x)"
  shows "achievesT E (bindC m f) t s Q"
  unfolding achievesT_def
proof (intro allI impI)
  fix r t' s'
  assume run: "bindC m f (t, s) = (r, (t', s'))" and cf: "collision_free E s'"
  from run show "\<exists>x. r = Inr x \<and> Q x t' s'"
  proof (cases rule: bindC_cases)
    case (error e)
    with assms(1) cf show ?thesis unfolding achievesT_def by blast
  next
    case (ok x p)
    obtain t1 s1 where p: "p = (t1, s1)" by (cases p)
    from growsTD [OF assms(3) ok(2) [unfolded p]] cf have "collision_free E s1"
      by (blast intro: collision_free_mono)
    with assms(1) ok(1) p have "P x t1 s1" unfolding achievesT_def by blast
    from assms(2) [OF this] ok(2) cf p show ?thesis unfolding achievesT_def by blast
  qed
qed

lemma on_store_return [simp]: "on_store (returnC x) = returnC x"
  by (simp add: on_store_def returnC_def fun_eq_iff)

lemma achievesT_on_store_bind:
  assumes "achieves E m s P" "\<And>x s1. P x s1 \<Longrightarrow> achievesT E (f x) t s1 Q" "\<And>x. growsT E (f x)"
  shows "achievesT E (bindC (on_store m) f) t s Q"
proof (rule achievesT_bind [where P = "\<lambda>x t' s'. t' = t \<and> P x s'"])
  show "achievesT E (on_store m) t s (\<lambda>x t' s'. t' = t \<and> P x s')"
    by (rule achievesT_on_store, rule achieves_weaken [OF assms(1)]) simp
qed (use assms(2,3) in auto)

lemma bindC_read_tree: "bindC read_tree f (t, s) = f t (t, s)"
  by (simp add: bindC_def read_tree_def)

lemma achievesT_read: "achievesT E (f t) t s Q \<Longrightarrow> achievesT E (bindC read_tree f) t s Q"
  unfolding achievesT_def by (simp add: bindC_read_tree)

lemma achievesT_set_root_last: "Q () (t\<lparr>root_hash := h\<rparr>) s \<Longrightarrow> achievesT E (set_root h) t s Q"
  by (simp add: achievesT_def set_root_def)

lemma achievesT_set_root:
  "achievesT E f (t\<lparr>root_hash := h\<rparr>) s Q \<Longrightarrow> achievesT E (bindC (set_root h) (\<lambda>_. f)) t s Q"
  unfolding achievesT_def by (simp add: bindC_def set_root_def)

lemma growsT_grow_root [growsT_intros]: "growsT E (grow_root E md l u sp)"
  unfolding grow_root_def by (auto simp: Let_def intro!: growsT_intros grows_intros)

lemma growsT_insert [growsT_intros]: "growsT E (tree_insert E md fuel k v)"
  unfolding tree_insert_def by (intro growsT_intros grows_intros)

lemma growsT_insert_all [growsT_intros]: "growsT E (insert_all E fuel kvs)"
  by (induction kvs) (auto intro!: growsT_intros)

lemma growsT_collapse_root [growsT_intros]: "growsT E (collapse_root E md h)"
  unfolding collapse_root_def by (intro growsT_intros grows_intros)

lemma growsT_delete [growsT_intros]: "growsT E (tree_delete E md fuel k)"
  unfolding tree_delete_def by (intro growsT_intros grows_intros)

section \<open>The invariant\<close>

definition root_at :: "extern \<Rightarrow> nat \<Rightarrow> nat \<Rightarrow> store \<Rightarrow> nat \<Rightarrow> hash \<Rightarrow> leaf_entry list \<Rightarrow> bool" where
  "root_at E lo hi s n h es \<longleftrightarrow> es \<noteq> []
     \<and> (\<exists>nd. stored E s h nd \<and> node_at E lo hi s (if n = 0 then 1 else min 2 lo) n nd es)"

definition tree_at :: "extern \<Rightarrow> store \<Rightarrow> tree \<Rightarrow> nat \<Rightarrow> leaf_entry list \<Rightarrow> bool" where
  "tree_at E s t n es \<longleftrightarrow> store_ok E s \<and> config_valid (config t) \<and> sorted_keys es \<and> values_ok s es
     \<and> (case root_hash t of
          None \<Rightarrow> es = [] \<and> n = 0
        | Some h \<Rightarrow> root_at E (unat (min_fanout (config t))) (unat (target_fanout (config t))) s n h es)"

lemma tree_at_new:
  assumes "new_tree cfg = Inr t" "unat (min_fanout cfg) < 2 ^ 31" "store_ok E s"
  shows "tree_at E s t 0 []"
  using assms config_rejected_iff [OF assms(2)]
  by (auto simp: new_tree_def tree_at_def values_ok_def split: if_splits)

lemma values_ok_extends: "extends s s' \<Longrightarrow> values_ok s es \<Longrightarrow> values_ok s' es"
  unfolding values_ok_def by (metis not_None_eq repr_value_extends)

lemma root_at_extends: "extends s s' \<Longrightarrow> root_at E lo hi s n h es \<Longrightarrow> root_at E lo hi s' n h es"
  unfolding root_at_def by (blast intro: stored_extends node_at_extends)

text \<open>An old version of a tree survives everything that only adds chunks.\<close>

lemma tree_at_extends:
  "extends s s' \<Longrightarrow> store_ok E s' \<Longrightarrow> tree_at E s t n es \<Longrightarrow> tree_at E s' t n es"
  unfolding tree_at_def by (auto intro: values_ok_extends root_at_extends split: option.splits)

lemma in_set_upsert: "e \<in> set (upsert k r es) \<Longrightarrow> le_value e = r \<or> e \<in> set es"
  by (induction es) (auto split: if_splits)

lemma values_ok_upsert:
  "values_ok s es \<Longrightarrow> repr_value s r \<noteq> None \<Longrightarrow> values_ok s (upsert k r es)"
  unfolding values_ok_def by (auto dest!: in_set_upsert)

lemma set_delete_key: "set (delete_key k es) \<subseteq> set es"
  by (induction es) auto

lemma values_ok_delete_key: "values_ok s es \<Longrightarrow> values_ok s (delete_key k es)"
  using set_delete_key [of k es] unfolding values_ok_def by blast

section \<open>The map of a tree\<close>

lemma entries_map_extends:
  assumes "extends s s'" "values_ok s es"
  shows "entries_map s' es k = entries_map s es k"
proof (cases "lookup_key k es")
  case None
  then show ?thesis by (simp add: entries_map_def)
next
  case (Some r)
  with assms(2) obtain v where "repr_value s r = Some v"
    by (auto simp: values_ok_def dest!: lookup_key_in_set)
  with Some repr_value_extends [OF assms(1) this] show ?thesis
    by (simp add: entries_map_def)
qed

lemma entries_map_upsert:
  assumes "extends s s'" "values_ok s es" "repr_value s' r = Some v"
  shows "entries_map s' (upsert k r es) = (entries_map s es)(k \<mapsto> v)"
proof
  fix k'
  show "entries_map s' (upsert k r es) k' = ((entries_map s es)(k \<mapsto> v)) k'"
    using entries_map_extends [OF assms(1,2), of k'] assms(3)
    by (simp add: entries_map_def lookup_upsert)
qed

lemma entries_map_delete_key:
  assumes "extends s s'" "values_ok s es" "sorted_keys es"
  shows "entries_map s' (delete_key k es) = (entries_map s es)(k := None)"
proof
  fix k'
  show "entries_map s' (delete_key k es) k' = ((entries_map s es)(k := None)) k'"
    using entries_map_extends [OF assms(1,2), of k']
    by (simp add: entries_map_def lookup_delete_key [OF assms(3)])
qed

lemma entries_map_in_dom:
  assumes "values_ok s es"
  shows "k \<in> dom (entries_map s es) \<longleftrightarrow> k \<in> le_key ` set es"
proof (cases "lookup_key k es")
  case None
  then have "k \<notin> le_key ` set es" by (simp add: lookup_key_None_iff)
  with None show ?thesis by (simp add: entries_map_def dom_def)
next
  case (Some r)
  with assms have "repr_value s r \<noteq> None" "k \<in> le_key ` set es"
    by (auto simp: values_ok_def dest!: lookup_key_in_set)
  with Some show ?thesis by (simp add: entries_map_def dom_def)
qed

lemma tree_get_at:
  assumes "bincode_ok E" "avail md s" "tree_at E s t n es" "n < fuel"
  shows "tree_get E md fuel t k s = (Inr (entries_map s es k), s)"
proof (cases "root_hash t")
  case None
  with assms(3) show ?thesis
    by (simp add: tree_get_def tree_at_def entries_map_def comp_simps)
next
  case (Some h)
  with assms(3) obtain nd b lo hi where "stored E s h nd" "node_at E lo hi s b n nd es"
    "sorted_keys es" "values_ok s es"
    by (auto simp: tree_at_def root_at_def)
  from get_recursive_at [OF assms(1,2) this assms(4)] Some show ?thesis
    by (simp add: tree_get_def)
qed

section \<open>Insertion\<close>

lemma new_internal_level:
  "n < 255 \<Longrightarrow> new_internal cs (of_nat n + 1) = Inr (Internal (of_nat (Suc n)) cs)"
  using u8_level [of "of_nat (Suc n)" n] by (simp add: new_internal_def add.commute)

lemma root_at_update:
  assumes "update_at E lo hi s (if n = 0 then 1 else min 2 lo) n u es" "split_info u = None"
  shows "root_at E lo hi s n (new_hash u) es"
  using assms by (auto simp: update_at_def root_at_def child_at_def update_entry_def)

lemma grow_root_at:
  assumes "bincode_ok E" "avail md s" "store_ok E s" "2 \<le> hi" "n < 255"
    and "child_at E lo hi s lo n (update_entry u) xs" "child_at E lo hi s lo n (split_entry sp) ys"
  shows "achievesT E (grow_root E md (of_nat n) u sp) t s
     (\<lambda>_ t' s'. grown E s s' \<and> config t' = config t
        \<and> (\<exists>h. root_hash t' = Some h \<and> root_at E lo hi s' (Suc n) h (xs @ ys)))"
proof -
  let ?cs = "[update_entry u, split_entry sp]"
  have "children_at E lo hi s n ?cs [xs, ys]" using assms(6,7) by simp
  then have nd: "node_at E lo hi s (min 2 lo) (Suc n) (Internal (of_nat (Suc n)) ?cs) (xs @ ys)"
    using assms(4) unfolding node_at_Suc by (intro exI [of _ ?cs] exI [of _ "[xs, ys]"]) simp
  have ne: "xs @ ys \<noteq> []" using assms(6) by (simp add: child_at_def)
  have root: "root_at E lo hi s' (Suc n) h (xs @ ys)"
    if "stored E s' h (Internal (of_nat (Suc n)) ?cs)"
      "node_at E lo hi s' (min 2 lo) (Suc n) (Internal (of_nat (Suc n)) ?cs) (xs @ ys)" for s' h
    using that ne unfolding root_at_def by auto
  have "achievesT E (bindC (on_store (store_node_and_get_key_hash_pair E md (Internal (of_nat (Suc n)) ?cs)))
        (\<lambda>x. set_root (Some (snd x)))) t s
      (\<lambda>_ t' s'. grown E s s' \<and> config t' = config t
        \<and> (\<exists>h. root_hash t' = Some h \<and> root_at E lo hi s' (Suc n) h (xs @ ys)))"
    by (rule achievesT_on_store_bind [OF achieves_store_node_at [OF assms(1-3) nd ne]])
      (auto intro!: growsT_intros root achievesT_set_root_last simp del: of_nat_Suc)
  then show ?thesis
    by (simp add: grow_root_def new_internal_level [OF assms(5)] case_prod_unfold split_entry_def)
qed

definition inserted_root ::
  "extern \<Rightarrow> nat \<Rightarrow> nat \<Rightarrow> tree \<Rightarrow> store \<Rightarrow> nat \<Rightarrow> leaf_entry list \<Rightarrow> tree \<Rightarrow> store \<Rightarrow> bool" where
  "inserted_root E lo hi t s n es t' s' \<longleftrightarrow> grown E s s' \<and> config t' = config t
     \<and> (\<exists>h n'. root_hash t' = Some h \<and> n' \<le> Suc n \<and> root_at E lo hi s' n' h es)"

lemma insert_root_at:
  assumes "bincode_ok E" "1 \<le> lo" "2 * lo \<le> hi" "hi = unat (target_fanout (config t))"
    and "avail md s" "store_ok E s" "root_at E lo hi s n h es" "sorted_keys es" "n < fuel" "n < 255"
  shows "achievesT E
     (bindC (on_store (load_node E md h)) (\<lambda>root_node.
      bindC (on_store (insert_recursive E md (config t) fuel h k r (level root_node))) (\<lambda>u.
      bindC (set_root (Some (new_hash u))) (\<lambda>_.
      bindC (case split_info u of None \<Rightarrow> returnC () | Some sp \<Rightarrow> grow_root E md (level root_node) u sp) (\<lambda>_.
      bindC read_tree (\<lambda>t1. returnC (t0 \<noteq> root_hash t1)))))))
     t s (\<lambda>b t' s'. b = (t0 \<noteq> root_hash t') \<and> inserted_root E lo hi t s n (upsert k r es) t' s')"
proof -
  let ?b = "if n = 0 then 1 else min 2 lo"
  from assms(7) obtain nd where nd: "stored E s h nd" "node_at E lo hi s ?b n nd es" and ne: "es \<noteq> []"
    by (auto simp: root_at_def)
  have lvl: "level nd = of_nat n"
    using nd(2) by (cases n) (auto simp: node_at_Suc)
  have last: "achievesT E (bindC (case split_info u of None \<Rightarrow> returnC () | Some sp \<Rightarrow> grow_root E md (of_nat n) u sp)
       (\<lambda>_. bindC read_tree (\<lambda>t1. returnC (t0 \<noteq> root_hash t1)))) (t\<lparr>root_hash := Some (new_hash u)\<rparr>) s1
      (\<lambda>b t' s'. b = (t0 \<noteq> root_hash t') \<and> inserted_root E lo hi t s n (upsert k r es) t' s')"
    if u: "grown E s s1 \<and> update_at E lo hi s1 ?b n u (upsert k r es)" for u s1
  proof (rule achievesT_bind)
    let ?t = "t\<lparr>root_hash := Some (new_hash u)\<rparr>"
    show "achievesT E (case split_info u of None \<Rightarrow> returnC () | Some sp \<Rightarrow> grow_root E md (of_nat n) u sp) ?t s1
       (\<lambda>_. inserted_root E lo hi t s n (upsert k r es))"
    proof (cases "split_info u")
      case None
      with u have "root_at E lo hi s1 n (new_hash u) (upsert k r es)"
        by (blast intro: root_at_update)
      with u None show ?thesis
        by (auto intro!: achievesT_return exI [of _ n] simp: inserted_root_def)
    next
      case (Some sp)
      with u obtain xs ys where xy: "upsert k r es = xs @ ys" "child_at E lo hi s1 lo n (update_entry u) xs"
        "child_at E lo hi s1 lo n (split_entry sp) ys"
        by (auto simp: update_at_def)
      have "avail md s1" "store_ok E s1" "2 \<le> hi"
        using u assms(2,3,5) by (auto intro: extends_availI)
      note grow = grow_root_at [OF assms(1) this assms(10) xy(2,3), of ?t]
      show ?thesis unfolding Some option.case xy(1)
        by (rule achievesT_weaken [OF grow]) (use u in \<open>auto simp: inserted_root_def intro: extends_trans\<close>)
    qed
  qed (auto intro!: growsT_intros achievesT_read achievesT_return)
  have rec: "achieves E (insert_recursive E md (config t) fuel h k r (of_nat n)) s
      (\<lambda>u s'. grown E s s' \<and> update_at E lo hi s' ?b n u (upsert k r es))"
    by (rule insert_recursive_at [OF assms(1-6) nd assms(8) ne assms(9) refl])
  have body: "achievesT E
     (bindC (on_store (insert_recursive E md (config t) fuel h k r (level nd))) (\<lambda>u.
      bindC (set_root (Some (new_hash u))) (\<lambda>_.
      bindC (case split_info u of None \<Rightarrow> returnC () | Some sp \<Rightarrow> grow_root E md (level nd) u sp) (\<lambda>_.
      bindC read_tree (\<lambda>t1. returnC (t0 \<noteq> root_hash t1))))))
     t s (\<lambda>b t' s'. b = (t0 \<noteq> root_hash t') \<and> inserted_root E lo hi t s n (upsert k r es) t' s')"
    unfolding lvl
    by (rule achievesT_on_store_bind [OF rec], rule achievesT_set_root, erule last)
      (intro growsT_intros)
  show ?thesis
    by (rule achievesT_on_store_bind [OF achieves_load_node [OF assms(1,5) nd(1)]])
      (use body in \<open>auto intro!: growsT_intros grows_intros\<close>)
qed

text \<open>The outcome of an insertion, over the invariant.\<close>

definition inserted_at ::
  "extern \<Rightarrow> tree \<Rightarrow> store \<Rightarrow> nat \<Rightarrow> leaf_entry list \<Rightarrow> key \<Rightarrow> val \<Rightarrow> bool \<Rightarrow> tree \<Rightarrow> store \<Rightarrow> bool" where
  "inserted_at E t s n es k v b t' s' \<longleftrightarrow>
     extends s s' \<and> config t' = config t \<and> b = (root_hash t \<noteq> root_hash t')
     \<and> (\<exists>r n'. repr_value s' r = Some v \<and> n' \<le> Suc n \<and> tree_at E s' t' n' (upsert k r es))"

lemma values_ok_upsert_extends:
  "extends s s' \<Longrightarrow> values_ok s es \<Longrightarrow> repr_value s' r = Some v \<Longrightarrow> values_ok s' (upsert k r es)"
  by (rule values_ok_upsert [OF values_ok_extends]) auto

lemma tree_insert_at:
  assumes "extern_ok E (config t)" "avail md s" "tree_at E s t n es"
    and "n < fuel" "n < 255" "length v < 2 ^ 31"
  shows "achievesT E (tree_insert E md fuel k v) t s (inserted_at E t s n es k v)"
proof -
  let ?lo = "unat (min_fanout (config t))" and ?hi = "unat (target_fanout (config t))"
  have E: "bincode_ok E" "fastcdc_ok E" "fastcdc_accepts E (config t)"
    using assms(1) by (auto simp: extern_ok_def)
  have ok: "store_ok E s" "1 \<le> ?lo" "2 * ?lo \<le> ?hi" "sorted_keys es" "values_ok s es" "config_valid (config t)"
    using assms(3) by (auto simp: tree_at_def config_valid_def)
  note prep = achieves_prepare_value_repr [OF assms(2) ok(1) E(2,3) assms(6)]
  have final: "inserted_at E t s n es k v b t' s'"
    if "inserted_root E ?lo ?hi t s1 n (upsert k r es) t' s'" "b = (root_hash t \<noteq> root_hash t')"
      "repr_value s1 r = Some v \<and> extends s s1 \<and> store_ok E s1" for r s1 b t' s'
  proof -
    have ext: "extends s1 s'" "extends s s'" "store_ok E s'" "config t' = config t"
      using that by (auto simp: inserted_root_def intro: extends_trans)
    then have r: "repr_value s' r = Some v"
      using that(3) repr_value_extends by blast
    from that(1) obtain h n' where h: "root_hash t' = Some h" "n' \<le> Suc n"
      "root_at E ?lo ?hi s' n' h (upsert k r es)"
      unfolding inserted_root_def by blast
    have "tree_at E s' t' n' (upsert k r es)"
      using ext ok(4,6) h(1,3) values_ok_upsert_extends [OF ext(2) ok(5) r]
      by (simp add: tree_at_def sorted_upsert)
    with ext r h(2) that(2) show ?thesis
      unfolding inserted_at_def by blast
  qed
  show ?thesis
  proof (cases "root_hash t")
    case None
    then have es: "es = []" "n = 0" using assms(3) by (auto simp: tree_at_def)
    have new: "achievesT E (bindC (on_store (store_node_and_get_key_hash_pair E md (Leaf 0 [\<lparr>le_key = k, le_value = r\<rparr>])))
         (\<lambda>(_, h). bindC (set_root (Some h)) (\<lambda>_. returnC True))) t s1 (inserted_at E t s n es k v)"
      if r: "repr_value s1 r = Some v \<and> extends s s1 \<and> store_ok E s1" for r s1
    proof -
      have s1: "avail md s1" "store_ok E s1" using r assms(2) by (auto intro: extends_availI)
      have nd: "node_at E ?lo ?hi s1 1 0 (Leaf 0 [\<lparr>le_key = k, le_value = r\<rparr>]) [\<lparr>le_key = k, le_value = r\<rparr>]"
        using ok(2,3) by simp
      have root: "inserted_root E ?lo ?hi t s1 n (upsert k r es) (t\<lparr>root_hash := Some h\<rparr>) s'"
        if "extends s1 s'" "store_ok E s'" "stored E s' h (Leaf 0 [\<lparr>le_key = k, le_value = r\<rparr>])" for h s'
        unfolding inserted_root_def root_at_def
        using that ok(2,3) es by (auto intro!: exI [of _ "0::nat"])
      show ?thesis
        by (rule achievesT_on_store_bind [OF achieves_store_node_at [OF E(1) s1 nd]])
          (auto intro!: achievesT_set_root achievesT_return final [OF root _ r] growsT_intros simp: None)
    qed
    show ?thesis
      unfolding tree_insert_def
      by (rule achievesT_read, simp only: None option.case, rule achievesT_on_store_bind [OF prep new])
        (auto intro!: growsT_intros grows_intros)
  next
    case (Some h)
    then have root: "root_at E ?lo ?hi s n h es"
      using assms(3) by (simp add: tree_at_def)
    show ?thesis
      unfolding tree_insert_def
    proof (rule achievesT_read, simp only: Some option.case, rule achievesT_on_store_bind [OF prep])
      fix r s1
      assume r: "repr_value s1 r = Some v \<and> extends s s1 \<and> store_ok E s1"
      then have s1: "avail md s1" "store_ok E s1" "root_at E ?lo ?hi s1 n h es"
        using assms(2) root by (auto intro: extends_availI root_at_extends)
      show "achievesT E
        (bindC (on_store (load_node E md h)) (\<lambda>root_node.
         bindC (on_store (insert_recursive E md (config t) fuel h k r (level root_node))) (\<lambda>u.
         bindC (set_root (Some (new_hash u))) (\<lambda>_.
         bindC (case split_info u of None \<Rightarrow> returnC () | Some sp \<Rightarrow> grow_root E md (level root_node) u sp) (\<lambda>_.
         bindC read_tree (\<lambda>t1. returnC (Some h \<noteq> root_hash t1))))))) t s1 (inserted_at E t s n es k v)"
        by (rule achievesT_weaken [OF insert_root_at [OF E(1) ok(2,3) refl s1 ok(4) assms(4,5)]])
          (use final [OF _ _ r] Some in simp)
    qed (intro growsT_intros grows_intros)
  qed
qed

section \<open>Deletion\<close>

definition deleted_from ::
  "extern \<Rightarrow> tree \<Rightarrow> store \<Rightarrow> nat \<Rightarrow> leaf_entry list \<Rightarrow> key \<Rightarrow> bool \<Rightarrow> tree \<Rightarrow> store \<Rightarrow> bool" where
  "deleted_from E t s n es k b t' s' \<longleftrightarrow>
     extends s s' \<and> config t' = config t \<and> b = (k \<in> le_key ` set es) \<and> (\<not> b \<longrightarrow> t' = t \<and> s' = s)
     \<and> (\<exists>n'. n' \<le> n \<and> tree_at E s' t' n' (delete_key k es))"

text \<open>An internal root that is left with one child gives way to the child.\<close>

lemma collapse_root_at:
  assumes "bincode_ok E" "avail md s" "1 \<le> lo" "2 * lo \<le> hi"
    and "child_at E lo hi s ((if n = 0 then 1 else min 2 lo) - 1) n (update_entry u) es"
  shows "achievesT E (collapse_root E md (new_hash u)) (t\<lparr>root_hash := Some (new_hash u)\<rparr>) s
     (\<lambda>_ t' s'. s' = s \<and> config t' = config t
        \<and> (\<exists>h n'. n' \<le> n \<and> root_hash t' = Some h \<and> root_at E lo hi s n' h es))"
proof -
  obtain nd where nd: "stored E s (new_hash u) nd" "node_at E lo hi s ((if n = 0 then 1 else min 2 lo) - 1) n nd es"
    and ne: "es \<noteq> []"
    using assms(5) by (auto simp: child_at_def update_entry_def)
  let ?goal = "\<lambda>t' s'. s' = s \<and> config t' = config t
        \<and> (\<exists>h n'. n' \<le> n \<and> root_hash t' = Some h \<and> root_at E lo hi s n' h es)"
  have keep: "?goal (t\<lparr>root_hash := Some (new_hash u)\<rparr>) s" if "n = 0 \<or> num_entries nd \<noteq> 1"
  proof -
    have "(if n = 0 then 1 else min 2 lo) \<le> num_entries nd"
      using that ne node_at_nonempty [OF nd(2)] by auto
    from node_at_bound [OF nd(2) this] nd(1) ne have "root_at E lo hi s n (new_hash u) es"
      by (auto simp: root_at_def)
    then show ?thesis by auto
  qed
  show ?thesis
    unfolding collapse_root_def
  proof (rule achievesT_on_store_bind [OF achieves_load_node [OF assms(1,2) nd(1)]], elim conjE, hypsubst)
    show "achievesT E (case nd of Internal _ children \<Rightarrow>
         (if length children = 1 then set_root (Some (child_hash (children ! 0))) else returnC ())
       | Leaf _ _ \<Rightarrow> returnC ()) (t\<lparr>root_hash := Some (new_hash u)\<rparr>) s (\<lambda>_. ?goal)"
    proof (cases n)
      case 0
      with nd(2) keep show ?thesis by (auto intro: achievesT_return)
    next
      case (Suc m)
      with nd(2) obtain cs ess where cs: "nd = Internal (of_nat (Suc m)) cs" "es = concat ess"
        "children_at E lo hi s m cs ess"
        by (auto simp: node_at_Suc)
      show ?thesis
      proof (cases "length cs = 1")
        case True
        then obtain c where c: "cs = [c]" by (auto simp: length_Suc_conv)
        with cs(2,3) have "child_at E lo hi s lo m c es" by (auto simp: list_all2_Cons1)
        then obtain nd' where nd': "stored E s (child_hash c) nd'" "node_at E lo hi s lo m nd' es"
          by (rule child_at_stored)
        have "(if m = 0 then 1 else min 2 lo) \<le> num_entries nd'"
          using node_at_num_entries [OF nd'(2)] assms(3) by auto
        from node_at_bound [OF nd'(2) this] nd'(1) ne have "root_at E lo hi s m (child_hash c) es"
          by (auto simp: root_at_def)
        then show ?thesis
          using Suc c cs(1) by (auto intro!: achievesT_set_root_last exI [of _ m])
      next
        case False
        with keep cs(1) have "?goal (t\<lparr>root_hash := Some (new_hash u)\<rparr>) s" by simp
        from achievesT_return [where Q = "\<lambda>_. ?goal", OF this] False cs(1) show ?thesis
          by (simp only: node.case if_False)
      qed
    qed
  qed (intro growsT_intros)
qed

text \<open>What becomes of the root after the removal below it.\<close>

lemma removed_from_root_at:
  assumes lo: "lo = unat (min_fanout (config t))" and hi: "hi = unat (target_fanout (config t))"
    and "bincode_ok E" "avail md s" "tree_at E s t n es" "k \<in> le_key ` set es"
    and "grown E s s1" "deleted_at E lo hi s1 ((if n = 0 then 1 else min 2 lo) - 1) n r (delete_key k es)"
  shows "achievesT E (case r of
      NotFound _ _ \<Rightarrow> returnC True
    | Updated u \<Rightarrow> bindC (set_root (Some (new_hash u))) (\<lambda>_. bindC (collapse_root E md (new_hash u)) (\<lambda>_. returnC True))
    | Merged \<Rightarrow> bindC (set_root None) (\<lambda>_. returnC True)) t s1 (deleted_from E t s n es k)"
proof -
  have ok: "store_ok E s" "1 \<le> lo" "2 * lo \<le> hi" "sorted_keys es" "values_ok s es" "config_valid (config t)"
    using assms(5) by (auto simp: tree_at_def config_valid_def lo hi)
  have s1: "avail md s1" "values_ok s1 (delete_key k es)"
    using assms(4,7) ok(5) by (auto intro: extends_availI values_ok_delete_key values_ok_extends)
  have final: "deleted_from E t s n es k True t' s1"
    if "config t' = config t" "n' \<le> n"
      "case root_hash t' of None \<Rightarrow> delete_key k es = [] \<and> n' = 0 | Some h \<Rightarrow> root_at E lo hi s1 n' h (delete_key k es)"
    for t' n'
  proof -
    have "tree_at E s1 t' n' (delete_key k es)"
      using that(3) assms(7) ok(4,6) s1(2) sorted_delete_key
      unfolding tree_at_def that(1) lo [symmetric] hi [symmetric] by simp
    with that(1,2) assms(6,7) show ?thesis
      unfolding deleted_from_def by blast
  qed
  show ?thesis
  proof (cases r)
    case (NotFound h' k')
    with assms(8) show ?thesis by (simp add: deleted_at_def)
  next
    case (Updated u)
    with assms(8) have "child_at E lo hi s1 ((if n = 0 then 1 else min 2 lo) - 1) n (update_entry u) (delete_key k es)"
      by (simp add: deleted_at_def)
    note collapse = collapse_root_at [OF assms(3) s1(1) ok(2,3) this, of t]
    have "achievesT E (bindC (collapse_root E md (new_hash u)) (\<lambda>_. returnC True))
        (t\<lparr>root_hash := Some (new_hash u)\<rparr>) s1 (deleted_from E t s n es k)"
      by (rule achievesT_bind [OF collapse]) (auto intro!: achievesT_return final growsT_intros)
    then show ?thesis
      by (simp add: Updated achievesT_set_root)
  next
    case Merged
    with assms(8) have "delete_key k es = []" by (simp add: deleted_at_def)
    then show ?thesis
      by (auto simp: Merged intro!: achievesT_set_root achievesT_return final [of _ 0])
  qed
qed

lemma tree_delete_at:
  assumes "bincode_ok E" "avail md s" "tree_at E s t n es" "n < fuel" "n < 256"
  shows "achievesT E (tree_delete E md fuel k) t s (deleted_from E t s n es k)"
proof (cases "root_hash t")
  case None
  then have "es = []" "n = 0" using assms(3) by (auto simp: tree_at_def)
  then have "deleted_from E t s n es k False t s"
    using assms(3) by (auto simp: deleted_from_def)
  then show ?thesis
    unfolding tree_delete_def
    by (intro achievesT_read) (simp add: None achievesT_return)
next
  case (Some h)
  let ?lo = "unat (min_fanout (config t))" and ?hi = "unat (target_fanout (config t))"
  let ?b = "if n = 0 then 1 else min 2 ?lo"
  have ok: "store_ok E s" "1 \<le> ?lo" "2 * ?lo \<le> ?hi" "sorted_keys es"
    using assms(3) by (auto simp: tree_at_def config_valid_def)
  obtain nd where nd: "stored E s h nd" "node_at E ?lo ?hi s ?b n nd es" and ne: "es \<noteq> []"
    using assms(3) Some by (auto simp: tree_at_def root_at_def)
  have lvl: "level nd = of_nat n"
    using nd(2) by (cases n) (auto simp: node_at_Suc)
  let ?rest = "\<lambda>(r, b). case r of
           NotFound _ _ \<Rightarrow> returnC b
         | Updated u \<Rightarrow>
             bindC (set_root (Some (new_hash u))) (\<lambda>_.
             bindC (collapse_root E md (new_hash u)) (\<lambda>_. returnC b))
         | Merged \<Rightarrow> bindC (set_root None) (\<lambda>_. returnC b)"
  have main: "achievesT E (bindC (on_store (delete_recursive E md (config t) fuel h k (level nd) False)) ?rest)
      t s (deleted_from E t s n es k)"
  proof (cases "k \<in> le_key ` set es")
    case False
    have run: "on_store (delete_recursive E md (config t) fuel h k (level nd) False) (t, s)
        = (Inr (NotFound h (le_key (last es)), False), (t, s))"
      by (simp add: on_store_def lvl delete_recursive_absent [OF assms(1,2) nd ok(4) ne False assms(4) refl assms(5)])
    have "deleted_from E t s n es k False t s"
      using False assms(3) by (auto simp: deleted_from_def delete_key_absent)
    with run show ?thesis
      by (auto simp: achievesT_def bindC_def returnC_def intro!: exI [of _ False])
  next
    case True
    have pre: "1 \<le> ?b" "n = 0 \<or> min 2 ?lo \<le> ?b" using ok(2) by auto
    note rec = delete_recursive_at [OF assms(1) ok(2,3) refl assms(2) ok(1) nd ok(4) True assms(4) lvl assms(5) pre]
    show ?thesis
    proof (rule achievesT_on_store_bind [OF rec])
      fix x s1
      assume x: "grown E s s1 \<and> snd x \<and> deleted_at E ?lo ?hi s1 (?b - 1) n (fst x) (delete_key k es)"
      then obtain r where r: "x = (r, True)" by (cases x) auto
      with x have "grown E s s1" "deleted_at E ?lo ?hi s1 (?b - 1) n r (delete_key k es)" by simp_all
      from removed_from_root_at [OF refl refl assms(1-3) True this]
      show "achievesT E (?rest x) t s1 (deleted_from E t s n es k)"
        unfolding r prod.case .
    qed (intro growsT_intros)
  qed
  show ?thesis
    unfolding tree_delete_def
    by (rule achievesT_read, simp only: Some option.case,
      rule achievesT_on_store_bind [OF achieves_load_node [OF assms(1,2) nd(1)]])
      (use main in \<open>auto intro!: growsT_intros grows_intros\<close>)
qed

end
