(* ===== verification/Map_Contract.thy ===== *)
theory Map_Contract
  imports Tree_Map
begin

text \<open>
  The contract of the tree towards its clients, as a locale: a mutable map from keys to values with
  insertion, removal and lookup. The client, a sequence of operations, is proved against the
  contract once; the interpretation shows that \<^verbatim>\<open>ProllyTree\<close> keeps it, in both modes. The height
  of a tree is bounded by the logarithm of its size when \<^verbatim>\<open>min_fanout\<close> is at least 2.
\<close>

section \<open>The contract and its client\<close>

datatype map_op = InsertOp key val | DeleteOp key | GetOp key

datatype map_answer = Done | Removed bool | Answer "val option"

text \<open>What a map answers, and what becomes of it.\<close>

fun spec_op :: "map_op \<Rightarrow> (key \<Rightarrow> val option) \<Rightarrow> map_answer \<times> (key \<Rightarrow> val option)" where
  "spec_op (InsertOp k v) m = (Done, m(k \<mapsto> v))"
| "spec_op (DeleteOp k) m = (Removed (m k \<noteq> None), m(k := None))"
| "spec_op (GetOp k) m = (Answer (m k), m)"

fun spec_ops :: "map_op list \<Rightarrow> (key \<Rightarrow> val option) \<Rightarrow> map_answer list \<times> (key \<Rightarrow> val option)" where
  "spec_ops [] m = ([], m)"
| "spec_ops (x # xs) m = (let (a, m1) = spec_op x m; (as, m2) = spec_ops xs m1 in (a # as, m2))"

text \<open>A value fits when its length is a size the program can allocate.\<close>

fun op_ok :: "map_op \<Rightarrow> bool" where
  "op_ok (InsertOp k v) = (length v < 2 ^ 31)"
| "op_ok _ = True"

text \<open>
  \<open>ms_holds b st m\<close>: the state \<open>st\<close> represents the map \<open>m\<close> and has room for \<open>b\<close> more operations.
  \<open>ms_sound st\<close>: nothing went wrong so far that no implementation can exclude.
\<close>

locale map_service =
  fixes ms_run :: "map_op \<Rightarrow> 'st \<Rightarrow> (failure + map_answer) \<times> 'st"
    and ms_sound :: "'st \<Rightarrow> bool"
    and ms_holds :: "nat \<Rightarrow> 'st \<Rightarrow> (key \<Rightarrow> val option) \<Rightarrow> bool"
  assumes run_sound: "ms_run x st = (r, st') \<Longrightarrow> ms_sound st' \<Longrightarrow> ms_sound st"
    and run_law: "ms_holds (Suc b) st m \<Longrightarrow> op_ok x \<Longrightarrow> ms_run x st = (r, st') \<Longrightarrow> ms_sound st' \<Longrightarrow>
      r = Inr (fst (spec_op x m)) \<and> ms_holds b st' (snd (spec_op x m))"
begin

fun run_list :: "map_op list \<Rightarrow> 'st \<Rightarrow> (failure + map_answer list) \<times> 'st" where
  "run_list [] = returnC []"
| "run_list (x # xs) = bindC (ms_run x) (\<lambda>a. bindC (run_list xs) (\<lambda>as. returnC (a # as)))"

lemma run_list_sound: "run_list xs st = (r, st') \<Longrightarrow> ms_sound st' \<Longrightarrow> ms_sound st"
proof (induction xs arbitrary: st r)
  case Nil
  then show ?case by (simp add: returnC_def)
next
  case (Cons x xs)
  from Cons.prems(1) [unfolded run_list.simps] show ?case
  proof (cases rule: bindC_cases)
    case (error e)
    then show ?thesis using Cons.prems(2) run_sound by blast
  next
    case (ok a s1)
    from ok(2) have "\<exists>r1. run_list xs s1 = (r1, st')"
      by (cases rule: bindC_cases) (auto simp: returnC_def)
    with Cons.IH Cons.prems(2) run_sound [OF ok(1)] show ?thesis by blast
  qed
qed

lemma run_list_spec:
  assumes "ms_holds (b + length xs) st m" "\<forall>x\<in>set xs. op_ok x" "run_list xs st = (r, st')" "ms_sound st'"
  shows "r = Inr (fst (spec_ops xs m)) \<and> ms_holds b st' (snd (spec_ops xs m))"
  using assms
proof (induction xs arbitrary: st m r)
  case Nil
  then show ?case by (simp add: returnC_def)
next
  case (Cons x xs)
  from Cons.prems(1) have holds: "ms_holds (Suc (b + length xs)) st m" by simp
  have ok_x: "op_ok x" "\<forall>x\<in>set xs. op_ok x" using Cons.prems(2) by auto
  from Cons.prems(3) [unfolded run_list.simps] show ?case
  proof (cases rule: bindC_cases)
    case (error e)
    with run_law [OF holds ok_x(1) error(1) Cons.prems(4)] show ?thesis by simp
  next
    case (ok a s1)
    from ok(2) obtain r1 where rest: "run_list xs s1 = (r1, st')"
      by (cases rule: bindC_cases) (auto simp: returnC_def)
    note step = run_law [OF holds ok_x(1) ok(1) run_list_sound [OF rest Cons.prems(4)]]
    then have "ms_holds (b + length xs) s1 (snd (spec_op x m))" by blast
    from Cons.IH [OF this ok_x(2) rest Cons.prems(4)] step ok(2) rest show ?thesis
      by (auto simp: bindC_def returnC_def case_prod_unfold Let_def)
  qed
qed

end

section \<open>The height of a tree\<close>

lemma list_all2_length_concat:
  "list_all2 (\<lambda>c es. m \<le> length es) cs ess \<Longrightarrow> length cs * m \<le> length (concat ess)"
  by (induction rule: list_all2_induct) auto

lemma node_at_size: "node_at E lo hi s b n nd es \<Longrightarrow> 2 \<le> lo \<Longrightarrow> b * 2 ^ n \<le> length es"
proof (induction n arbitrary: b nd es)
  case 0
  then show ?case by simp
next
  case (Suc n)
  from Suc.prems(1) obtain cs ess where cs: "es = concat ess" "children_at E lo hi s n cs ess" "b \<le> length cs"
    by (auto simp: node_at_Suc)
  have "2 * 2 ^ n \<le> length es'" if "child_at E lo hi s lo n c es'" for c es'
  proof -
    from that have "lo * 2 ^ n \<le> length es'"
      using Suc.IH Suc.prems(2) by (auto simp: child_at_def)
    moreover have "2 * 2 ^ n \<le> lo * (2::nat) ^ n" using Suc.prems(2) by simp
    ultimately show ?thesis by linarith
  qed
  then have "list_all2 (\<lambda>c es. 2 * 2 ^ n \<le> length es) cs ess"
    using cs(2) by (auto elim!: list_all2_mono)
  then have "length cs * (2 * 2 ^ n) \<le> length es"
    unfolding cs(1) by (rule list_all2_length_concat)
  from le_trans [OF mult_le_mono1 [OF cs(3)] this] show ?case by simp
qed

lemma tree_at_size:
  assumes "tree_at E s t n es" "es \<noteq> []" "2 \<le> unat (min_fanout (config t))"
  shows "2 ^ n \<le> length es"
proof -
  obtain nd lo hi where nd: "node_at E lo hi s (if n = 0 then 1 else min 2 lo) n nd es" "2 \<le> lo"
    using assms by (auto simp: tree_at_def root_at_def split: option.splits)
  have "2 ^ n \<le> (if n = 0 then 1 else min 2 lo) * (2::nat) ^ n"
    using nd(2) by auto
  with node_at_size [OF nd] show ?thesis by linarith
qed

section \<open>The tree keeps the contract\<close>

definition tree_op_run :: "extern \<Rightarrow> mode \<Rightarrow> nat \<Rightarrow> map_op \<Rightarrow> map_answer tree_op" where
  "tree_op_run E md fuel x = (case x of
     InsertOp k v \<Rightarrow> bindC (tree_insert E md fuel k v) (\<lambda>_. returnC Done)
   | DeleteOp k \<Rightarrow> bindC (tree_delete E md fuel k) (\<lambda>b. returnC (Removed b))
   | GetOp k \<Rightarrow> bindC read_tree (\<lambda>t. bindC (on_store (tree_get E md fuel t k)) (\<lambda>v. returnC (Answer v))))"

text \<open>There is room for \<open>b\<close> more operations: the level of the root, a byte, does not overflow.\<close>

definition room :: "tree_config \<Rightarrow> nat \<Rightarrow> nat \<Rightarrow> nat \<Rightarrow> bool" where
  "room cfg n m b \<longleftrightarrow> n + b < 256 \<or> 2 \<le> unat (min_fanout cfg) \<and> m + b < 2 ^ 255"

definition tree_holds :: "extern \<Rightarrow> mode \<Rightarrow> nat \<Rightarrow> nat \<Rightarrow> tree \<times> store \<Rightarrow> (key \<Rightarrow> val option) \<Rightarrow> bool" where
  "tree_holds E md fuel b = (\<lambda>(t, s) m. extern_ok E (config t) \<and> avail md s \<and> 256 \<le> fuel
     \<and> (\<exists>n es. tree_at E s t n es \<and> room (config t) n (length es) b \<and> m = entries_map s es))"

lemma room_height:
  assumes "tree_at E s t n es" "room (config t) n (length es) (Suc b)"
  shows "n < 255"
proof (cases "n + Suc b < 256")
  case True
  then show ?thesis by simp
next
  case False
  then have fan: "2 \<le> unat (min_fanout (config t))" "length es < 2 ^ 255"
    using assms(2) by (auto simp: room_def)
  show ?thesis
  proof (cases "es = []")
    case True
    with assms(1) have "n = 0"
      by (auto simp: tree_at_def root_at_def split: option.splits)
    then show ?thesis by simp
  next
    case False
    from tree_at_size [OF assms(1) False fan(1)] fan(2) have "(2::nat) ^ n < 2 ^ 255"
      by linarith
    then show ?thesis by (rule power_less_imp_less_exp [rotated]) simp
  qed
qed

lemma room_step: "room cfg n m (Suc b) \<Longrightarrow> n' \<le> Suc n \<Longrightarrow> m' \<le> Suc m \<Longrightarrow> room cfg n' m' b"
  by (auto simp: room_def)

lemma grows_get_recursive [grows_intros]: "grows E (get_recursive E md fuel h k)"
  by (induction fuel arbitrary: h) (auto intro!: grows_intros)

lemma grows_tree_get [grows_intros]: "grows E (tree_get E md fuel t k)"
  unfolding tree_get_def by (intro grows_intros)

lemma growsT_op_run: "growsT E (tree_op_run E md fuel x)"
  unfolding tree_op_run_def by (cases x) (auto intro!: growsT_intros grows_intros)

lemma tree_op_run_sound:
  "tree_op_run E md fuel x st = (r, st') \<Longrightarrow> collision_free E (snd st') \<Longrightarrow> collision_free E (snd st)"
proof -
  assume run: "tree_op_run E md fuel x st = (r, st')" and cf: "collision_free E (snd st')"
  have "tree_op_run E md fuel x (fst st, snd st) = (r, (fst st', snd st'))"
    using run by simp
  from growsTD [OF growsT_op_run this] cf show "collision_free E (snd st)"
    by (blast intro: collision_free_mono)
qed

lemma insert_op_law:
  assumes "tree_holds E md fuel (Suc b) (t, s) m" "length v < 2 ^ 31"
  shows "achievesT E (tree_insert E md fuel k v) t s
     (\<lambda>_ t' s'. tree_holds E md fuel b (t', s') (m(k \<mapsto> v)))"
proof -
  from assms(1) obtain n es where at: "extern_ok E (config t)" "avail md s" "256 \<le> fuel" "tree_at E s t n es"
    "room (config t) n (length es) (Suc b)" "m = entries_map s es"
    by (auto simp: tree_holds_def)
  note n = room_height [OF at(4,5)]
  have es: "values_ok s es" "sorted_keys es" using at(4) by (auto simp: tree_at_def)
  from n at(3) have fuel: "n < fuel" by simp
  show ?thesis
  proof (rule achievesT_weaken [OF tree_insert_at [OF at(1,2,4) fuel n assms(2)]])
    fix x t' s'
    assume ins: "inserted_at E t s n es k v x t' s'"
    then obtain r n' where r: "repr_value s' r = Some v" "n' \<le> Suc n" "tree_at E s' t' n' (upsert k r es)"
      "extends s s'" "config t' = config t"
      by (auto simp: inserted_at_def)
    have "length (upsert k r es) \<le> Suc (length es)"
      by (simp add: length_upsert [OF es(2)])
    from room_step [OF at(5) r(2) this] have "room (config t') n' (length (upsert k r es)) b"
      by (simp add: r(5))
    moreover have "m(k \<mapsto> v) = entries_map s' (upsert k r es)"
      using entries_map_upsert [OF r(4) es(1) r(1)] at(6) by simp
    ultimately show "tree_holds E md fuel b (t', s') (m(k \<mapsto> v))"
      using at(1-3) r(3-5) by (auto simp: tree_holds_def intro: extends_availI)
  qed
qed

lemma delete_op_law:
  assumes "tree_holds E md fuel (Suc b) (t, s) m"
  shows "achievesT E (tree_delete E md fuel k) t s
     (\<lambda>x t' s'. x = (m k \<noteq> None) \<and> tree_holds E md fuel b (t', s') (m(k := None)))"
proof -
  from assms(1) obtain n es where at: "extern_ok E (config t)" "avail md s" "256 \<le> fuel" "tree_at E s t n es"
    "room (config t) n (length es) (Suc b)" "m = entries_map s es"
    by (auto simp: tree_holds_def)
  note n = room_height [OF at(4,5)]
  have es: "values_ok s es" "sorted_keys es" "bincode_ok E"
    using at(1,4) by (auto simp: tree_at_def extern_ok_def)
  from n at(3) have fuel: "n < fuel" "n < 256" by simp_all
  show ?thesis
  proof (rule achievesT_weaken [OF tree_delete_at [OF es(3) at(2,4) fuel]])
    fix x t' s'
    assume del: "deleted_from E t s n es k x t' s'"
    then obtain n' where r: "n' \<le> n" "tree_at E s' t' n' (delete_key k es)"
      "extends s s'" "config t' = config t" "x = (k \<in> le_key ` set es)"
      by (auto simp: deleted_from_def)
    have "n' \<le> Suc n" "length (delete_key k es) \<le> Suc (length es)"
      using r(1) by (auto simp: length_delete_key)
    from room_step [OF at(5) this] have "room (config t') n' (length (delete_key k es)) b"
      by (simp add: r(4))
    moreover have "m(k := None) = entries_map s' (delete_key k es)"
      using entries_map_delete_key [OF r(3) es(1,2)] at(6) by simp
    moreover have "x = (m k \<noteq> None)"
      using entries_map_in_dom [OF es(1), of k] at(6) r(5) by (auto simp: dom_def)
    ultimately show "x = (m k \<noteq> None) \<and> tree_holds E md fuel b (t', s') (m(k := None))"
      using at(1-3) r(2-4) by (auto simp: tree_holds_def intro: extends_availI)
  qed
qed

lemma get_op_law:
  assumes "tree_holds E md fuel (Suc b) (t, s) m"
  shows "tree_get E md fuel t k s = (Inr (m k), s)" "tree_holds E md fuel b (t, s) m"
proof -
  from assms(1) obtain n es where at: "extern_ok E (config t)" "avail md s" "256 \<le> fuel" "tree_at E s t n es"
    "room (config t) n (length es) (Suc b)" "m = entries_map s es"
    by (auto simp: tree_holds_def)
  from room_height [OF at(4,5)] at(3) have "n < fuel" by simp
  from tree_get_at [OF _ at(2,4) this] at(1,6) show "tree_get E md fuel t k s = (Inr (m k), s)"
    by (simp add: extern_ok_def)
  show "tree_holds E md fuel b (t, s) m"
  proof -
    have "room (config t) n (length es) b" using room_step [OF at(5)] by simp
    with at show ?thesis unfolding tree_holds_def by blast
  qed
qed

lemma tree_op_run_law:
  assumes "tree_holds E md fuel (Suc b) (t, s) m" "op_ok x"
  shows "achievesT E (tree_op_run E md fuel x) t s
     (\<lambda>a t' s'. a = fst (spec_op x m) \<and> tree_holds E md fuel b (t', s') (snd (spec_op x m)))"
proof (cases x)
  case (InsertOp k v)
  with assms(2) have "length v < 2 ^ 31" by simp
  note ins = insert_op_law [OF assms(1) this]
  show ?thesis
    unfolding InsertOp tree_op_run_def map_op.case
    by (rule achievesT_bind [OF ins]) (auto intro: achievesT_return growsT_intros)
next
  case (DeleteOp k)
  show ?thesis
    unfolding DeleteOp tree_op_run_def map_op.case
    by (rule achievesT_bind [OF delete_op_law [OF assms(1)]]) (auto intro: achievesT_return growsT_intros)
next
  case (GetOp k)
  then show ?thesis
    using get_op_law [OF assms(1)]
    by (simp add: tree_op_run_def achievesT_def bindC_def read_tree_def on_store_def returnC_def)
qed

interpretation tm: map_service "tree_op_run E md fuel" "\<lambda>st. collision_free E (snd st)"
  "tree_holds E md fuel" for E md fuel
proof unfold_locales
  show "collision_free E (snd st)"
    if "tree_op_run E md fuel x st = (r, st')" "collision_free E (snd st')" for x st r st'
    using that by (rule tree_op_run_sound)
next
  show "r = Inr (fst (spec_op x m)) \<and> tree_holds E md fuel b st' (snd (spec_op x m))"
    if "tree_holds E md fuel (Suc b) st m" "op_ok x" "tree_op_run E md fuel x st = (r, st')"
      "collision_free E (snd st')" for b st m x r st'
    using that tree_op_run_law [of E md fuel b "fst st" "snd st" m x]
    by (cases st; cases st') (auto simp: achievesT_def)
qed

text \<open>A sequence of operations; the client of the locale, written out for the tree.\<close>

fun tree_ops :: "extern \<Rightarrow> mode \<Rightarrow> nat \<Rightarrow> map_op list \<Rightarrow> map_answer list tree_op" where
  "tree_ops E md fuel [] = returnC []"
| "tree_ops E md fuel (x # xs) =
     bindC (tree_op_run E md fuel x) (\<lambda>a. bindC (tree_ops E md fuel xs) (\<lambda>as. returnC (a # as)))"

lemma tree_ops_eq: "tm.run_list E md fuel xs = tree_ops E md fuel xs"
  by (induction xs) simp_all

lemmas tree_ops_spec = tm.run_list_spec [unfolded tree_ops_eq]

lemma growsT_tree_ops [growsT_intros]: "growsT E (tree_ops E md fuel xs)"
  by (induction xs) (auto intro!: growsT_intros growsT_op_run)

lemma tree_holds_new:
  assumes "new_tree cfg = Inr t" "unat (min_fanout cfg) < 2 ^ 31" "extern_ok E cfg" "store_ok E s"
    and "avail md s" "256 \<le> fuel" "room cfg 0 0 b"
  shows "tree_holds E md fuel b (t, s) Map.empty"
proof -
  have "config t = cfg" using assms(1) by (auto simp: new_tree_def split: if_splits)
  moreover have "entries_map s [] = Map.empty" by (simp add: entries_map_def fun_eq_iff)
  ultimately show ?thesis
    using tree_at_new [OF assms(1,2,4)] assms(3,5-7)
    by (auto simp: tree_holds_def intro!: exI [of _ "0::nat"] exI [of _ "[]"])
qed

end
