(* ===== verification/Sample_Extern.thy ===== *)
theory Sample_Extern
  imports Map_Contract
begin

text \<open>
  One concrete choice of the third-party functions, on which the hypotheses about them hold and
  operations can be evaluated: hashing is the identity, so it has no collisions, a node is written
  with a length before each string and list, and a long value is cut in two. It models no code.
\<close>

section \<open>Lengths and lists\<close>

fun put_nat :: "nat \<Rightarrow> bytes" where
  "put_nat n = (if n < 255 then [of_nat n] else 255 # put_nat (n - 255))"

declare put_nat.simps [simp del]

fun get_nat :: "bytes \<Rightarrow> (nat \<times> bytes) option" where
  "get_nat [] = None"
| "get_nat (b # bs) =
     (if b = 255 then (case get_nat bs of None \<Rightarrow> None | Some (n, r) \<Rightarrow> Some (n + 255, r))
      else Some (unat b, bs))"

lemma get_put_nat: "get_nat (put_nat n @ r) = Some (n, r)"
proof (induction n rule: put_nat.induct)
  case (1 n)
  show ?case
  proof (cases "n < 255")
    case True
    have "unat (of_nat n :: u8) = n"
      using True by (simp add: unat_of_nat take_bit_eq_mod)
    moreover from this have "(of_nat n :: u8) \<noteq> 255"
      using True by auto
    ultimately show ?thesis
      using True by (simp add: put_nat.simps [of n])
  next
    case False
    with 1 show ?thesis by (simp add: put_nat.simps [of n])
  qed
qed

definition put_bytes :: "bytes \<Rightarrow> bytes" where
  "put_bytes b = put_nat (length b) @ b"

definition get_bytes :: "bytes \<Rightarrow> (bytes \<times> bytes) option" where
  "get_bytes s = (case get_nat s of None \<Rightarrow> None
     | Some (n, r) \<Rightarrow> if n \<le> length r then Some (take n r, drop n r) else None)"

lemma get_put_bytes: "get_bytes (put_bytes b @ r) = Some (b, r)"
  by (simp add: get_bytes_def put_bytes_def get_put_nat)

definition put_all :: "('a \<Rightarrow> bytes) \<Rightarrow> 'a list \<Rightarrow> bytes" where
  "put_all f xs = put_nat (length xs) @ concat (map f xs)"

fun get_n :: "(bytes \<Rightarrow> ('a \<times> bytes) option) \<Rightarrow> nat \<Rightarrow> bytes \<Rightarrow> ('a list \<times> bytes) option" where
  "get_n g 0 s = Some ([], s)"
| "get_n g (Suc n) s = (case g s of None \<Rightarrow> None
     | Some (x, r) \<Rightarrow> (case get_n g n r of None \<Rightarrow> None | Some (xs, r') \<Rightarrow> Some (x # xs, r')))"

definition get_all :: "(bytes \<Rightarrow> ('a \<times> bytes) option) \<Rightarrow> bytes \<Rightarrow> ('a list \<times> bytes) option" where
  "get_all g s = (case get_nat s of None \<Rightarrow> None | Some (n, r) \<Rightarrow> get_n g n r)"

lemma get_put_all:
  assumes "\<And>x r. g (f x @ r) = Some (x, r)"
  shows "get_all g (put_all f xs @ r) = Some (xs, r)"
proof -
  have "get_n g (length xs) (concat (map f xs) @ r) = Some (xs, r)"
    by (induction xs) (simp_all add: assms)
  then show ?thesis by (simp add: get_all_def put_all_def get_put_nat)
qed

section \<open>Nodes\<close>

fun put_value :: "value_repr \<Rightarrow> bytes" where
  "put_value (Inline v) = 0 # put_bytes v"
| "put_value (Chunked h) = 1 # put_bytes h"
| "put_value (ChunkedSequence hs n) = 2 # put_nat (unat n) @ put_all put_bytes hs"

fun get_value :: "bytes \<Rightarrow> (value_repr \<times> bytes) option" where
  "get_value [] = None"
| "get_value (b # s) =
     (if b = 0 then map_option (\<lambda>(v, r). (Inline v, r)) (get_bytes s)
      else if b = 1 then map_option (\<lambda>(h, r). (Chunked h, r)) (get_bytes s)
      else case get_nat s of None \<Rightarrow> None
        | Some (n, r) \<Rightarrow> map_option (\<lambda>(hs, r). (ChunkedSequence hs (of_nat n), r)) (get_all get_bytes r))"

lemma get_put_value: "get_value (put_value v @ r) = Some (v, r)"
  by (cases v) (simp_all add: get_put_bytes get_put_nat get_put_all)

definition put_leaf_entry :: "leaf_entry \<Rightarrow> bytes" where
  "put_leaf_entry e = put_bytes (le_key e) @ put_value (le_value e)"

definition get_leaf_entry :: "bytes \<Rightarrow> (leaf_entry \<times> bytes) option" where
  "get_leaf_entry s = (case get_bytes s of None \<Rightarrow> None
     | Some (k, r) \<Rightarrow> map_option (\<lambda>(v, r'). (\<lparr>le_key = k, le_value = v\<rparr>, r')) (get_value r))"

lemma get_put_leaf_entry: "get_leaf_entry (put_leaf_entry e @ r) = Some (e, r)"
  by (simp add: get_leaf_entry_def put_leaf_entry_def get_put_bytes get_put_value)

definition put_internal_entry :: "internal_entry \<Rightarrow> bytes" where
  "put_internal_entry c = put_bytes (boundary_key c) @ put_bytes (child_hash c) @ put_nat (unat (num_items_subtree c))"

definition get_internal_entry :: "bytes \<Rightarrow> (internal_entry \<times> bytes) option" where
  "get_internal_entry s = (case get_bytes s of None \<Rightarrow> None
     | Some (k, r) \<Rightarrow> (case get_bytes r of None \<Rightarrow> None
       | Some (h, r') \<Rightarrow> map_option (\<lambda>(n, r').
           (\<lparr>boundary_key = k, child_hash = h, num_items_subtree = of_nat n\<rparr>, r')) (get_nat r')))"

lemma get_put_internal_entry: "get_internal_entry (put_internal_entry c @ r) = Some (c, r)"
  by (simp add: get_internal_entry_def put_internal_entry_def get_put_bytes get_put_nat)

fun put_node :: "node \<Rightarrow> bytes" where
  "put_node (Leaf l es) = 0 # l # put_all put_leaf_entry es"
| "put_node (Internal l cs) = 1 # l # put_all put_internal_entry cs"

fun get_node :: "bytes \<Rightarrow> (node \<times> bytes) option" where
  "get_node (t # l # s) =
     (if t = 0 then map_option (\<lambda>(es, r). (Leaf l es, r)) (get_all get_leaf_entry s)
      else map_option (\<lambda>(cs, r). (Internal l cs, r)) (get_all get_internal_entry s))"
| "get_node _ = None"

lemma get_put_node: "get_node (put_node nd @ r) = Some (nd, r)"
  by (cases nd) (simp_all add: get_put_all get_put_leaf_entry get_put_internal_entry)

section \<open>The functions together\<close>

definition sample :: extern where
  "sample = \<lparr>blake3 = id,
     bincode_serialize = (\<lambda>nd. Some (put_node nd)),
     bincode_deserialize = (\<lambda>b. map_option fst (get_node b)),
     fastcdc = (\<lambda>v a b c. Some (let h = length v div 2 in [(0, h), (h, length v - h)]))\<rparr>"

lemma sample_bincode_ok: "bincode_ok sample"
  using get_put_node [where r = "[]"] by (simp add: bincode_ok_def sample_def)

lemma sample_extern_ok: "extern_ok sample cfg"
  by (auto simp: extern_ok_def sample_bincode_ok fastcdc_ok_def fastcdc_accepts_def)
    (auto simp: sample_def cdc_slice_def Let_def)

lemma sample_collision_free: "collision_free sample s"
  by (simp add: collision_free_def sample_def)

text \<open>A small configuration: at most four entries in a node, at least two, values above four bytes are cut.\<close>

definition sample_config :: tree_config where
  "sample_config = \<lparr>target_fanout = 4, min_fanout = 2, cdc_min_size = 64, cdc_avg_size = 256,
     cdc_max_size = 1024, max_inline_value_size = 4\<rparr>"

definition sample_tree :: tree where
  "sample_tree = \<lparr>root_hash = None, config = sample_config\<rparr>"

lemma sample_new_tree: "new_tree sample_config = Inr sample_tree"
  by (simp add: new_tree_def config_rejected_def sample_config_def sample_tree_def word_less_nat_alt)

lemma sample_holds:
  assumes "256 \<le> fuel" "b < 2 ^ 255"
  shows "tree_holds sample md fuel b (sample_tree, new_store) Map.empty"
  by (rule tree_holds_new [OF sample_new_tree _ sample_extern_ok store_ok_new _ assms(1)])
    (use assms(2) in \<open>simp_all add: sample_config_def avail_def new_store_def room_def\<close>)

text \<open>The tree and the store after some operations on the empty tree.\<close>

definition sample_after :: "map_op list \<Rightarrow> tree \<times> store" where
  "sample_after ops = snd (tree_ops sample Sync 256 ops (sample_tree, new_store))"

lemma sample_reached:
  assumes "sample_after ops = (t, s)" "\<forall>x\<in>set ops. op_ok x" "length ops < 2 ^ 16"
  obtains n es where "tree_at sample s t n es" "n < 255" "avail md s" "config t = sample_config"
    "entries_map s es = snd (spec_ops ops Map.empty)"
proof -
  obtain r where run: "tree_ops sample Sync 256 ops (sample_tree, new_store) = (r, (t, s))"
    using assms(1) by (cases "tree_ops sample Sync 256 ops (sample_tree, new_store)") (simp add: sample_after_def)
  have cfg: "config t = config sample_tree"
    using growsTD [OF growsT_tree_ops run] by blast
  have "Suc 0 + length ops < 2 ^ 255"
    using less_trans [OF assms(3), of "2 ^ 255 - 1"] by simp
  then have holds: "tree_holds sample Sync 256 (Suc 0 + length ops) (sample_tree, new_store) Map.empty"
    by (intro sample_holds) simp_all
  from tree_ops_spec [OF holds assms(2) run] sample_collision_free
  have "tree_holds sample Sync 256 (Suc 0) (t, s) (snd (spec_ops ops Map.empty))" by simp
  then obtain n es where at: "tree_at sample s t n es" "avail Sync s" "room (config t) n (length es) (Suc 0)"
    "entries_map s es = snd (spec_ops ops Map.empty)"
    by (auto simp: tree_holds_def)
  have "avail md s" using at(2) by (cases md) (auto simp: avail_def)
  moreover have "config t = sample_config" using cfg by (simp add: sample_tree_def)
  ultimately show thesis
    using that [OF at(1) room_height [OF at(1,3)]] at(4) by simp
qed

section \<open>Stores made by hand\<close>

definition sample_leaf :: "u8 list \<Rightarrow> leaf_entry list" where
  "sample_leaf ks = map (\<lambda>k. \<lparr>le_key = [k], le_value = Inline [k]\<rparr>) ks"

definition sample_store :: "node list \<Rightarrow> store" where
  "sample_store nds = \<lparr>chunks = map (\<lambda>nd. (put_node nd, put_node nd)) nds, lock = Unlocked,
     history = set (map put_node nds)\<rparr>"

definition sample_child :: "u8 list \<Rightarrow> internal_entry" where
  "sample_child ks = \<lparr>boundary_key = [last ks], child_hash = put_node (Leaf 0 (sample_leaf ks)),
     num_items_subtree = of_nat (length ks)\<rparr>"

lemma put_node_inj: "put_node x = put_node y \<longleftrightarrow> x = y"
proof
  assume "put_node x = put_node y"
  then have "get_node (put_node x @ []) = get_node (put_node y @ [])" by simp
  then show "x = y" unfolding get_put_node by simp
qed simp

lemma sample_store_ok: "distinct nds \<Longrightarrow> store_ok sample (sample_store nds)"
  by (auto simp: store_ok_def sample_store_def sample_def comp_def distinct_map inj_on_def put_node_inj)

lemma sample_stored:
  assumes "nd \<in> set nds"
  shows "stored sample (sample_store nds) (put_node nd) nd"
proof -
  have "map_of (map (\<lambda>nd. (put_node nd, put_node nd)) nds) (put_node nd) = Some (put_node nd)"
    using assms by (induction nds) (auto simp: put_node_inj)
  then show ?thesis by (simp add: stored_def sample_store_def sample_def)
qed

lemma sample_store_avail: "avail md (sample_store nds)"
  by (simp add: avail_def sample_store_def)

lemma sample_child_at:
  assumes "Leaf 0 (sample_leaf ks) \<in> set nds" "ks \<noteq> []" "b \<le> length ks" "length ks \<le> hi"
  shows "child_at sample lo hi (sample_store nds) b 0 (sample_child ks) (sample_leaf ks)"
  using sample_stored [OF assms(1)] assms(2-4)
  by (auto simp: child_at_def sample_child_def sample_leaf_def last_map)

lemma sample_leaf_sorted: "sorted_keys (sample_leaf ks) \<longleftrightarrow> sorted_wrt (<) ks"
  by (simp add: sample_leaf_def comp_def sorted_wrt_map)

end
