(* ===== verification/Tree_Modes.thy ===== *)
theory Tree_Modes
  imports Map_Contract
begin

text \<open>
  Facts about whole trees beyond single keys: the synchronous operations agree with the
  asynchronous ones while nobody holds the lock of the store; batches; opening a tree by its root
  hash and checking out a version; the number of items.
\<close>

section \<open>Synchronous and asynchronous operations\<close>

text \<open>Two computations that agree on every unlocked store, and leave it unlocked.\<close>

definition same_io :: "'a io \<Rightarrow> 'a io \<Rightarrow> bool" where
  "same_io m m' \<longleftrightarrow> (\<forall>s. lock s = Unlocked \<longrightarrow> m s = m' s \<and> lock (snd (m s)) = Unlocked)"

definition same_op :: "'a tree_op \<Rightarrow> 'a tree_op \<Rightarrow> bool" where
  "same_op m m' \<longleftrightarrow> (\<forall>t s. lock s = Unlocked \<longrightarrow> m (t, s) = m' (t, s) \<and> lock (snd (snd (m (t, s)))) = Unlocked)"

named_theorems same_intros "agreement of the two modes"

lemma same_return [same_intros]: "same_io (returnC x) (returnC x)"
  by (simp add: same_io_def returnC_def)

lemma same_throw [same_intros]: "same_io (throwC x) (throwC x)"
  by (simp add: same_io_def throwC_def)

lemma same_liftE [same_intros]: "same_io (liftE r) (liftE r)"
  by (cases r) (simp_all add: same_intros)

lemma same_get [same_intros]: "same_io (store_get Sync h) (store_get Async h)"
  by (simp add: same_io_def get_def get_sync_def)

lemma same_put [same_intros]: "same_io (store_put E Sync b) (store_put E Async b)"
  by (simp add: same_io_def put_def put_sync_def Let_def)

lemmas same_store_simplified [same_intros] = same_get [simplified] same_put [simplified]

lemma same_bind [same_intros]:
  assumes "same_io m m'" "\<And>x. same_io (f x) (f' x)"
  shows "same_io (bindC m f) (bindC m' f')"
  unfolding same_io_def
proof (intro allI impI)
  fix s :: store
  assume "lock s = Unlocked"
  then have m: "m s = m' s" "lock (snd (m s)) = Unlocked" using assms(1) by (auto simp: same_io_def)
  show "bindC m f s = bindC m' f' s \<and> lock (snd (bindC m f s)) = Unlocked"
    using m assms(2) by (cases "m' s"; cases "fst (m' s)") (auto simp: bindC_def same_io_def)
qed

lemma same_if [same_intros]: "same_io a a' \<Longrightarrow> same_io b b' \<Longrightarrow> same_io (if c then a else b) (if c then a' else b')"
  by simp

lemma same_case_option [same_intros]:
  "same_io a a' \<Longrightarrow> (\<And>x. same_io (f x) (f' x)) \<Longrightarrow>
   same_io (case z of None \<Rightarrow> a | Some x \<Rightarrow> f x) (case z of None \<Rightarrow> a' | Some x \<Rightarrow> f' x)"
  by (cases z) auto

lemma same_case_node [same_intros]:
  "(\<And>l es. same_io (f l es) (f' l es)) \<Longrightarrow> (\<And>l cs. same_io (g l cs) (g' l cs)) \<Longrightarrow>
   same_io (case nd of Leaf l es \<Rightarrow> f l es | Internal l cs \<Rightarrow> g l cs)
     (case nd of Leaf l es \<Rightarrow> f' l es | Internal l cs \<Rightarrow> g' l cs)"
  by (cases nd) auto

lemma same_case_search [same_intros]:
  "(\<And>i. same_io (f i) (f' i)) \<Longrightarrow> (\<And>i. same_io (g i) (g' i)) \<Longrightarrow>
   same_io (case r of Found i \<Rightarrow> f i | Missing i \<Rightarrow> g i) (case r of Found i \<Rightarrow> f' i | Missing i \<Rightarrow> g' i)"
  by (cases r) auto

lemma same_case_delete [same_intros]:
  "(\<And>h k. same_io (f h k) (f' h k)) \<Longrightarrow> (\<And>u. same_io (g u) (g' u)) \<Longrightarrow> same_io a a' \<Longrightarrow>
   same_io (case r of NotFound h k \<Rightarrow> f h k | Updated u \<Rightarrow> g u | Merged \<Rightarrow> a)
     (case r of NotFound h k \<Rightarrow> f' h k | Updated u \<Rightarrow> g' u | Merged \<Rightarrow> a')"
  by (cases r) auto

lemma same_case_prod [same_intros]:
  "(\<And>a b. same_io (f a b) (f' a b)) \<Longrightarrow> same_io (case p of (a, b) \<Rightarrow> f a b) (case p of (a, b) \<Rightarrow> f' a b)"
  by (cases p) auto

lemma same_Let [same_intros]: "(\<And>x. same_io (f x) (f' x)) \<Longrightarrow> same_io (let x = z in f x) (let x = z in f' x)"
  by simp

lemma same_load_node [same_intros]: "same_io (load_node E Sync h) (load_node E Async h)"
  unfolding load_node_def by (intro same_intros)

lemma same_store_node [same_intros]:
  "same_io (store_node_and_get_key_hash_pair E Sync nd) (store_node_and_get_key_hash_pair E Async nd)"
  unfolding store_node_and_get_key_hash_pair_def by (intro same_intros)

lemma same_store_chunks [same_intros]: "same_io (store_chunks E Sync v ps) (store_chunks E Async v ps)"
  by (induction ps) (auto intro!: same_intros)

lemma same_prepare [same_intros]: "same_io (prepare_value_repr E Sync cfg v) (prepare_value_repr E Async cfg v)"
  unfolding prepare_value_repr_def by (intro same_intros)

lemma same_load_chunks [same_intros]: "same_io (load_chunks Sync hs acc) (load_chunks Async hs acc)"
  by (induction hs arbitrary: acc) (auto intro!: same_intros)

lemma same_load_value [same_intros]: "same_io (load_value_repr Sync r) (load_value_repr Async r)"
  by (cases r) (auto intro!: same_intros)

lemma same_get_recursive [same_intros]: "same_io (get_recursive E Sync fuel h k) (get_recursive E Async fuel h k)"
  by (induction fuel arbitrary: h) (auto intro!: same_intros)

lemma same_finish_node [same_intros]: "same_io (finish_node E Sync nd sp) (finish_node E Async nd sp)"
  unfolding finish_node_def by (intro same_intros)

lemma same_insert_leaf [same_intros]: "same_io (insert_leaf E Sync cfg l es) (insert_leaf E Async cfg l es)"
  unfolding insert_leaf_def by (intro same_intros)

lemma same_insert_internal [same_intros]:
  "same_io (insert_internal E Sync cfg lvl l cs i u) (insert_internal E Async cfg lvl l cs i u)"
  unfolding insert_internal_def by (intro same_intros)

lemma same_insert_recursive [same_intros]:
  "same_io (insert_recursive E Sync cfg fuel h k v lvl) (insert_recursive E Async cfg fuel h k v lvl)"
  by (induction fuel arbitrary: h lvl) (auto intro!: same_intros)

lemma same_store_siblings [same_intros]:
  "same_io (store_siblings E Sync cs i j p) (store_siblings E Async cs i j p)"
  unfolding store_siblings_def by (intro same_intros)

lemma same_merge [same_intros]:
  "same_io (merge_into_left_sibling_internal E Sync cs i j) (merge_into_left_sibling_internal E Async cs i j)"
  unfolding merge_into_left_sibling_internal_def by (intro same_intros)

lemma same_merge_with_sibling [same_intros]:
  "same_io (merge_with_sibling E Sync cs i) (merge_with_sibling E Async cs i)"
  unfolding merge_with_sibling_def by (intro same_intros)

lemma same_borrow_left [same_intros]:
  "same_io (rebalance_borrow_from_left E Sync cs i j) (rebalance_borrow_from_left E Async cs i j)"
  unfolding rebalance_borrow_from_left_def by (intro same_intros)

lemma same_borrow_right [same_intros]:
  "same_io (rebalance_borrow_from_right E Sync cs i j) (rebalance_borrow_from_right E Async cs i j)"
  unfolding rebalance_borrow_from_right_def by (intro same_intros)

lemma same_borrow_right_or_merge [same_intros]:
  "same_io (borrow_right_or_merge E Sync cfg cs i) (borrow_right_or_merge E Async cfg cs i)"
  unfolding borrow_right_or_merge_def by (intro same_intros)

lemma same_handle_underflow [same_intros]:
  "same_io (handle_underflow_strategy E Sync cfg cs i) (handle_underflow_strategy E Async cfg cs i)"
  unfolding handle_underflow_strategy_def by (intro same_intros)

lemma same_delete_internal [same_intros]:
  "same_io (delete_internal E Sync cfg h l cs i r) (delete_internal E Async cfg h l cs i r)"
  unfolding delete_internal_def by (intro same_intros)

lemma same_delete_recursive [same_intros]:
  "same_io (delete_recursive E Sync cfg fuel h k lvl flag) (delete_recursive E Async cfg fuel h k lvl flag)"
  by (induction fuel arbitrary: h lvl flag) (auto intro!: same_intros)

lemma same_tree_get [same_intros]: "same_io (tree_get E Sync fuel t k) (tree_get E Async fuel t k)"
  unfolding tree_get_def by (intro same_intros)

lemma same_op_return [same_intros]: "same_op (returnC x) (returnC x)"
  by (simp add: same_op_def returnC_def)

lemma same_op_read [same_intros]: "same_op read_tree read_tree"
  by (simp add: same_op_def read_tree_def)

lemma same_op_set_root [same_intros]: "same_op (set_root h) (set_root h)"
  by (simp add: same_op_def set_root_def)

lemma same_op_on_store [same_intros]: "same_io m m' \<Longrightarrow> same_op (on_store m) (on_store m')"
  unfolding same_op_def same_io_def on_store_def by (auto split: prod.splits)

lemma same_op_bind [same_intros]:
  assumes "same_op m m'" "\<And>x. same_op (f x) (f' x)"
  shows "same_op (bindC m f) (bindC m' f')"
  unfolding same_op_def
proof (intro allI impI)
  fix t and s :: store
  assume "lock s = Unlocked"
  then have m: "m (t, s) = m' (t, s)" "lock (snd (snd (m (t, s)))) = Unlocked"
    using assms(1) unfolding same_op_def by metis+
  show "bindC m f (t, s) = bindC m' f' (t, s) \<and> lock (snd (snd (bindC m f (t, s)))) = Unlocked"
    using m assms(2) by (cases "m' (t, s)"; cases "fst (m' (t, s))") (auto simp: bindC_def same_op_def)
qed

lemma same_op_case_option [same_intros]:
  "same_op a a' \<Longrightarrow> (\<And>x. same_op (f x) (f' x)) \<Longrightarrow>
   same_op (case z of None \<Rightarrow> a | Some x \<Rightarrow> f x) (case z of None \<Rightarrow> a' | Some x \<Rightarrow> f' x)"
  by (cases z) auto

lemma same_op_case_prod [same_intros]:
  "(\<And>a b. same_op (f a b) (f' a b)) \<Longrightarrow> same_op (case p of (a, b) \<Rightarrow> f a b) (case p of (a, b) \<Rightarrow> f' a b)"
  by (cases p) auto

lemma same_op_case_node [same_intros]:
  "(\<And>l es. same_op (f l es) (f' l es)) \<Longrightarrow> (\<And>l cs. same_op (g l cs) (g' l cs)) \<Longrightarrow>
   same_op (case nd of Leaf l es \<Rightarrow> f l es | Internal l cs \<Rightarrow> g l cs)
     (case nd of Leaf l es \<Rightarrow> f' l es | Internal l cs \<Rightarrow> g' l cs)"
  by (cases nd) auto

lemma same_op_case_delete [same_intros]:
  "(\<And>h k. same_op (f h k) (f' h k)) \<Longrightarrow> (\<And>u. same_op (g u) (g' u)) \<Longrightarrow> same_op a a' \<Longrightarrow>
   same_op (case r of NotFound h k \<Rightarrow> f h k | Updated u \<Rightarrow> g u | Merged \<Rightarrow> a)
     (case r of NotFound h k \<Rightarrow> f' h k | Updated u \<Rightarrow> g' u | Merged \<Rightarrow> a')"
  by (cases r) auto

lemma same_op_if [same_intros]: "same_op a a' \<Longrightarrow> same_op b b' \<Longrightarrow> same_op (if c then a else b) (if c then a' else b')"
  by simp

lemma same_op_Let [same_intros]: "(\<And>x. same_op (f x) (f' x)) \<Longrightarrow> same_op (let x = z in f x) (let x = z in f' x)"
  by simp

lemma same_tree_insert [same_intros]: "same_op (tree_insert E Sync fuel k v) (tree_insert E Async fuel k v)"
  unfolding tree_insert_def grow_root_def by (intro same_intros)

lemma same_tree_delete [same_intros]: "same_op (tree_delete E Sync fuel k) (tree_delete E Async fuel k)"
  unfolding tree_delete_def collapse_root_def by (intro same_intros)

lemma same_tree_op_run: "same_op (tree_op_run E Sync fuel x) (tree_op_run E Async fuel x)"
  unfolding tree_op_run_def by (cases x) (auto intro!: same_intros)

section \<open>Batches\<close>

lemma insert_all_at:
  assumes "\<forall>kv\<in>set kvs. length (snd kv) < 2 ^ 31"
  shows "tree_holds E Async fuel (b + length kvs) (t, s) m \<Longrightarrow>
    achievesT E (insert_all E fuel kvs) t s
     (\<lambda>_ t' s'. tree_holds E Async fuel b (t', s') (m ++ map_of (rev kvs)))"
  using assms
proof (induction kvs arbitrary: t s m)
  case Nil
  then show ?case by (simp add: achievesT_return)
next
  case (Cons kv kvs)
  have holds: "tree_holds E Async fuel (Suc (b + length kvs)) (t, s) m"
    using Cons.prems(1) by simp
  have v: "length (snd kv) < 2 ^ 31" using Cons.prems(2) by simp
  have upd: "m ++ map_of (rev (kv # kvs)) = m(fst kv \<mapsto> snd kv) ++ map_of (rev kvs)"
    by (cases kv) (simp add: map_add_assoc [symmetric] map_add_upd_left [symmetric])
  show ?case
    unfolding insert_all.simps upd
    by (rule achievesT_bind [OF insert_op_law [OF holds v]])
      (use Cons.IH Cons.prems(2) in \<open>auto intro: growsT_intros\<close>)
qed

lemma insert_batch_at:
  assumes "tree_holds E Async fuel (b + length kvs) (t, s) m" "\<forall>kv\<in>set kvs. length (snd kv) < 2 ^ 31"
  shows "achievesT E (insert_batch E fuel kvs) t s
     (\<lambda>changed t' s'. changed = (root_hash t \<noteq> root_hash t')
        \<and> tree_holds E Async fuel b (t', s') (m ++ map_of (rev kvs)))"
  unfolding insert_batch_def
  by (rule achievesT_read, rule achievesT_bind [OF insert_all_at [OF assms(2,1)]])
    (auto intro!: achievesT_read achievesT_return growsT_intros)

section \<open>Opening and checking out versions\<close>

lemma tree_at_root: "tree_at E s t n es \<Longrightarrow> t' = t \<Longrightarrow> tree_at E s t' n es"
  by simp

lemma from_root_hash_at:
  assumes "bincode_ok E" "tree_at E s t n es" "root_hash t = Some h" "\<not> config_rejected (config t)"
  shows "from_root_hash E h (config t) s = (Inr t, s)"
proof -
  obtain nd where "stored E s h nd"
    using assms(2,3) by (auto simp: tree_at_def root_at_def)
  then obtain b where "chunk_at s h = Some b" "bincode_deserialize E b = Some nd"
    using assms(1) unfolding stored_def bincode_ok_def by (metis option.inject)
  moreover have "\<lparr>root_hash = Some h, config = config t\<rparr> = t"
    using assms(3) by (cases t) simp
  ultimately show ?thesis
    using assms(4) by (simp add: from_root_hash_def comp_simps get_def decode_def)
qed

lemma checkout_at:
  assumes "bincode_ok E" "tree_at E s t0 n es" "config t0 = config t"
  shows "checkout E (root_hash t0) (t, s) = (Inr (root_hash t \<noteq> root_hash t0), (t0, s))"
proof (cases "root_hash t0")
  case None
  then have "t\<lparr>root_hash := None\<rparr> = t0" using assms(3) by (cases t; cases t0) simp
  with None show ?thesis
    by (simp add: checkout_def comp_simps read_tree_def set_root_def)
next
  case (Some h)
  then have t0: "t\<lparr>root_hash := Some h\<rparr> = t0" using assms(3) by (cases t; cases t0) simp
  obtain nd where "stored E s h nd"
    using assms(2) Some by (auto simp: tree_at_def root_at_def)
  from load_node_stored [OF assms(1) _ this, of Async] Some t0 show ?thesis
    by (simp add: checkout_def comp_simps read_tree_def set_root_def on_store_def avail_def)
qed

lemma checkout_missing:
  assumes "chunk_at s h = None"
  shows "checkout E (Some h) (t, s) = (Inl (Err (ChunkNotFound h)), (t, s))"
  using assms
  by (simp add: checkout_def comp_simps read_tree_def set_root_def on_store_def load_node_def get_def)

section \<open>The number of items\<close>

lemma entries_map_card:
  assumes "sorted_keys es" "values_ok s es"
  shows "card (dom (entries_map s es)) = length es"
proof -
  have "dom (entries_map s es) = set (map le_key es)"
    using entries_map_in_dom [OF assms(2)] by auto
  moreover have "distinct (map le_key es)"
    using assms(1) by (simp add: strict_sorted_iff)
  ultimately show ?thesis by (simp add: distinct_card del: set_map)
qed

lemma count_all_items_at:
  assumes "bincode_ok E" "tree_at E s t n es"
  shows "count_all_items E t s = (Inr (of_nat (card (dom (entries_map s es)))), s)"
proof (cases "root_hash t")
  case None
  with assms(2) show ?thesis
    by (simp add: count_all_items_def tree_at_def comp_simps entries_map_def dom_def)
next
  case (Some h)
  then obtain nd lo hi b where nd: "stored E s h nd" "node_at E lo hi s b n nd es"
    using assms(2) by (auto simp: tree_at_def root_at_def)
  have "card (dom (entries_map s es)) = length es"
    using assms(2) entries_map_card by (simp add: tree_at_def)
  with load_node_stored [OF assms(1) _ nd(1), of Async] node_at_item_count [OF nd(2)] Some show ?thesis
    by (simp add: count_all_items_def comp_simps avail_def)
qed

end
