(* ===== verification/Gc.thy ===== *)
theory Gc
  imports Tree_Map
begin

text \<open>
  Garbage collection: \<^verbatim>\<open>GarbageCollector::collect\<close> of \<^verbatim>\<open>src/src/gc.rs\<close> and \<^verbatim>\<open>ProllyTree::gc\<close>. The
  mark phase is a breadth-first search over the references of the chunks that decode as nodes; it
  ends because every round marks a chunk or shortens the queue. The result is exact: what remains
  are the chunks reachable from the live roots, and every tree among them keeps all its entries.
  The error messages of the code also show the hash; the model leaves it out of the text.
\<close>

section \<open>The functions\<close>

fun value_refs :: "value_repr \<Rightarrow> hash list" where
  "value_refs (Inline _) = []"
| "value_refs (Chunked data_hash) = [data_hash]"
| "value_refs (ChunkedSequence chunk_hashes _) = chunk_hashes"

fun node_refs :: "node \<Rightarrow> hash list" where
  "node_refs (Leaf _ entries) = concat (map (\<lambda>e. value_refs (le_value e)) entries)"
| "node_refs (Internal _ children) = map child_hash children"

text \<open>The references of a chunk; a chunk that does not decode is data and has none.\<close>

definition chunk_refs :: "extern \<Rightarrow> bytes \<Rightarrow> hash list" where
  "chunk_refs E b = (case decode E b of Inl _ \<Rightarrow> [] | Inr nd \<Rightarrow> node_refs nd)"

function gc_mark :: "extern \<Rightarrow> hash list \<Rightarrow> hash list \<Rightarrow> hash list \<Rightarrow> store \<Rightarrow> (failure + hash list) \<times> store" where
  "gc_mark E all_store_hashes [] live s = (Inr live, s)"
| "gc_mark E all_store_hashes (h # queue) live s =
     (if h \<in> set live then gc_mark E all_store_hashes queue live s
      else if h \<notin> set all_store_hashes then gc_mark E all_store_hashes queue live s
      else case get h s of
        (Inr (Some b), s1) \<Rightarrow>
          gc_mark E all_store_hashes
            (queue @ filter (\<lambda>r. r \<in> set all_store_hashes \<and> r \<notin> set (h # live)) (chunk_refs E b))
            (h # live) s1
      | (Inr None, s1) \<Rightarrow>
          (Inl (Err (InternalError ''GC: Chunk was expected in store but not found during get.'')), s1)
      | (Inl _, s1) \<Rightarrow> (Inl (Err (StorageError ''GC: Error getting chunk from store'')), s1))"
  by pat_completeness auto
termination
proof (relation "measures [\<lambda>(E, all, queue, live, s). card (set all - set live),
    \<lambda>(E, all, queue, live, s). length queue]", goal_cases)
  case (4 E all h queue live s a s1 b c)
  then have "set all - set (h # live) \<subset> set all - set live" by auto
  then have "card (set all - set (h # live)) < card (set all - set live)"
    by (intro psubset_card_mono) auto
  then show ?case by simp
qed simp_all

definition gc_collect :: "extern \<Rightarrow> hash list \<Rightarrow> nat io" where
  "gc_collect E live_root_hashes =
     bindC all_hashes (\<lambda>hashes.
     if hashes = [] then returnC 0
     else
       let all_store_hashes = remdups hashes;
           queue = filter (\<lambda>h. h \<in> set all_store_hashes) live_root_hashes
       in bindC (gc_mark E all_store_hashes queue []) (\<lambda>live.
          let dead_chunks = filter (\<lambda>h. h \<notin> set live) all_store_hashes
          in bindC (if dead_chunks \<noteq> [] then delete_batch dead_chunks else returnC ()) (\<lambda>_.
             returnC (length dead_chunks))))"

text \<open>\<^verbatim>\<open>ProllyTree::gc\<close> adds the current root to the roots the application names.\<close>

definition tree_gc :: "extern \<Rightarrow> tree \<Rightarrow> hash list \<Rightarrow> nat io" where
  "tree_gc E t app_provided_live_root_hashes =
     gc_collect E (remdups (app_provided_live_root_hashes
       @ (case root_hash t of None \<Rightarrow> [] | Some h \<Rightarrow> [h])))"

section \<open>Reachability\<close>

text \<open>One chunk refers to another one that is in the store.\<close>

definition refers :: "extern \<Rightarrow> store \<Rightarrow> hash \<Rightarrow> hash \<Rightarrow> bool" where
  "refers E s h h' \<longleftrightarrow> (\<exists>b. chunk_at s h = Some b \<and> h' \<in> set (chunk_refs E b)) \<and> chunk_at s h' \<noteq> None"

inductive reachable :: "extern \<Rightarrow> store \<Rightarrow> hash set \<Rightarrow> hash \<Rightarrow> bool" for E s roots where
  root: "h \<in> roots \<Longrightarrow> chunk_at s h \<noteq> None \<Longrightarrow> reachable E s roots h"
| step: "reachable E s roots h \<Longrightarrow> refers E s h h' \<Longrightarrow> reachable E s roots h'"

lemma reachable_stored: "reachable E s roots h \<Longrightarrow> chunk_at s h \<noteq> None"
  by (induction rule: reachable.induct) (auto simp: refers_def)

lemma reachable_least:
  assumes "reachable E s roots h" "{h \<in> roots. chunk_at s h \<noteq> None} \<subseteq> L"
    and "\<And>h h'. h \<in> L \<Longrightarrow> refers E s h h' \<Longrightarrow> h' \<in> L"
  shows "h \<in> L"
  using assms by (induction rule: reachable.induct) auto

section \<open>The mark phase\<close>

text \<open>
  Between two rounds: only reachable chunks are marked or queued, the references of a marked chunk
  are marked or queued, and so are the roots.
\<close>

definition mark_inv :: "extern \<Rightarrow> store \<Rightarrow> hash set \<Rightarrow> hash list \<Rightarrow> hash list \<Rightarrow> bool" where
  "mark_inv E s roots queue live \<longleftrightarrow>
     (\<forall>h\<in>set live \<union> set queue. reachable E s roots h)
     \<and> (\<forall>h\<in>roots. chunk_at s h \<noteq> None \<longrightarrow> h \<in> set live \<union> set queue)
     \<and> (\<forall>h h'. h \<in> set live \<longrightarrow> refers E s h h' \<longrightarrow> h' \<in> set live \<union> set queue)"

lemma mark_inv_skip: "mark_inv E s roots (h # queue) live \<Longrightarrow> h \<in> set live \<Longrightarrow> mark_inv E s roots queue live"
  unfolding mark_inv_def by auto

lemma mark_inv_step:
  assumes "mark_inv E s roots (h # queue) live" "chunk_at s h = Some b"
    and "\<And>h'. h' \<in> set all \<longleftrightarrow> chunk_at s h' \<noteq> None"
  shows "mark_inv E s roots
    (queue @ filter (\<lambda>r. r \<in> set all \<and> r \<notin> set (h # live)) (chunk_refs E b)) (h # live)"
proof -
  let ?new = "filter (\<lambda>r. r \<in> set all \<and> r \<notin> set (h # live)) (chunk_refs E b)"
  have refers: "refers E s h h' \<longleftrightarrow> h' \<in> set (chunk_refs E b) \<and> h' \<in> set all" for h'
    using assms(2,3) by (simp add: refers_def)
  have reach: "reachable E s roots x" if "x \<in> set (h # live) \<union> set queue" for x
    using assms(1) that by (auto simp: mark_inv_def)
  have new: "reachable E s roots x" if "x \<in> set ?new" for x
    using that reach [of h] by (auto simp: refers intro: reachable.step)
  have closed: "x \<in> set (h # live) \<union> set (queue @ ?new)" if "y \<in> set (h # live)" "refers E s y x" for x y
  proof (cases "y = h")
    case True
    with that(2) show ?thesis by (auto simp: refers)
  next
    case False
    with that assms(1) show ?thesis by (auto simp: mark_inv_def)
  qed
  have "x \<in> set (h # live) \<union> set (queue @ ?new)" if "x \<in> roots" "chunk_at s x \<noteq> None" for x
    using that assms(1) by (auto simp: mark_inv_def)
  moreover have "reachable E s roots x" if "x \<in> set (h # live) \<union> set (queue @ ?new)" for x
    using that reach [of x] new [of x] unfolding set_append by blast
  ultimately show ?thesis
    using closed unfolding mark_inv_def by blast
qed

lemma mark_inv_final:
  assumes "mark_inv E s roots [] live"
  shows "h \<in> set live \<longleftrightarrow> reachable E s roots h"
proof
  show "h \<in> set live \<Longrightarrow> reachable E s roots h"
    using assms by (auto simp: mark_inv_def)
  show "reachable E s roots h \<Longrightarrow> h \<in> set live"
    by (rule reachable_least) (use assms in \<open>auto simp: mark_inv_def\<close>)
qed

lemma gc_mark_reachable:
  assumes "mark_inv E s roots queue live" "\<And>h'. h' \<in> set all \<longleftrightarrow> chunk_at s h' \<noteq> None"
  shows "\<exists>marked. gc_mark E all queue live s = (Inr marked, s) \<and> (\<forall>h. h \<in> set marked \<longleftrightarrow> reachable E s roots h)"
  using assms
proof (induction E all queue live s rule: gc_mark.induct)
  case (1 E all live s)
  then show ?case by (auto simp: mark_inv_final)
next
  case (2 E all h queue live s)
  have h: "reachable E s roots h" using "2.prems"(1) by (simp add: mark_inv_def)
  then obtain b where b: "chunk_at s h = Some b" using reachable_stored by blast
  have all: "h \<in> set all" using "2.prems"(2) b by simp
  have found: "get h s = (Inr (Some b), s)" by (simp add: get_def b)
  show ?case
  proof (cases "h \<in> set live")
    case True
    with "2.IH"(1) [OF True mark_inv_skip [OF "2.prems"(1) True] "2.prems"(2)] show ?thesis by simp
  next
    case False
    have "\<not> h \<notin> set all" using all by simp
    from "2.IH"(3) [OF False this found [symmetric] refl refl mark_inv_step [OF "2.prems"(1) b "2.prems"(2)] "2.prems"(2)]
    show ?thesis using False all found by simp
  qed
qed

section \<open>The sweep\<close>

lemma fold_remove_chunk: "fold remove_chunk hs cs = filter (\<lambda>p. fst p \<notin> set hs) cs"
  by (induction hs arbitrary: cs) (auto simp: remove_chunk_def intro!: filter_cong)

lemma map_of_filter_keys: "map_of (filter (\<lambda>p. P (fst p)) cs) h = (if P h then map_of cs h else None)"
  by (induction cs) auto

lemma chunk_at_domain: "h \<in> set (map fst (chunks s)) \<longleftrightarrow> chunk_at s h \<noteq> None"
  by (simp add: map_of_eq_None_iff)

text \<open>What a collection does to the store: it keeps the reachable chunks and counts the others.\<close>

definition collected :: "extern \<Rightarrow> hash set \<Rightarrow> store \<Rightarrow> nat \<Rightarrow> store \<Rightarrow> bool" where
  "collected E roots s count s' \<longleftrightarrow>
     (\<forall>h. chunk_at s' h = (if reachable E s roots h then chunk_at s h else None))
     \<and> count = card {h. chunk_at s h \<noteq> None \<and> \<not> reachable E s roots h}
     \<and> chunks s' = filter (\<lambda>p. reachable E s roots (fst p)) (chunks s)
     \<and> history s' = history s \<and> lock s' = lock s"

lemma gc_collect_at: "\<exists>count s'. gc_collect E roots s = (Inr count, s') \<and> collected E (set roots) s count s'"
proof (cases "chunks s = []")
  case True
  then have "collected E (set roots) s 0 s" by (simp add: collected_def)
  with True show ?thesis
    by (simp add: gc_collect_def all_hashes_def comp_simps)
next
  case False
  let ?all = "remdups (map fst (chunks s))"
  let ?queue = "filter (\<lambda>h. h \<in> set ?all) roots"
  have all: "h \<in> set ?all \<longleftrightarrow> chunk_at s h \<noteq> None" for h
    using chunk_at_domain by simp
  have "mark_inv E s (set roots) ?queue []"
    using all by (auto simp: mark_inv_def intro: reachable.root)
  from gc_mark_reachable [OF this all] obtain live where live:
    "gc_mark E ?all ?queue [] s = (Inr live, s)" "\<And>h. h \<in> set live \<longleftrightarrow> reachable E s (set roots) h"
    by blast
  let ?dead = "filter (\<lambda>h. h \<notin> set live) ?all"
  let ?s = "s\<lparr>chunks := fold remove_chunk ?dead (chunks s)\<rparr>"
  have "set ?dead = {h. chunk_at s h \<noteq> None \<and> \<not> reachable E s (set roots) h}"
    using live(2) all by auto
  moreover have "length ?dead = card (set ?dead)"
    by (simp add: distinct_card del: set_filter)
  ultimately have count: "length ?dead = card {h. chunk_at s h \<noteq> None \<and> \<not> reachable E s (set roots) h}"
    by simp
  have keep: "fold remove_chunk ?dead (chunks s) = filter (\<lambda>p. reachable E s (set roots) (fst p)) (chunks s)"
    unfolding fold_remove_chunk by (rule filter_cong [OF refl]) (force simp: live(2))
  have gone: "collected E (set roots) s (length ?dead) ?s"
    using count keep by (auto simp: collected_def map_of_filter_keys dest: reachable_stored)
  have "?dead = [] \<Longrightarrow> ?s = s" by simp
  then have "gc_collect E roots s = (Inr (length ?dead), ?s)"
    using False live(1)
    by (auto simp: gc_collect_def all_hashes_def comp_simps delete_batch_def Let_def)
  with gone show ?thesis by blast
qed

section \<open>Live trees survive\<close>

text \<open>Every chunk a tree needs is reachable from its root.\<close>

lemma node_at_kept:
  assumes "bincode_ok E" "\<And>h. chunk_at s' h = (if reachable E s roots h then chunk_at s h else None)"
    and "reachable E s roots h" "stored E s h nd" "node_at E lo hi s b n nd es" "values_ok s es"
  shows "stored E s' h nd \<and> node_at E lo hi s' b n nd es \<and> values_ok s' es
     \<and> (\<forall>e\<in>set es. repr_value s' (le_value e) = repr_value s (le_value e))"
  using assms(3-)
proof (induction n arbitrary: h nd b es)
  case 0
  from "0.prems"(2) have st: "stored E s' h nd"
    using assms(2) "0.prems"(1) by (simp add: stored_def)
  obtain by' where by': "chunk_at s h = Some by'" "decode E by' = Inr nd"
    using "0.prems"(2) assms(1) unfolding stored_def bincode_ok_def decode_def
    by (metis option.inject option.simps(5))
  have nd: "nd = Leaf 0 es" using "0.prems"(3) by simp
  have kept: "chunk_at s' r = chunk_at s r" if "e \<in> set es" "r \<in> set (value_refs (le_value e))" for e r
  proof (cases "chunk_at s r")
    case None
    then show ?thesis by (simp add: assms(2))
  next
    case (Some c)
    have "refers E s h r"
      using by' that nd Some by (auto simp: refers_def chunk_refs_def)
    then have "reachable E s roots r" using "0.prems"(1) by (rule reachable.step [rotated])
    then show ?thesis by (simp add: assms(2))
  qed
  have chunks_kept: "chunks_value s' hs = chunks_value s hs" if "\<And>r. r \<in> set hs \<Longrightarrow> chunk_at s' r = chunk_at s r" for hs
    using that by (induction hs) auto
  have "repr_value s' (le_value e) = repr_value s (le_value e)" if "e \<in> set es" for e
    using kept [OF that] chunks_kept by (cases "le_value e") auto
  with st "0.prems"(3,4) show ?case by (simp add: values_ok_def)
next
  case (Suc n)
  from Suc.prems(2) have st: "stored E s' h nd"
    using assms(2) Suc.prems(1) by (simp add: stored_def)
  obtain by' where by': "chunk_at s h = Some by'" "decode E by' = Inr nd"
    using Suc.prems(2) assms(1) unfolding stored_def bincode_ok_def decode_def
    by (metis option.inject option.simps(5))
  obtain cs ess where nd: "nd = Internal (of_nat (Suc n)) cs" "b \<le> length cs" "length cs \<le> hi" "es = concat ess"
    "children_at E lo hi s n cs ess"
    using Suc.prems(3) by (auto simp: node_at_Suc)
  have child: "child_at E lo hi s' lo n c es' \<and> (\<forall>e\<in>set es'. repr_value s' (le_value e) = repr_value s (le_value e))"
    if "c \<in> set cs" "es' \<in> set ess" "child_at E lo hi s lo n c es'" for c es'
  proof -
    from that(3) obtain nd' where nd': "stored E s (child_hash c) nd'" "node_at E lo hi s lo n nd' es'"
      by (rule child_at_stored)
    have "refers E s h (child_hash c)"
      using by' that(1) nd(1) nd'(1) by (auto simp: refers_def chunk_refs_def stored_def)
    then have "reachable E s roots (child_hash c)" using Suc.prems(1) by (rule reachable.step [rotated])
    moreover have "values_ok s es'"
      using that(2) Suc.prems(4) nd(4) by (auto simp: values_ok_def)
    ultimately show ?thesis
      using Suc.IH [OF _ nd'] that(3) by (auto simp: child_at_def)
  qed
  have "children_at E lo hi s' n cs ess"
    using nd(5) child by (auto elim!: list.rel_mono_strong)
  then have at: "node_at E lo hi s' b (Suc n) nd es"
    using nd unfolding node_at_Suc by blast
  have "repr_value s' (le_value e) = repr_value s (le_value e)" if "e \<in> set es" for e
  proof -
    from that nd(4) obtain es' where "es' \<in> set ess" "e \<in> set es'"
      by auto
    then obtain i where i: "i < length ess" "e \<in> set (ess ! i)"
      by (metis in_set_conv_nth)
    with nd(5) have "child_at E lo hi s lo n (cs ! i) (ess ! i)" "i < length cs"
      by (auto simp: list_all2_conv_all_nth)
    with child [of "cs ! i" "ess ! i"] i show ?thesis by simp
  qed
  with st at Suc.prems(4) show ?case by (simp add: values_ok_def)
qed

lemma collected_store_ok: "collected E roots s count s' \<Longrightarrow> store_ok E s \<Longrightarrow> store_ok E s'"
  unfolding collected_def store_ok_def by (auto simp: distinct_map_filter)

lemma tree_at_collected:
  assumes "bincode_ok E" "collected E roots s count s'" "tree_at E s t n es"
    and "root_hash t = None \<or> the (root_hash t) \<in> roots"
  shows "tree_at E s' t n es" "entries_map s' es k = entries_map s es k"
proof -
  have keep: "\<And>h. chunk_at s' h = (if reachable E s roots h then chunk_at s h else None)"
    using assms(2) unfolding collected_def by blast
  have "tree_at E s' t n es \<and> (\<forall>e\<in>set es. repr_value s' (le_value e) = repr_value s (le_value e))"
  proof (cases "root_hash t")
    case None
    with assms(3) collected_store_ok [OF assms(2)] show ?thesis
      by (auto simp: tree_at_def values_ok_def)
  next
    case (Some h)
    obtain nd where nd: "stored E s h nd" "es \<noteq> []"
      "node_at E (unat (min_fanout (config t))) (unat (target_fanout (config t))) s
         (if n = 0 then 1 else min 2 (unat (min_fanout (config t)))) n nd es" "values_ok s es"
      using assms(3) Some by (auto simp: tree_at_def root_at_def)
    have "reachable E s roots h"
      using assms(4) Some nd(1) by (auto simp: stored_def intro: reachable.root)
    from node_at_kept [OF assms(1) keep this nd(1,3,4)] assms(3) Some nd(2) collected_store_ok [OF assms(2)]
    show ?thesis by (auto simp: tree_at_def root_at_def)
  qed
  then show "tree_at E s' t n es" "entries_map s' es k = entries_map s es k"
    by (auto simp: entries_map_def dest!: lookup_key_in_set split: option.splits)
qed

end
