(* ===== verification/Diff.thy ===== *)
theory Diff
  imports Tree_Map
begin

text \<open>
  Differences of two trees in one store: \<^verbatim>\<open>src/src/diff.rs\<close> and \<^verbatim>\<open>ProllyTree::diff\<close>. The code runs the
  comparisons of children concurrently; they only read the store and their results are joined in
  the order of the children, so the model runs them one after the other. One fuel serves the
  recursion and the loop over a subtree; \<open>diff_fuel\<close> says how much is enough. Log messages are
  left out.
\<close>

section \<open>The functions\<close>

record diff_entry =
  de_key :: key
  left_value :: "val option"
  right_value :: "val option"

definition addition :: "key \<Rightarrow> val \<Rightarrow> diff_entry" where
  "addition k right = \<lparr>de_key = k, left_value = None, right_value = Some right\<rparr>"

definition deletion :: "key \<Rightarrow> val \<Rightarrow> diff_entry" where
  "deletion k left = \<lparr>de_key = k, left_value = Some left, right_value = None\<rparr>"

definition modification :: "key \<Rightarrow> val \<Rightarrow> val \<Rightarrow> diff_entry" where
  "modification k left right = \<lparr>de_key = k, left_value = Some left, right_value = Some right\<rparr>"

definition load_node_for_diff :: "extern \<Rightarrow> hash \<Rightarrow> node io" where
  "load_node_for_diff E h = bindC (get h) (\<lambda>found.
     case found of
       None \<Rightarrow> throwC (Err (ChunkNotFound h))
     | Some b \<Rightarrow> liftE (decode E b))"

fun load_value_for_diff :: "value_repr \<Rightarrow> val io" where
  "load_value_for_diff (Inline v) = returnC v"
| "load_value_for_diff (Chunked h) = bindC (get h) (\<lambda>found.
     case found of
       None \<Rightarrow> throwC (Err (ChunkNotFound h))
     | Some b \<Rightarrow> returnC b)"
| "load_value_for_diff (ChunkedSequence hs total_size) =
     (if capacity_ok total_size then load_chunks Async hs [] else throwC Panic)"

text \<open>The loop over the entries of a leaf, and the loop over the queue of nodes.\<close>

fun entry_diffs :: "bool \<Rightarrow> leaf_entry list \<Rightarrow> diff_entry list io" where
  "entry_diffs is_addition [] = returnC []"
| "entry_diffs is_addition (e # es) =
     bindC (load_value_for_diff (le_value e)) (\<lambda>v.
     bindC (entry_diffs is_addition es) (\<lambda>ds.
     returnC ((if is_addition then addition (le_key e) v else deletion (le_key e) v) # ds)))"

fun subtree_diffs :: "extern \<Rightarrow> bool \<Rightarrow> nat \<Rightarrow> hash list \<Rightarrow> diff_entry list io" where
  "subtree_diffs E is_addition fuel [] = returnC []"
| "subtree_diffs E is_addition 0 (h # queue) = throwC OutOfFuel"
| "subtree_diffs E is_addition (Suc fuel) (h # queue) =
     bindC (load_node_for_diff E h) (\<lambda>nd. case nd of
       Leaf _ entries \<Rightarrow>
         bindC (entry_diffs is_addition entries) (\<lambda>ds.
         bindC (subtree_diffs E is_addition fuel queue) (\<lambda>ds'.
         returnC (ds @ ds')))
     | Internal _ children \<Rightarrow>
         subtree_diffs E is_addition fuel (queue @ map child_hash children))"

definition generate_diffs_for_subtree :: "extern \<Rightarrow> nat \<Rightarrow> hash \<Rightarrow> bool \<Rightarrow> diff_entry list io" where
  "generate_diffs_for_subtree E fuel root is_addition = subtree_diffs E is_addition fuel [root]"

text \<open>The merge of two leaves.\<close>

fun diff_leaves :: "leaf_entry list \<Rightarrow> leaf_entry list \<Rightarrow> diff_entry list io" where
  "diff_leaves (e1 # es1) (e2 # es2) =
     (if le_key e1 < le_key e2 then
        bindC (load_value_for_diff (le_value e1)) (\<lambda>v.
        bindC (diff_leaves es1 (e2 # es2)) (\<lambda>ds.
        returnC (deletion (le_key e1) v # ds)))
      else if le_key e2 < le_key e1 then
        bindC (load_value_for_diff (le_value e2)) (\<lambda>v.
        bindC (diff_leaves (e1 # es1) es2) (\<lambda>ds.
        returnC (addition (le_key e2) v # ds)))
      else
        bindC (load_value_for_diff (le_value e1)) (\<lambda>v1.
        bindC (load_value_for_diff (le_value e2)) (\<lambda>v2.
        bindC (diff_leaves es1 es2) (\<lambda>ds.
        returnC (if v1 \<noteq> v2 then modification (le_key e1) v1 v2 # ds else ds)))))"
| "diff_leaves (e1 # es1) [] =
     bindC (load_value_for_diff (le_value e1)) (\<lambda>v.
     bindC (diff_leaves es1 []) (\<lambda>ds.
     returnC (deletion (le_key e1) v # ds)))"
| "diff_leaves [] (e2 # es2) =
     bindC (load_value_for_diff (le_value e2)) (\<lambda>v.
     bindC (diff_leaves [] es2) (\<lambda>ds.
     returnC (addition (le_key e2) v # ds)))"
| "diff_leaves [] [] = returnC []"

text \<open>The merge of the children of two nodes: which subtrees are compared with which.\<close>

fun child_pairs :: "internal_entry list \<Rightarrow> internal_entry list \<Rightarrow> (hash option \<times> hash option) list" where
  "child_pairs (c1 # cs1) (c2 # cs2) =
     (if boundary_key c1 < boundary_key c2 then
        (Some (child_hash c1), None) # child_pairs cs1 (c2 # cs2)
      else if boundary_key c2 < boundary_key c1 then
        (None, Some (child_hash c2)) # child_pairs (c1 # cs1) cs2
      else if child_hash c1 \<noteq> child_hash c2 then
        (Some (child_hash c1), Some (child_hash c2)) # child_pairs cs1 cs2
      else child_pairs cs1 cs2)"
| "child_pairs (c1 # cs1) [] = (Some (child_hash c1), None) # child_pairs cs1 []"
| "child_pairs [] (c2 # cs2) = (None, Some (child_hash c2)) # child_pairs [] cs2"
| "child_pairs [] [] = []"

fun join_all :: "('s, 'e, 'a list) comp list \<Rightarrow> ('s, 'e, 'a list) comp" where
  "join_all [] = returnC []"
| "join_all (m # ms) = bindC m (\<lambda>xs. bindC (join_all ms) (\<lambda>ys. returnC (xs @ ys)))"

fun recursive_diff :: "extern \<Rightarrow> nat \<Rightarrow> hash option \<Rightarrow> hash option \<Rightarrow> diff_entry list io" where
  "recursive_diff E 0 left_hash right_hash = throwC OutOfFuel"
| "recursive_diff E (Suc fuel) left_hash right_hash =
     (if left_hash = right_hash then returnC []
      else case (left_hash, right_hash) of
        (None, Some h2) \<Rightarrow> generate_diffs_for_subtree E fuel h2 True
      | (Some h1, None) \<Rightarrow> generate_diffs_for_subtree E fuel h1 False
      | (Some h1, Some h2) \<Rightarrow>
          bindC (load_node_for_diff E h1) (\<lambda>node1.
          bindC (load_node_for_diff E h2) (\<lambda>node2.
          let full = join_all [generate_diffs_for_subtree E fuel h1 False,
                generate_diffs_for_subtree E fuel h2 True]
          in case (node1, node2) of
            (Leaf _ entries1, Leaf _ entries2) \<Rightarrow> diff_leaves entries1 entries2
          | (Internal l1 children1, Internal l2 children2) \<Rightarrow>
              (if l1 \<noteq> l2 then full
               else join_all (map (\<lambda>(a, b). recursive_diff E fuel a b) (child_pairs children1 children2)))
          | _ \<Rightarrow> full))
      | (None, None) \<Rightarrow> returnC [])"

definition diff_trees :: "extern \<Rightarrow> nat \<Rightarrow> hash option \<Rightarrow> hash option \<Rightarrow> diff_entry list io" where
  "diff_trees E fuel left_root_hash right_root_hash = recursive_diff E fuel left_root_hash right_root_hash"

definition tree_diff :: "extern \<Rightarrow> nat \<Rightarrow> tree \<Rightarrow> hash option \<Rightarrow> diff_entry list io" where
  "tree_diff E fuel t other_root_hash = diff_trees E fuel (root_hash t) other_root_hash"

section \<open>What a list of differences says\<close>

text \<open>
  Every entry is true of the two maps; every key on which they differ, and every key that is
  reported at all, is reported with both of its values. A key on which the maps agree may be
  reported, deleted and added with the same value: the code does that when the boundaries of two
  nodes differ.
\<close>

definition true_entry :: "(key \<Rightarrow> val option) \<Rightarrow> (key \<Rightarrow> val option) \<Rightarrow> diff_entry \<Rightarrow> bool" where
  "true_entry m1 m2 d \<longleftrightarrow> left_value d \<noteq> right_value d
     \<and> (left_value d \<noteq> None \<longrightarrow> m1 (de_key d) = left_value d)
     \<and> (right_value d \<noteq> None \<longrightarrow> m2 (de_key d) = right_value d)"

definition reported :: "(diff_entry \<Rightarrow> val option) \<Rightarrow> diff_entry list \<Rightarrow> key \<Rightarrow> val \<Rightarrow> bool" where
  "reported side ds k v \<longleftrightarrow> (\<exists>d\<in>set ds. de_key d = k \<and> side d = Some v)"

definition touched :: "diff_entry list \<Rightarrow> key \<Rightarrow> bool" where
  "touched ds k \<longleftrightarrow> k \<in> de_key ` set ds"

definition diff_of :: "(key \<Rightarrow> val option) \<Rightarrow> (key \<Rightarrow> val option) \<Rightarrow> diff_entry list \<Rightarrow> bool" where
  "diff_of m1 m2 ds \<longleftrightarrow> (\<forall>d\<in>set ds. true_entry m1 m2 d)
     \<and> (\<forall>k v. m1 k = Some v \<longrightarrow> m2 k \<noteq> Some v \<or> touched ds k \<longrightarrow> reported left_value ds k v)
     \<and> (\<forall>k v. m2 k = Some v \<longrightarrow> m1 k \<noteq> Some v \<or> touched ds k \<longrightarrow> reported right_value ds k v)"

text \<open>Replaying a list of differences: what it adds or modifies wins over what it deletes.\<close>

definition apply_diff :: "diff_entry list \<Rightarrow> (key \<Rightarrow> val option) \<Rightarrow> key \<Rightarrow> val option" where
  "apply_diff ds m k = (case find (\<lambda>d. de_key d = k \<and> right_value d \<noteq> None) ds of
     Some d \<Rightarrow> right_value d
   | None \<Rightarrow> if k \<in> set (map de_key ds) then None else m k)"

lemma diff_of_patch:
  assumes "diff_of m1 m2 ds"
  shows "apply_diff ds m1 = m2"
proof
  fix k
  show "apply_diff ds m1 k = m2 k"
  proof (cases "find (\<lambda>d. de_key d = k \<and> right_value d \<noteq> None) ds")
    case (Some d)
    then have d: "d \<in> set ds" "de_key d = k" "right_value d \<noteq> None"
      unfolding find_Some_iff by (auto dest: nth_mem)
    with assms have "true_entry m1 m2 d" unfolding diff_of_def by blast
    with d have "m2 k = right_value d" by (auto simp: true_entry_def)
    with Some show ?thesis by (simp add: apply_diff_def)
  next
    case None
    then have no: "\<not> reported right_value ds k v" for v
      unfolding find_None_iff reported_def by auto
    show ?thesis
    proof (cases "touched ds k")
      case True
      have "m2 k = None"
      proof (rule ccontr)
        assume "m2 k \<noteq> None"
        then obtain v where "m2 k = Some v" by auto
        with True assms no show False unfolding diff_of_def by blast
      qed
      with None True show ?thesis by (simp add: apply_diff_def touched_def)
    next
      case False
      have "m1 k = m2 k"
      proof (cases "m1 k")
        case None
        with assms no show ?thesis unfolding diff_of_def by (metis not_None_eq)
      next
        case (Some v)
        have "\<not> reported left_value ds k v"
          using False by (auto simp: touched_def reported_def)
        with Some assms show ?thesis unfolding diff_of_def by metis
      qed
      with None False show ?thesis by (simp add: apply_diff_def touched_def)
    qed
  qed
qed

section \<open>Joining differences of parts\<close>

lemma entries_map_key: "entries_map s es k = Some v \<Longrightarrow> k \<in> le_key ` set es"
  using lookup_key_None_iff [of k es] by (auto simp: entries_map_def)

lemma entries_map_append:
  "entries_map s (xs @ ys) k = (if k \<in> le_key ` set xs then entries_map s xs k else entries_map s ys k)"
  using lookup_key_None_iff [of k xs]
  by (auto simp: entries_map_def lookup_key_append split: option.splits)

lemma true_entry_keys:
  assumes "true_entry (entries_map s xs) (entries_map s ys) d"
  shows "de_key d \<in> le_key ` set xs \<union> le_key ` set ys"
proof (cases "left_value d")
  case None
  with assms obtain v where "right_value d = Some v" by (cases "right_value d") (auto simp: true_entry_def)
  with assms have "entries_map s ys (de_key d) = Some v" by (auto simp: true_entry_def)
  then show ?thesis by (blast dest: entries_map_key)
next
  case (Some v)
  with assms have "entries_map s xs (de_key d) = Some v" by (auto simp: true_entry_def)
  then show ?thesis by (blast dest: entries_map_key)
qed

abbreviation diff_ok :: "store \<Rightarrow> leaf_entry list \<Rightarrow> leaf_entry list \<Rightarrow> diff_entry list \<Rightarrow> bool" where
  "diff_ok s xs ys ds \<equiv> diff_of (entries_map s xs) (entries_map s ys) ds"

definition apart :: "leaf_entry list \<Rightarrow> leaf_entry list \<Rightarrow> bool" where
  "apart xs ys \<longleftrightarrow> le_key ` set xs \<inter> le_key ` set ys = {}"

lemma apart_simps [simp]: "apart [] ys" "apart xs []"
  by (simp_all add: apart_def)

lemma sorted_apart: "sorted_keys (xs @ ys) \<Longrightarrow> apart xs ys"
  by (auto simp: apart_def sorted_wrt_append) (metis less_irrefl)

lemma entries_map_appendR:
  assumes "apart xs ys" "k \<in> le_key ` set ys"
  shows "entries_map s (xs @ ys) k = entries_map s ys k"
  using assms by (auto simp: apart_def entries_map_append)

lemma true_entry_parts:
  assumes "apart xs xs'" "apart ys ys'"
  shows "true_entry (entries_map s xs) (entries_map s ys) d \<Longrightarrow>
      true_entry (entries_map s (xs @ xs')) (entries_map s (ys @ ys')) d"
    and "true_entry (entries_map s xs') (entries_map s ys') d \<Longrightarrow>
      true_entry (entries_map s (xs @ xs')) (entries_map s (ys @ ys')) d"
proof -
  have left: "entries_map s (a @ b) k = Some v" if "entries_map s a k = Some v" for a b k v
    using that by (auto simp: entries_map_append dest: entries_map_key)
  have right: "entries_map s (a @ b) k = Some v" if "entries_map s b k = Some v" "apart a b" for a b k v
    using that entries_map_appendR [OF that(2) entries_map_key [OF that(1)]] by simp
  show "true_entry (entries_map s xs) (entries_map s ys) d \<Longrightarrow>
      true_entry (entries_map s (xs @ xs')) (entries_map s (ys @ ys')) d"
    by (cases "left_value d"; cases "right_value d") (auto simp: true_entry_def left)
  show "true_entry (entries_map s xs') (entries_map s ys') d \<Longrightarrow>
      true_entry (entries_map s (xs @ xs')) (entries_map s (ys @ ys')) d"
    by (cases "left_value d"; cases "right_value d") (auto simp: true_entry_def right assms)
qed

text \<open>One half of completeness, for either side.\<close>

lemma reported_parts:
  assumes "apart xs xs'" "apart ys ys'"
    and "de_key ` set ds \<subseteq> le_key ` set xs \<union> le_key ` set ys"
    and "de_key ` set ds' \<subseteq> le_key ` set xs' \<union> le_key ` set ys'"
    and "\<forall>k v. entries_map s xs k = Some v \<longrightarrow> entries_map s ys k \<noteq> Some v \<or> touched ds k \<longrightarrow> reported side ds k v"
    and "\<forall>k v. entries_map s xs' k = Some v \<longrightarrow> entries_map s ys' k \<noteq> Some v \<or> touched ds' k \<longrightarrow> reported side ds' k v"
    and "entries_map s (xs @ xs') k = Some v" "entries_map s (ys @ ys') k \<noteq> Some v \<or> touched (ds @ ds') k"
  shows "reported side (ds @ ds') k v"
proof -
  have keys: "touched ds k \<Longrightarrow> k \<in> le_key ` set xs \<union> le_key ` set ys"
    "touched ds' k \<Longrightarrow> k \<in> le_key ` set xs' \<union> le_key ` set ys'"
    using assms(3,4) unfolding touched_def by blast+
  have either: "touched (ds @ ds') k \<longleftrightarrow> touched ds k \<or> touched ds' k"
    by (auto simp: touched_def)
  have "reported side ds k v \<or> reported side ds' k v"
  proof (cases "k \<in> le_key ` set xs")
    case True
    then have x: "entries_map s xs k = Some v" "k \<notin> le_key ` set xs'"
      using assms(1,7) by (auto simp: entries_map_append apart_def)
    have "entries_map s ys k \<noteq> Some v \<or> touched ds k"
    proof (rule ccontr)
      assume "\<not> ?thesis"
      then have y: "entries_map s ys k = Some v" "\<not> touched ds k" by auto
      then have k: "k \<in> le_key ` set ys" "k \<notin> le_key ` set ys'"
        using assms(2) entries_map_key unfolding apart_def by blast+
      with y(1) have "entries_map s (ys @ ys') k = Some v" by (simp add: entries_map_append)
      with assms(8) either y(2) have "touched ds' k" by blast
      with keys(2) x(2) k(2) show False by blast
    qed
    with x(1) assms(5) show ?thesis by blast
  next
    case False
    then have x: "entries_map s xs' k = Some v"
      using assms(7) by (simp add: entries_map_append)
    have "entries_map s ys' k \<noteq> Some v \<or> touched ds' k"
    proof (rule ccontr)
      assume "\<not> ?thesis"
      then have y: "entries_map s ys' k = Some v" "\<not> touched ds' k" by auto
      then have k: "k \<in> le_key ` set ys'" "k \<notin> le_key ` set ys"
        using assms(2) entries_map_key unfolding apart_def by blast+
      with y(1) entries_map_appendR [OF assms(2)] have "entries_map s (ys @ ys') k = Some v" by simp
      with assms(8) either y(2) have "touched ds k" by blast
      with keys(1) False k(2) show False by blast
    qed
    with x assms(6) show ?thesis by blast
  qed
  then show ?thesis by (auto simp: reported_def)
qed

lemma diff_of_join:
  assumes "diff_ok s xs ys ds" "diff_ok s xs' ys' ds'" "apart xs xs'" "apart ys ys'"
  shows "diff_ok s (xs @ xs') (ys @ ys') (ds @ ds')"
proof -
  note parts = assms(1,2) [unfolded diff_of_def]
  have keys: "de_key ` set ds \<subseteq> le_key ` set xs \<union> le_key ` set ys"
    "de_key ` set ds' \<subseteq> le_key ` set xs' \<union> le_key ` set ys'"
    using parts true_entry_keys by blast+
  have "true_entry (entries_map s (xs @ xs')) (entries_map s (ys @ ys')) d" if "d \<in> set (ds @ ds')" for d
    using that parts true_entry_parts [OF assms(3,4)] by auto
  moreover have "reported left_value (ds @ ds') k v"
    if "entries_map s (xs @ xs') k = Some v" "entries_map s (ys @ ys') k \<noteq> Some v \<or> touched (ds @ ds') k" for k v
    using reported_parts [OF assms(3,4) keys _ _ that] parts by blast
  moreover have "reported right_value (ds @ ds') k v"
    if "entries_map s (ys @ ys') k = Some v" "entries_map s (xs @ xs') k \<noteq> Some v \<or> touched (ds @ ds') k" for k v
    using reported_parts [OF assms(4,3) keys [unfolded Un_commute [of "le_key ` set xs"] Un_commute [of "le_key ` set xs'"]]
        _ _ that] parts by blast
  ultimately show ?thesis unfolding diff_of_def by blast
qed

section \<open>One entry\<close>

lemma entries_map_single:
  "repr_value s (le_value e) = Some v \<Longrightarrow> entries_map s [e] k = (if k = le_key e then Some v else None)"
  by (auto simp: entries_map_def)

lemma entries_map_Nil: "entries_map s [] k = None"
  by (simp add: entries_map_def)

lemma diff_of_same: "diff_of m m []"
  by (simp add: diff_of_def touched_def)

lemma diff_ok_deletion:
  "repr_value s (le_value e) = Some v \<Longrightarrow> diff_ok s [e] [] [deletion (le_key e) v]"
  by (auto simp: diff_of_def true_entry_def reported_def touched_def deletion_def entries_map_single entries_map_Nil
      split: if_splits)

lemma diff_ok_addition:
  "repr_value s (le_value e) = Some v \<Longrightarrow> diff_ok s [] [e] [addition (le_key e) v]"
  by (auto simp: diff_of_def true_entry_def reported_def touched_def addition_def entries_map_single entries_map_Nil
      split: if_splits)

lemma diff_ok_modification:
  assumes "repr_value s (le_value e1) = Some v1" "repr_value s (le_value e2) = Some v2" "le_key e1 = le_key e2"
  shows "diff_ok s [e1] [e2] (if v1 \<noteq> v2 then [modification (le_key e1) v1 v2] else [])"
  using assms
  by (auto simp: diff_of_def true_entry_def reported_def touched_def modification_def
      entries_map_single [OF assms(1)] entries_map_single [OF assms(2)] split: if_splits)

section \<open>Whole subtrees\<close>

lemma load_value_for_diff_eq: "load_value_for_diff r = load_value_repr Async r"
  by (cases r) simp_all

lemma load_value_for_diff_value:
  "repr_value s r = Some v \<Longrightarrow> load_value_for_diff r s = (Inr v, s)"
  by (simp add: load_value_for_diff_eq load_value_repr_value avail_def)

lemma load_node_for_diff_stored:
  "bincode_ok E \<Longrightarrow> stored E s h nd \<Longrightarrow> load_node_for_diff E h s = (Inr nd, s)"
  using load_node_stored [of E Async s h nd] by (simp add: load_node_for_diff_def load_node_def avail_def)

definition whole_diff :: "store \<Rightarrow> bool \<Rightarrow> leaf_entry \<Rightarrow> diff_entry" where
  "whole_diff s is_addition e = (let v = the (repr_value s (le_value e))
     in if is_addition then addition (le_key e) v else deletion (le_key e) v)"

lemma values_ok_simps [simp]:
  "values_ok s []" "values_ok s (e # es) \<longleftrightarrow> (\<exists>v. repr_value s (le_value e) = Some v) \<and> values_ok s es"
  "values_ok s (xs @ ys) \<longleftrightarrow> values_ok s xs \<and> values_ok s ys"
  by (auto simp: values_ok_def)

lemma entry_diffs_whole:
  "values_ok s es \<Longrightarrow> entry_diffs a es s = (Inr (map (whole_diff s a) es), s)"
  by (induction es) (auto simp: comp_simps load_value_for_diff_value whole_diff_def Let_def)

definition sub_at :: "extern \<Rightarrow> nat \<Rightarrow> nat \<Rightarrow> store \<Rightarrow> nat \<Rightarrow> hash \<Rightarrow> leaf_entry list \<Rightarrow> bool" where
  "sub_at E lo hi s n h es \<longleftrightarrow> es \<noteq> [] \<and> (\<exists>nd b. stored E s h nd \<and> node_at E lo hi s b n nd es)"

lemma child_sub_at: "child_at E lo hi s b n c es \<Longrightarrow> sub_at E lo hi s n (child_hash c) es"
  by (auto simp: child_at_def sub_at_def)

lemma subtree_level:
  assumes "bincode_ok E" "list_all2 (sub_at E lo hi s (Suc n)) hs ess"
  shows "\<exists>rs rss. list_all2 (sub_at E lo hi s n) rs rss \<and> concat rss = concat ess
     \<and> (\<forall>f qs. subtree_diffs E a (length hs + f) (hs @ qs) s = subtree_diffs E a f (qs @ rs) s)"
  using assms(2)
proof (induction rule: list_all2_induct)
  case Nil
  show ?case by (rule exI [of _ "[]"], rule exI [of _ "[]"]) simp
next
  case (Cons h hs es ess)
  from Cons.hyps(1) obtain nd b where nd: "stored E s h nd" "node_at E lo hi s b (Suc n) nd es"
    by (auto simp: sub_at_def)
  then obtain cs css where cs: "nd = Internal (of_nat (Suc n)) cs" "es = concat css"
    "children_at E lo hi s n cs css"
    by (auto simp: node_at_Suc)
  from Cons.IH obtain rs rss where rs: "list_all2 (sub_at E lo hi s n) rs rss" "concat rss = concat ess"
    "\<And>f qs. subtree_diffs E a (length hs + f) (hs @ qs) s = subtree_diffs E a f (qs @ rs) s"
    by blast
  have "list_all2 (sub_at E lo hi s n) (map child_hash cs) css"
    using cs(3) by (auto simp: list.rel_map elim!: list_all2_mono intro: child_sub_at)
  with rs(1) have "list_all2 (sub_at E lo hi s n) (map child_hash cs @ rs) (css @ rss)"
    by (rule list_all2_appendI [rotated])
  moreover have "subtree_diffs E a (length (h # hs) + f) ((h # hs) @ qs) s
      = subtree_diffs E a f (qs @ map child_hash cs @ rs) s" for f qs
    using rs(3) [of f "qs @ map child_hash cs"]
    by (simp add: comp_simps load_node_for_diff_stored [OF assms(1) nd(1)] cs(1))
  moreover have "concat (css @ rss) = concat (es # ess)" by (simp add: cs(2) rs(2))
  ultimately show ?case by blast
qed

lemma sub_at_length: "list_all2 (sub_at E lo hi s n) hs ess \<Longrightarrow> length hs \<le> length (concat ess)"
  by (induction rule: list_all2_induct) (auto simp: sub_at_def neq_Nil_conv)

lemma subtree_diffs_at:
  assumes "bincode_ok E" "list_all2 (sub_at E lo hi s n) hs ess" "values_ok s (concat ess)"
    and "Suc n * length (concat ess) \<le> fuel"
  shows "subtree_diffs E a fuel hs s = (Inr (map (whole_diff s a) (concat ess)), s)"
  using assms(2-)
proof (induction n arbitrary: fuel hs ess)
  case 0
  then have "length hs \<le> fuel" using sub_at_length [OF "0.prems"(1)] by simp
  with "0.prems"(1,2) show ?case
  proof (induction arbitrary: fuel rule: list_all2_induct)
    case Nil
    then show ?case by (simp add: comp_simps)
  next
    case (Cons h hs es ess)
    then obtain f where f: "fuel = Suc f" "length hs \<le> f" by (cases fuel) auto
    from Cons.hyps(1) have "stored E s h (Leaf 0 es)" by (auto simp: sub_at_def)
    then show ?case
      using Cons.IH [OF _ f(2)] Cons.prems(1)
      by (simp add: f(1) comp_simps load_node_for_diff_stored [OF assms(1)] entry_diffs_whole)
  qed
next
  case (Suc n)
  from subtree_level [OF assms(1) Suc.prems(1), of a] obtain rs rss where rs:
    "list_all2 (sub_at E lo hi s n) rs rss" "concat rss = concat ess"
    "\<And>f qs. subtree_diffs E a (length hs + f) (hs @ qs) s = subtree_diffs E a f (qs @ rs) s"
    by blast
  have len: "length hs \<le> length (concat ess)" by (rule sub_at_length [OF Suc.prems(1)])
  define f where "f = fuel - length hs"
  have "fuel = length hs + f" "Suc n * length (concat ess) \<le> f"
    using Suc.prems(3) len by (auto simp: f_def)
  with rs(3) [of f "[]"] Suc.IH [OF rs(1), of f] rs(2) Suc.prems(2) show ?case by simp
qed

lemma diff_ok_whole:
  assumes "values_ok s es" "sorted_keys es"
  shows "diff_ok s es [] (map (whole_diff s False) es)" "diff_ok s [] es (map (whole_diff s True) es)"
proof -
  have "diff_ok s es [] (map (whole_diff s False) es) \<and> diff_ok s [] es (map (whole_diff s True) es)"
    using assms
  proof (induction es)
    case Nil
    then show ?case by (simp add: diff_of_same)
  next
    case (Cons e es)
    then obtain v where v: "repr_value s (le_value e) = Some v" by auto
    have ap: "apart [e] es" using Cons.prems(2) sorted_apart [of "[e]" es] by simp
    from Cons have "diff_ok s es [] (map (whole_diff s False) es)" "diff_ok s [] es (map (whole_diff s True) es)"
      by simp_all
    from diff_of_join [OF diff_ok_deletion [OF v] this(1) ap] diff_of_join [OF diff_ok_addition [OF v] this(2) _ ap]
    show ?case by (simp add: whole_diff_def [of _ _ e] v)
  qed
  then show "diff_ok s es [] (map (whole_diff s False) es)" "diff_ok s [] es (map (whole_diff s True) es)"
    by auto
qed

section \<open>The comparison\<close>

lemma diff_leaves_at:
  assumes "values_ok s es1" "values_ok s es2" "sorted_keys es1" "sorted_keys es2"
  shows "\<exists>ds. diff_leaves es1 es2 s = (Inr ds, s) \<and> diff_ok s es1 es2 ds"
  using assms
proof (induction es1 es2 rule: diff_leaves.induct)
  case (1 e1 es1 e2 es2)
  then obtain v1 v2 where v: "repr_value s (le_value e1) = Some v1" "repr_value s (le_value e2) = Some v2"
    by auto
  have ap: "apart [e1] es1" "apart [e2] es2"
    using "1.prems"(3,4) sorted_apart [of "[e1]" es1] sorted_apart [of "[e2]" es2] by simp_all
  consider "le_key e1 < le_key e2" | "le_key e2 < le_key e1" | "le_key e1 = le_key e2" by fastforce
  then show ?case
  proof cases
    case 1
    with "1.IH"(1) "1.prems" obtain ds where ds: "diff_leaves es1 (e2 # es2) s = (Inr ds, s)"
      "diff_ok s es1 (e2 # es2) ds" by auto
    from diff_of_join [OF diff_ok_deletion [OF v(1)] ds(2) ap(1)] 1 ds(1) show ?thesis
      by (simp add: comp_simps load_value_for_diff_value [OF v(1)])
  next
    case 2
    then have not: "\<not> le_key e1 < le_key e2" by auto
    with 2 "1.IH"(2) "1.prems" obtain ds where ds: "diff_leaves (e1 # es1) es2 s = (Inr ds, s)"
      "diff_ok s (e1 # es1) es2 ds" by auto
    from diff_of_join [OF diff_ok_addition [OF v(2)] ds(2) _ ap(2)] 2 not ds(1) show ?thesis
      by (simp add: comp_simps load_value_for_diff_value [OF v(2)])
  next
    case 3
    with "1.IH"(3) "1.prems" obtain ds where ds: "diff_leaves es1 es2 s = (Inr ds, s)"
      "diff_ok s es1 es2 ds" by auto
    from diff_of_join [OF diff_ok_modification [OF v 3] ds(2) ap] 3 ds(1) show ?thesis
      by (auto simp: comp_simps load_value_for_diff_value v)
  qed
next
  case (2 e1 es1)
  then obtain v ds where v: "repr_value s (le_value e1) = Some v"
    and ds: "diff_leaves es1 [] s = (Inr ds, s)" "diff_ok s es1 [] ds" by auto
  have "apart [e1] es1" using "2.prems"(3) sorted_apart [of "[e1]" es1] by simp
  from diff_of_join [OF diff_ok_deletion [OF v] ds(2) this] ds(1) show ?case
    by (simp add: comp_simps load_value_for_diff_value [OF v])
next
  case (3 e2 es2)
  then obtain v ds where v: "repr_value s (le_value e2) = Some v"
    and ds: "diff_leaves [] es2 s = (Inr ds, s)" "diff_ok s [] es2 ds" by auto
  have "apart [e2] es2" using "3.prems"(4) sorted_apart [of "[e2]" es2] by simp
  from diff_of_join [OF diff_ok_addition [OF v] ds(2) _ this] ds(1) show ?case
    by (simp add: comp_simps load_value_for_diff_value [OF v])
next
  case 4
  then show ?case by (simp add: comp_simps diff_of_same)
qed

text \<open>A node stands for one list of entries, whatever the bounds.\<close>

lemma node_at_unique:
  assumes "bincode_ok E"
  shows "node_at E lo hi s b n nd es \<Longrightarrow> node_at E lo' hi' s b' n nd es' \<Longrightarrow> es = es'"
proof (induction n arbitrary: b b' nd es es')
  case 0
  then show ?case by simp
next
  case (Suc n)
  from Suc.prems(1) obtain cs ess where cs: "nd = Internal (of_nat (Suc n)) cs" "es = concat ess"
    "children_at E lo hi s n cs ess"
    by (auto simp: node_at_Suc)
  from Suc.prems(2) cs(1) obtain ess' where ess': "es' = concat ess'" "children_at E lo' hi' s n cs ess'"
    by (auto simp: node_at_Suc)
  have "x = y" if "child_at E lo hi s lo n c x" "child_at E lo' hi' s lo' n c y" for c x y
    using that Suc.IH stored_unique [OF assms] unfolding child_at_def by metis
  then have "ess = ess'"
    using cs(3) ess'(2) by (induction cs arbitrary: ess ess') (auto simp: list_all2_Cons1)
  then show ?case by (simp add: cs(2) ess'(1))
qed

lemma sub_at_unique:
  "bincode_ok E \<Longrightarrow> sub_at E lo hi s n h es \<Longrightarrow> sub_at E lo' hi' s n h es' \<Longrightarrow> es = es'"
  unfolding sub_at_def by (metis node_at_unique stored_unique)

fun side_at :: "extern \<Rightarrow> nat \<Rightarrow> nat \<Rightarrow> store \<Rightarrow> nat \<Rightarrow> hash option \<Rightarrow> leaf_entry list \<Rightarrow> bool" where
  "side_at E lo hi s n None es \<longleftrightarrow> es = []"
| "side_at E lo hi s n (Some h) es \<longleftrightarrow> sub_at E lo hi s n h es"

lemma join_all_Cons:
  assumes "m s = (Inr xs, s)" "join_all ms s = (Inr ys, s)"
  shows "join_all (m # ms) s = (Inr (xs @ ys), s)"
  using assms by (simp add: comp_simps)

declare join_all.simps(2) [simp del]

lemma join_pair:
  assumes "\<exists>ds. rec l r s = (Inr ds, s) \<and> diff_ok s xs ys ds"
    and "\<exists>ds. join_all (map (\<lambda>(a, b). rec a b) ps) s = (Inr ds, s) \<and> diff_ok s xs' ys' ds"
    and "apart xs xs'" "apart ys ys'"
  shows "\<exists>ds. join_all (map (\<lambda>(a, b). rec a b) ((l, r) # ps)) s = (Inr ds, s) \<and> diff_ok s (xs @ xs') (ys @ ys') ds"
proof -
  obtain ds ds' where ds: "rec l r s = (Inr ds, s)" "diff_ok s xs ys ds"
    "join_all (map (\<lambda>(a, b). rec a b) ps) s = (Inr ds', s)" "diff_ok s xs' ys' ds'"
    using assms(1,2) by blast
  from join_all_Cons [of "rec _ _", OF ds(1,3)] diff_of_join [OF ds(2,4) assms(3,4)] show ?thesis by auto
qed

text \<open>The first child of a sorted list of children, and the rest.\<close>

lemma children_ConsE:
  assumes "children_at E lo hi s n (c # cs) ess" "values_ok s (concat ess)" "sorted_keys (concat ess)"
  obtains e ess' where "ess = e # ess'" "sub_at E lo hi s n (child_hash c) e" "children_at E lo hi s n cs ess'"
    "values_ok s e" "values_ok s (concat ess')" "sorted_keys e" "sorted_keys (concat ess')" "apart e (concat ess')"
proof -
  from assms(1) obtain e ess' where e: "ess = e # ess'" "child_at E lo hi s lo n c e" "children_at E lo hi s n cs ess'"
    by (auto simp: list_all2_Cons1)
  with assms(2,3) show thesis
    by (intro that [OF e(1) child_sub_at [OF e(2)] e(3)]) (simp_all add: sorted_wrt_append sorted_apart)
qed

lemma child_pairs_at:
  assumes "bincode_ok E"
    and rec: "\<And>l r xs ys. side_at E lo hi s n l xs \<Longrightarrow> side_at E lo' hi' s n r ys \<Longrightarrow>
      values_ok s xs \<Longrightarrow> values_ok s ys \<Longrightarrow> sorted_keys xs \<Longrightarrow> sorted_keys ys \<Longrightarrow>
      length xs + length ys \<le> w \<Longrightarrow> \<exists>ds. rec l r s = (Inr ds, s) \<and> diff_ok s xs ys ds"
    and "children_at E lo hi s n cs1 ess1" "children_at E lo' hi' s n cs2 ess2"
    and "values_ok s (concat ess1)" "values_ok s (concat ess2)"
    and "sorted_keys (concat ess1)" "sorted_keys (concat ess2)"
    and "length (concat ess1) + length (concat ess2) \<le> w"
  shows "\<exists>ds. join_all (map (\<lambda>(a, b). rec a b) (child_pairs cs1 cs2)) s = (Inr ds, s)
     \<and> diff_ok s (concat ess1) (concat ess2) ds"
  using assms(3-)
proof (induction cs1 cs2 arbitrary: ess1 ess2 rule: child_pairs.induct)
  case (1 c1 cs1 c2 cs2)
  obtain e1 ess1' where e1: "ess1 = e1 # ess1'" "sub_at E lo hi s n (child_hash c1) e1" "children_at E lo hi s n cs1 ess1'"
    and v1: "values_ok s e1" "values_ok s (concat ess1')" "sorted_keys e1" "sorted_keys (concat ess1')" "apart e1 (concat ess1')"
    by (rule children_ConsE [OF "1.prems"(1,3,5)])
  obtain e2 ess2' where e2: "ess2 = e2 # ess2'" "sub_at E lo' hi' s n (child_hash c2) e2" "children_at E lo' hi' s n cs2 ess2'"
    and v2: "values_ok s e2" "values_ok s (concat ess2')" "sorted_keys e2" "sorted_keys (concat ess2')" "apart e2 (concat ess2')"
    by (rule children_ConsE [OF "1.prems"(2,4,6)])
  have le: "length e1 + length e2 \<le> w" "length (concat ess1') + length (concat ess2) \<le> w"
    "length (concat ess1) + length (concat ess2') \<le> w" "length (concat ess1') + length (concat ess2') \<le> w"
    using "1.prems"(7) by (simp_all add: e1(1) e2(1))
  consider (left) "boundary_key c1 < boundary_key c2"
    | (right) "\<not> boundary_key c1 < boundary_key c2" "boundary_key c2 < boundary_key c1"
    | (changed) "\<not> boundary_key c1 < boundary_key c2" "\<not> boundary_key c2 < boundary_key c1" "child_hash c1 \<noteq> child_hash c2"
    | (same) "\<not> boundary_key c1 < boundary_key c2" "\<not> boundary_key c2 < boundary_key c1" "child_hash c1 = child_hash c2"
    by blast
  then show ?case
  proof cases
    case left
    have "\<exists>ds. rec (Some (child_hash c1)) None s = (Inr ds, s) \<and> diff_ok s e1 [] ds"
      using rec [of "Some (child_hash c1)" e1 None "[]"] e1(2) v1(1,3) le(1) by simp
    from join_pair [OF this "1.IH"(1) [OF left e1(3) "1.prems"(2) v1(2) "1.prems"(4) v1(4) "1.prems"(6) le(2)] v1(5)] left
    show ?thesis by (simp add: e1(1))
  next
    case right
    have "\<exists>ds. rec None (Some (child_hash c2)) s = (Inr ds, s) \<and> diff_ok s [] e2 ds"
      using rec [of None "[]" "Some (child_hash c2)" e2] e2(2) v2(1,3) le(1) by simp
    from join_pair [OF this "1.IH"(2) [OF right "1.prems"(1) e2(3) "1.prems"(3) v2(2) "1.prems"(5) v2(4) le(3)] _ v2(5)] right
    show ?thesis by (simp add: e2(1))
  next
    case changed
    have "\<exists>ds. rec (Some (child_hash c1)) (Some (child_hash c2)) s = (Inr ds, s) \<and> diff_ok s e1 e2 ds"
      using rec [of "Some (child_hash c1)" e1 "Some (child_hash c2)" e2] e1(2) e2(2) v1(1,3) v2(1,3) le(1) by simp
    from join_pair [OF this "1.IH"(3) [OF changed e1(3) e2(3) v1(2) v2(2) v1(4) v2(4) le(4)] v1(5) v2(5)] changed
    show ?thesis by (simp add: e1(1) e2(1))
  next
    case same
    then have "\<not> child_hash c1 \<noteq> child_hash c2" by simp
    from "1.IH"(4) [OF same(1,2) this e1(3) e2(3) v1(2) v2(2) v1(4) v2(4) le(4)] obtain ds where
      ds: "join_all (map (\<lambda>(a, b). rec a b) (child_pairs cs1 cs2)) s = (Inr ds, s)"
        "diff_ok s (concat ess1') (concat ess2') ds" by blast
    have "e1 = e2" using sub_at_unique [OF assms(1) e1(2)] e2(2) same(3) by simp
    with diff_of_join [OF diff_of_same [of "entries_map s e1"] ds(2) v1(5)] v2(5) ds(1) same show ?thesis
      by (simp add: e1(1) e2(1))
  qed
next
  case (2 c1 cs1)
  obtain e1 ess1' where e: "ess1 = e1 # ess1'" "sub_at E lo hi s n (child_hash c1) e1" "children_at E lo hi s n cs1 ess1'"
    and v: "values_ok s e1" "values_ok s (concat ess1')" "sorted_keys e1" "sorted_keys (concat ess1')" "apart e1 (concat ess1')"
    by (rule children_ConsE [OF "2.prems"(1,3,5)])
  have "ess2 = []" using "2.prems"(2) by simp
  have "\<exists>ds. rec (Some (child_hash c1)) None s = (Inr ds, s) \<and> diff_ok s e1 [] ds"
    using rec [of "Some (child_hash c1)" e1 None "[]"] e(1,2) v "2.prems"(7) by simp
  moreover have "\<exists>ds. join_all (map (\<lambda>(a, b). rec a b) (child_pairs cs1 [])) s = (Inr ds, s) \<and> diff_ok s (concat ess1') [] ds"
    using "2.IH" [OF e(3), of "[]"] v e(1) "2.prems"(7) by simp
  ultimately show ?case using join_pair [OF _ _ v(5)] \<open>ess2 = []\<close> e(1) by fastforce
next
  case (3 c2 cs2)
  obtain e2 ess2' where e: "ess2 = e2 # ess2'" "sub_at E lo' hi' s n (child_hash c2) e2" "children_at E lo' hi' s n cs2 ess2'"
    and v: "values_ok s e2" "values_ok s (concat ess2')" "sorted_keys e2" "sorted_keys (concat ess2')" "apart e2 (concat ess2')"
    by (rule children_ConsE [OF "3.prems"(2,4,6)])
  have "ess1 = []" using "3.prems"(1) by simp
  have "\<exists>ds. rec None (Some (child_hash c2)) s = (Inr ds, s) \<and> diff_ok s [] e2 ds"
    using rec [of None "[]" "Some (child_hash c2)" e2] e(1,2) v "3.prems"(7) by simp
  moreover have "\<exists>ds. join_all (map (\<lambda>(a, b). rec a b) (child_pairs [] cs2)) s = (Inr ds, s) \<and> diff_ok s [] (concat ess2') ds"
    using "3.IH" [of "[]", OF _ e(3)] v e(1) "3.prems"(7) by simp
  ultimately show ?case using join_pair [OF _ _ _ v(5)] \<open>ess1 = []\<close> e(1) by fastforce
next
  case 4
  then show ?case by (simp add: comp_simps diff_of_same)
qed

text \<open>How much fuel the comparison needs: the nodes of both trees, and one more.\<close>

definition diff_fuel :: "nat \<Rightarrow> leaf_entry list \<Rightarrow> nat \<Rightarrow> leaf_entry list \<Rightarrow> nat" where
  "diff_fuel n xs m ys = Suc (Suc n * length xs + Suc m * length ys)"

lemma level_eq:
  assumes "n < 256" "m < 256"
  shows "(of_nat n :: u8) = of_nat m \<longleftrightarrow> n = m"
  using assms by (simp add: word_of_nat_eq_iff take_bit_eq_mod)

lemma node_at_level: "node_at E lo hi s b n nd es \<Longrightarrow> level nd = of_nat n"
  by (cases n) (auto simp: node_at_Suc)

lemma generate_at:
  assumes "bincode_ok E" "sub_at E lo hi s n h es" "values_ok s es" "sorted_keys es" "Suc n * length es \<le> fuel"
  shows "generate_diffs_for_subtree E fuel h False s = (Inr (map (whole_diff s False) es), s)"
    "generate_diffs_for_subtree E fuel h True s = (Inr (map (whole_diff s True) es), s)"
  using subtree_diffs_at [OF assms(1), of lo hi s n "[h]" "[es]" fuel] assms(2-)
  by (simp_all add: generate_diffs_for_subtree_def)

lemma full_diff_at:
  assumes "bincode_ok E" "sub_at E lo hi s n h1 xs" "sub_at E lo' hi' s m h2 ys"
    and "values_ok s xs" "values_ok s ys" "sorted_keys xs" "sorted_keys ys"
    and "Suc n * length xs \<le> fuel" "Suc m * length ys \<le> fuel"
  shows "\<exists>ds. join_all [generate_diffs_for_subtree E fuel h1 False, generate_diffs_for_subtree E fuel h2 True] s
      = (Inr ds, s) \<and> diff_ok s xs ys ds"
proof -
  note left = generate_at(1) [OF assms(1,2,4,6,8)] and right = generate_at(2) [OF assms(1,3,5,7,9)]
  have "join_all [generate_diffs_for_subtree E fuel h1 False, generate_diffs_for_subtree E fuel h2 True] s
      = (Inr (map (whole_diff s False) xs @ map (whole_diff s True) ys), s)"
    by (simp add: join_all.simps(2) comp_simps left right)
  moreover have "diff_ok s xs ys (map (whole_diff s False) xs @ map (whole_diff s True) ys)"
    using diff_of_join [OF diff_ok_whole(1) [OF assms(4,6)] diff_ok_whole(2) [OF assms(5,7)]] by simp
  ultimately show ?thesis by blast
qed

lemma side_same:
  assumes "bincode_ok E" "side_at E lo hi s n l xs" "side_at E lo' hi' s m l ys" "n < 256" "m < 256"
  shows "xs = ys"
proof (cases l)
  case None
  with assms(2,3) show ?thesis by simp
next
  case (Some h)
  with assms(2,3) have sub: "sub_at E lo hi s n h xs" "sub_at E lo' hi' s m h ys" by auto
  then obtain nd b b' where "node_at E lo hi s b n nd xs" "node_at E lo' hi' s b' m nd ys"
    using stored_unique [OF assms(1)] unfolding sub_at_def by metis
  then have "(of_nat n :: u8) = of_nat m" using node_at_level by metis
  with assms(4,5) have "n = m" by (simp add: level_eq)
  with sub sub_at_unique [OF assms(1)] show ?thesis by blast
qed

text \<open>Two different nodes: the leaves are merged, children of one level are paired, the rest is replaced.\<close>

lemma recursive_diff_nodes:
  assumes "bincode_ok E" "stored E s h1 nd1" "stored E s h2 nd2" "h1 \<noteq> h2"
  shows "recursive_diff E (Suc f) (Some h1) (Some h2) s =
    (let full = join_all [generate_diffs_for_subtree E f h1 False, generate_diffs_for_subtree E f h2 True]
     in case (nd1, nd2) of
          (Leaf _ entries1, Leaf _ entries2) \<Rightarrow> diff_leaves entries1 entries2
        | (Internal l1 children1, Internal l2 children2) \<Rightarrow>
            (if l1 \<noteq> l2 then full
             else join_all (map (\<lambda>(a, b). recursive_diff E f a b) (child_pairs children1 children2)))
        | _ \<Rightarrow> full) s"
  using assms(4) by (simp add: bindC_apply load_node_for_diff_stored [OF assms(1,2)] load_node_for_diff_stored [OF assms(1,3)])

lemma children_diff_at:
  assumes "bincode_ok E"
    and "children_at E lo hi s n cs css" "children_at E lo' hi' s n ds dss"
    and "values_ok s (concat css)" "values_ok s (concat dss)" "sorted_keys (concat css)" "sorted_keys (concat dss)"
    and "Suc n * (length (concat css) + length (concat dss)) < f"
    and IH: "\<And>l r xs ys. side_at E lo hi s n l xs \<Longrightarrow> side_at E lo' hi' s n r ys \<Longrightarrow> values_ok s xs \<Longrightarrow>
      values_ok s ys \<Longrightarrow> sorted_keys xs \<Longrightarrow> sorted_keys ys \<Longrightarrow> diff_fuel n xs n ys \<le> f \<Longrightarrow>
      \<exists>out. recursive_diff E f l r s = (Inr out, s) \<and> diff_ok s xs ys out"
  shows "\<exists>out. join_all (map (\<lambda>(a, b). recursive_diff E f a b) (child_pairs cs ds)) s = (Inr out, s)
    \<and> diff_ok s (concat css) (concat dss) out"
proof (rule child_pairs_at [where w = "length (concat css) + length (concat dss)", OF assms(1) _ assms(2-7) le_refl])
  fix l r as bs
  assume sub: "side_at E lo hi s n l as" "side_at E lo' hi' s n r bs" "values_ok s as" "values_ok s bs"
    "sorted_keys as" "sorted_keys bs" and "length as + length bs \<le> length (concat css) + length (concat dss)"
  from this(7) have "Suc n * (length as + length bs) \<le> Suc n * (length (concat css) + length (concat dss))"
    by (rule mult_le_mono2)
  with assms(8) have "diff_fuel n as n bs \<le> f" by (simp add: diff_fuel_def algebra_simps)
  from IH [OF sub this] show "\<exists>out. recursive_diff E f l r s = (Inr out, s) \<and> diff_ok s as bs out" .
qed

lemma nodes_diff_at:
  assumes "bincode_ok E" "sub_at E lo hi s n h1 xs" "sub_at E lo' hi' s m h2 ys" "h1 \<noteq> h2" "n < 256" "m < 256"
    and "values_ok s xs" "values_ok s ys" "sorted_keys xs" "sorted_keys ys"
    and fuel: "Suc n * length xs + Suc m * length ys \<le> f"
    and IH: "\<And>k l r xs ys. side_at E lo hi s k l xs \<Longrightarrow> side_at E lo' hi' s k r ys \<Longrightarrow> k < n \<Longrightarrow> values_ok s xs \<Longrightarrow>
      values_ok s ys \<Longrightarrow> sorted_keys xs \<Longrightarrow> sorted_keys ys \<Longrightarrow> diff_fuel k xs k ys \<le> f \<Longrightarrow>
      \<exists>out. recursive_diff E f l r s = (Inr out, s) \<and> diff_ok s xs ys out"
  shows "\<exists>out. recursive_diff E (Suc f) (Some h1) (Some h2) s = (Inr out, s) \<and> diff_ok s xs ys out"
proof -
  from assms(2,3) obtain nd1 b1 nd2 b2 where nd: "stored E s h1 nd1" "node_at E lo hi s b1 n nd1 xs"
    "stored E s h2 nd2" "node_at E lo' hi' s b2 m nd2 ys"
    unfolding sub_at_def by blast
  note run = recursive_diff_nodes [OF assms(1) nd(1,3) assms(4)]
  from fuel have "Suc n * length xs \<le> f" "Suc m * length ys \<le> f" by auto
  note full = full_diff_at [OF assms(1-3,7-10) this]
  consider (leaves) "n = 0" "m = 0" | (other) "n \<noteq> m" | (inner) k where "n = Suc k" "m = Suc k"
    by (cases n; cases m) auto
  then show ?thesis
  proof cases
    case leaves
    with nd(2,4) have "nd1 = Leaf 0 xs" "nd2 = Leaf 0 ys" by simp_all
    with diff_leaves_at [OF assms(7-10)] run show ?thesis by simp
  next
    case other
    then have "(of_nat n :: u8) \<noteq> of_nat m" using assms(5,6) by (simp add: level_eq)
    moreover have "n = 0 \<and> nd1 = Leaf 0 xs \<or> (\<exists>cs. nd1 = Internal (of_nat n) cs)"
      using nd(2) by (cases n) (auto simp: node_at_Suc)
    moreover have "m = 0 \<and> nd2 = Leaf 0 ys \<or> (\<exists>ds. nd2 = Internal (of_nat m) ds)"
      using nd(4) by (cases m) (auto simp: node_at_Suc)
    ultimately show ?thesis using full run other by (auto simp del: recursive_diff.simps)
  next
    case inner
    with nd(2,4) obtain cs css ds dss where c: "nd1 = Internal (of_nat n) cs" "xs = concat css" "children_at E lo hi s k cs css"
      "nd2 = Internal (of_nat n) ds" "ys = concat dss" "children_at E lo' hi' s k ds dss"
      by (auto simp: node_at_Suc)
    have "xs \<noteq> []" using assms(2) by (simp add: sub_at_def)
    then have "1 \<le> length xs" by (cases xs) auto
    then have "Suc k * (length xs + length ys) < f" using fuel inner by (simp add: algebra_simps)
    from children_diff_at [OF assms(1) c(3,6) assms(7-10) [unfolded c(2,5)] this [unfolded c(2,5)] IH] c(1,2,4,5) run inner
    show ?thesis by simp
  qed
qed

lemma recursive_diff_at:
  assumes "bincode_ok E"
  shows "side_at E lo hi s n l xs \<Longrightarrow> side_at E lo' hi' s m r ys \<Longrightarrow> n < 256 \<Longrightarrow> m < 256 \<Longrightarrow>
    values_ok s xs \<Longrightarrow> values_ok s ys \<Longrightarrow> sorted_keys xs \<Longrightarrow> sorted_keys ys \<Longrightarrow>
    diff_fuel n xs m ys \<le> fuel \<Longrightarrow>
    \<exists>ds. recursive_diff E fuel l r s = (Inr ds, s) \<and> diff_ok s xs ys ds"
proof (induction fuel arbitrary: n m l r xs ys)
  case 0
  then show ?case by (simp add: diff_fuel_def)
next
  case (Suc f)
  have fuel: "Suc n * length xs + Suc m * length ys \<le> f"
    using Suc.prems(9) by (simp add: diff_fuel_def)
  then have fuels: "Suc n * length xs \<le> f" "Suc m * length ys \<le> f" by auto
  consider (same) "l = r" | (add) h2 where "l = None" "r = Some h2" | (del) h1 where "l = Some h1" "r = None"
    | (both) h1 h2 where "l = Some h1" "r = Some h2" "h1 \<noteq> h2"
    by (cases l; cases r) auto
  then show ?case
  proof cases
    case same
    with side_same [OF assms Suc.prems(1) _ Suc.prems(3,4)] Suc.prems(2) show ?thesis
      by (auto simp: comp_simps intro: diff_of_same)
  next
    case add
    with Suc.prems(1,2) have sub: "sub_at E lo' hi' s m h2 ys" "xs = []" by auto
    from generate_at(2) [OF assms sub(1) Suc.prems(6,8) fuels(2)] diff_ok_whole(2) [OF Suc.prems(6,8)]
    show ?thesis using add sub(2) by simp
  next
    case del
    with Suc.prems(1,2) have sub: "sub_at E lo hi s n h1 xs" "ys = []" by auto
    from generate_at(1) [OF assms sub(1) Suc.prems(5,7) fuels(1)] diff_ok_whole(1) [OF Suc.prems(5,7)]
    show ?thesis using del sub(2) by simp
  next
    case both
    with Suc.prems(1,2) have sub: "sub_at E lo hi s n h1 xs" "sub_at E lo' hi' s m h2 ys" by auto
    show ?thesis
      unfolding both(1,2)
      by (rule nodes_diff_at [OF assms sub both(3) Suc.prems(3-8) fuel], rule Suc.IH)
        (use Suc.prems(3) in auto)
  qed
qed

lemma tree_side_at:
  "tree_at E s t n es \<Longrightarrow> \<exists>lo hi. side_at E lo hi s n (root_hash t) es"
  by (cases "root_hash t") (auto simp: tree_at_def root_at_def sub_at_def)

lemma tree_diff_at:
  assumes "bincode_ok E" "tree_at E s t1 n xs" "tree_at E s t2 m ys" "n < 256" "m < 256"
    and "diff_fuel n xs m ys \<le> fuel"
  shows "\<exists>ds. tree_diff E fuel t1 (root_hash t2) s = (Inr ds, s) \<and> diff_ok s xs ys ds"
proof -
  obtain lo hi lo' hi' where "side_at E lo hi s n (root_hash t1) xs" "side_at E lo' hi' s m (root_hash t2) ys"
    using tree_side_at [OF assms(2)] tree_side_at [OF assms(3)] by blast
  from recursive_diff_at [OF assms(1) this assms(4,5) _ _ _ _ assms(6)] assms(2,3) show ?thesis
    by (simp add: tree_diff_def diff_trees_def tree_at_def)
qed

end
