(* ===== verification/File_Format.thy ===== *)
theory File_Format
  imports Node
begin

text \<open>
  The binary format of a saved tree (\<^verbatim>\<open>src/src/store/format_v2.rs\<close>): the header, an entry of the
  chunk index, the envelope of a content block and the footer, each with what it writes and how it
  is read back. The contract of a written format, that a reader gives back what the writer was
  given and leaves the rest unread, is the locale \<open>wire_format\<close>; every structure interprets it.
\<close>

section \<open>Other crates\<close>

text \<open>
  \<^verbatim>\<open>crc32fast\<close> computes a checksum, \<^verbatim>\<open>byteorder\<close> writes and reads numbers, \<^verbatim>\<open>serde_json\<close> turns the
  metadata into text and back, with an error message on the left. They are fields of a record.
\<close>

record metadata_content =
  md_root_hash :: "hash option"
  md_tree_config :: tree_config
  created_at :: string
  description :: "string option"
  total_chunk_data_bytes :: u64

record file_extern =
  crc32 :: "bytes \<Rightarrow> u32"
  be_put32 :: "u32 \<Rightarrow> bytes"
  be_get32 :: "bytes \<Rightarrow> u32"
  be_put64 :: "u64 \<Rightarrow> bytes"
  be_get64 :: "bytes \<Rightarrow> u64"
  json_to_vec :: "metadata_content \<Rightarrow> string + bytes"
  json_from_slice :: "bytes \<Rightarrow> string + metadata_content"

text \<open>Numbers take four and eight bytes and are read back as written.\<close>

definition byteorder_ok :: "file_extern \<Rightarrow> bool" where
  "byteorder_ok F \<longleftrightarrow>
     (\<forall>w. length (be_put32 F w) = 4 \<and> be_get32 F (be_put32 F w) = w)
     \<and> (\<forall>w. length (be_put64 F w) = 8 \<and> be_get64 F (be_put64 F w) = w)"

text \<open>The metadata of a tree is turned into text and parsed from it.\<close>

definition json_ok :: "file_extern \<Rightarrow> metadata_content \<Rightarrow> bool" where
  "json_ok F m \<longleftrightarrow> (\<exists>b. json_to_vec F m = Inr b \<and> json_from_slice F b = Inr m)"

lemma byteorder_simps:
  assumes "byteorder_ok F"
  shows "length (be_put32 F v) = 4" "be_get32 F (be_put32 F v) = v"
    "length (be_put64 F w) = 8" "be_get64 F (be_put64 F w) = w"
  using assms by (simp_all add: byteorder_ok_def)

section \<open>Constants\<close>

definition FILE_SIGNATURE_V2 :: bytes where
  "FILE_SIGNATURE_V2 = [80, 82, 76, 89, 84, 82, 86, 50]"

definition FORMAT_VERSION_V2 :: u8 where
  "FORMAT_VERSION_V2 = 2"

definition TAG_CHUNK_INDEX_BLOCK :: u8 where
  "TAG_CHUNK_INDEX_BLOCK = 0x20"

definition TAG_METADATA_BLOCK :: u8 where
  "TAG_METADATA_BLOCK = 1"

definition TAG_EOF_BLOCK :: u8 where
  "TAG_EOF_BLOCK = 0xFF"

definition CHUNK_HASH_SIZE :: nat where
  "CHUNK_HASH_SIZE = 32"

definition BLAKE3_CHECKSUM_SIZE :: nat where
  "BLAKE3_CHECKSUM_SIZE = 32"

lemmas format_constants = FILE_SIGNATURE_V2_def FORMAT_VERSION_V2_def TAG_CHUNK_INDEX_BLOCK_def
  TAG_METADATA_BLOCK_def TAG_EOF_BLOCK_def CHUNK_HASH_SIZE_def BLAKE3_CHECKSUM_SIZE_def

section \<open>Readers\<close>

text \<open>
  A reader's state is what is left to read of the file. \<^verbatim>\<open>read_exact\<close> on a slice fails when there
  are too few bytes.
\<close>

type_synonym 'a reader = "(bytes, failure, 'a) comp"

definition read_exact :: "nat \<Rightarrow> bytes reader" where
  "read_exact n = (\<lambda>r. if n \<le> length r then (Inr (take n r), drop n r) else (Inl (Err IoError), []))"

definition read_u8 :: "u8 reader" where
  "read_u8 = bindC (read_exact 1) (\<lambda>b. returnC (hd b))"

definition read_u32 :: "file_extern \<Rightarrow> u32 reader" where
  "read_u32 F = bindC (read_exact 4) (\<lambda>b. returnC (be_get32 F b))"

definition read_u64 :: "file_extern \<Rightarrow> u64 reader" where
  "read_u64 F = bindC (read_exact 8) (\<lambda>b. returnC (be_get64 F b))"

named_theorems read_simps "reading what was written"

lemma read_exact_append [read_simps]: "n = length b \<Longrightarrow> read_exact n (b @ rest) = (Inr b, rest)"
  by (simp add: read_exact_def)

lemma read_exact_short: "length r < n \<Longrightarrow> read_exact n r = (Inl (Err IoError), [])"
  by (simp add: read_exact_def)

lemma read_u8_Cons [read_simps]: "read_u8 (b # rest) = (Inr b, rest)"
  by (simp add: read_u8_def read_exact_def comp_simps)

lemma read_u32_append [read_simps]: "byteorder_ok F \<Longrightarrow> read_u32 F (be_put32 F w @ rest) = (Inr w, rest)"
  by (simp add: read_u32_def read_simps byteorder_simps comp_simps)

lemma read_u64_append [read_simps]: "byteorder_ok F \<Longrightarrow> read_u64 F (be_put64 F w @ rest) = (Inr w, rest)"
  by (simp add: read_u64_def read_simps byteorder_simps comp_simps)

text \<open>A loop that reads \<open>n\<close> items.\<close>

fun read_many :: "'a reader \<Rightarrow> nat \<Rightarrow> 'a list reader" where
  "read_many rd 0 = returnC []"
| "read_many rd (Suc n) = bindC rd (\<lambda>x. bindC (read_many rd n) (\<lambda>xs. returnC (x # xs)))"

section \<open>The contract of a written format\<close>

locale wire_format =
  fixes wr :: "'a \<Rightarrow> bytes"
    and rd :: "'a reader"
    and ok :: "'a \<Rightarrow> bool"
  assumes read_write: "ok x \<Longrightarrow> rd (wr x @ rest) = (Inr x, rest)"
begin

lemma read_many_write:
  "\<forall>x\<in>set xs. ok x \<Longrightarrow> read_many rd (length xs) (concat (map wr xs) @ rest) = (Inr xs, rest)"
  by (induction xs) (simp_all add: comp_simps read_write)

lemma read_write_all: "ok x \<Longrightarrow> rd (wr x) = (Inr x, [])"
  using read_write [of x "[]"] by simp

lemma write_inj: "ok x \<Longrightarrow> ok y \<Longrightarrow> wr x @ r = wr y @ r' \<Longrightarrow> x = y \<and> r = r'"
  by (metis Pair_inject read_write sum.inject(2))

end

section \<open>The header\<close>

record file_header =
  signature :: bytes
  version :: u8
  header_flags :: u8
  offset_metadata :: u64
  offset_chunk_index :: u64
  offset_eof :: u64
  reserved :: bytes

definition new_header :: "u64 \<Rightarrow> u64 \<Rightarrow> u64 \<Rightarrow> file_header" where
  "new_header meta index eof = \<lparr>signature = FILE_SIGNATURE_V2, version = FORMAT_VERSION_V2,
     header_flags = 0, offset_metadata = meta, offset_chunk_index = index, offset_eof = eof,
     reserved = replicate 8 0\<rparr>"

definition header_write :: "file_extern \<Rightarrow> file_header \<Rightarrow> bytes" where
  "header_write F h = signature h @ [version h] @ [header_flags h] @ be_put64 F (offset_metadata h)
     @ be_put64 F (offset_chunk_index h) @ be_put64 F (offset_eof h) @ reserved h"

definition header_read :: "file_extern \<Rightarrow> file_header reader" where
  "header_read F =
     bindC (read_exact 8) (\<lambda>sig.
     bindC read_u8 (\<lambda>ver.
     bindC read_u8 (\<lambda>flags.
     bindC (read_u64 F) (\<lambda>meta.
     bindC (read_u64 F) (\<lambda>index.
     bindC (read_u64 F) (\<lambda>eof.
     bindC (read_exact 8) (\<lambda>res.
     returnC \<lparr>signature = sig, version = ver, header_flags = flags, offset_metadata = meta,
       offset_chunk_index = index, offset_eof = eof, reserved = res\<rparr>)))))))"

definition header_size :: nat where
  "header_size = 8 + 1 + 1 + 8 + 8 + 8 + 8"

text \<open>The two byte arrays have the width their type gives them.\<close>

definition header_ok :: "file_extern \<Rightarrow> file_header \<Rightarrow> bool" where
  "header_ok F h \<longleftrightarrow> byteorder_ok F \<and> length (signature h) = 8 \<and> length (reserved h) = 8"

interpretation hdr: wire_format "header_write F" "header_read F" "header_ok F" for F
  by unfold_locales (simp add: header_ok_def header_write_def header_read_def read_simps comp_simps)

lemma header_write_length: "header_ok F h \<Longrightarrow> length (header_write F h) = header_size"
  by (simp add: header_ok_def header_write_def header_size_def byteorder_simps)

lemma new_header_ok: "byteorder_ok F \<Longrightarrow> header_ok F (new_header meta index eof)"
  by (simp add: header_ok_def new_header_def FILE_SIGNATURE_V2_def)

section \<open>An entry of the chunk index\<close>

record chunk_index_entry =
  ce_hash :: hash
  ce_offset :: u64
  ce_length :: u32
  chunk_type_flags :: u8

definition entry_write :: "file_extern \<Rightarrow> chunk_index_entry \<Rightarrow> bytes" where
  "entry_write F e = ce_hash e @ be_put64 F (ce_offset e) @ be_put32 F (ce_length e) @ [chunk_type_flags e]"

definition entry_read :: "file_extern \<Rightarrow> chunk_index_entry reader" where
  "entry_read F =
     bindC (read_exact CHUNK_HASH_SIZE) (\<lambda>h.
     bindC (read_u64 F) (\<lambda>off.
     bindC (read_u32 F) (\<lambda>len.
     bindC read_u8 (\<lambda>flags.
     returnC \<lparr>ce_hash = h, ce_offset = off, ce_length = len, chunk_type_flags = flags\<rparr>))))"

definition entry_ok :: "file_extern \<Rightarrow> chunk_index_entry \<Rightarrow> bool" where
  "entry_ok F e \<longleftrightarrow> byteorder_ok F \<and> length (ce_hash e) = CHUNK_HASH_SIZE"

interpretation ent: wire_format "entry_write F" "entry_read F" "entry_ok F" for F
  by unfold_locales (simp add: entry_ok_def entry_write_def entry_read_def read_simps comp_simps)

lemma entry_write_length: "entry_ok F e \<Longrightarrow> length (entry_write F e) = 45"
  by (simp add: entry_ok_def entry_write_def byteorder_simps CHUNK_HASH_SIZE_def)

section \<open>The envelope of a content block\<close>

record envelope =
  env_tag :: u8
  content_length :: u32
  content_checksum :: u32

definition new_envelope :: "u8 \<Rightarrow> u32 \<Rightarrow> u32 \<Rightarrow> envelope" where
  "new_envelope t len crc = \<lparr>env_tag = t, content_length = len, content_checksum = crc\<rparr>"

definition envelope_write :: "file_extern \<Rightarrow> envelope \<Rightarrow> bytes" where
  "envelope_write F e = [env_tag e] @ be_put32 F (content_length e) @ be_put32 F (content_checksum e)"

definition envelope_read :: "file_extern \<Rightarrow> envelope reader" where
  "envelope_read F =
     bindC read_u8 (\<lambda>t.
     bindC (read_u32 F) (\<lambda>len.
     bindC (read_u32 F) (\<lambda>crc.
     returnC \<lparr>env_tag = t, content_length = len, content_checksum = crc\<rparr>)))"

definition envelope_size :: nat where
  "envelope_size = 1 + 4 + 4"

interpretation env: wire_format "envelope_write F" "envelope_read F" "\<lambda>_. byteorder_ok F" for F
  by unfold_locales (simp add: envelope_write_def envelope_read_def read_simps comp_simps)

lemma envelope_write_length: "byteorder_ok F \<Longrightarrow> length (envelope_write F e) = envelope_size"
  by (simp add: envelope_write_def envelope_size_def byteorder_simps)

section \<open>The footer\<close>

record eof_block =
  eof_tag :: u8
  offset_metadata_repeated :: u64
  offset_chunk_index_repeated :: u64
  signature_repeated :: bytes
  overall_file_checksum :: "bytes option"

definition eof_write :: "file_extern \<Rightarrow> eof_block \<Rightarrow> bytes" where
  "eof_write F e = [eof_tag e] @ be_put64 F (offset_metadata_repeated e)
     @ be_put64 F (offset_chunk_index_repeated e) @ signature_repeated e
     @ (case overall_file_checksum e of Some checksum \<Rightarrow> checksum | None \<Rightarrow> [])"

definition eof_read :: "file_extern \<Rightarrow> bool \<Rightarrow> eof_block reader" where
  "eof_read F has_overall_checksum =
     bindC read_u8 (\<lambda>t.
     bindC (read_u64 F) (\<lambda>meta.
     bindC (read_u64 F) (\<lambda>index.
     bindC (read_exact 8) (\<lambda>sig.
     bindC (if has_overall_checksum
            then bindC (read_exact BLAKE3_CHECKSUM_SIZE) (\<lambda>s. returnC (Some s))
            else returnC None) (\<lambda>checksum.
     returnC \<lparr>eof_tag = t, offset_metadata_repeated = meta, offset_chunk_index_repeated = index,
       signature_repeated = sig, overall_file_checksum = checksum\<rparr>)))))"

definition eof_ok :: "file_extern \<Rightarrow> bool \<Rightarrow> eof_block \<Rightarrow> bool" where
  "eof_ok F has_sum e \<longleftrightarrow> byteorder_ok F \<and> length (signature_repeated e) = 8
     \<and> (case overall_file_checksum e of
          None \<Rightarrow> \<not> has_sum | Some s \<Rightarrow> has_sum \<and> length s = BLAKE3_CHECKSUM_SIZE)"

interpretation eof: wire_format "eof_write F" "eof_read F has_sum" "eof_ok F has_sum" for F has_sum
  by unfold_locales
    (auto simp: eof_ok_def eof_write_def eof_read_def read_simps comp_simps split: option.splits)

section \<open>Checksums\<close>

definition calculate_crc32 :: "file_extern \<Rightarrow> bytes \<Rightarrow> u32" where
  "calculate_crc32 F data = crc32 F data"

definition calculate_blake3_hash :: "extern \<Rightarrow> bytes \<Rightarrow> bytes" where
  "calculate_blake3_hash E data = blake3 E data"

end
