(* ===== verification/File_IO.thy ===== *)
theory File_IO
  imports File_Format "HOL-Library.AList"
begin

text \<open>
  Writing a whole tree into one byte string and reading it back (\<^verbatim>\<open>src/src/store/file_io_v2.rs\<close>),
  with the layout of a written file and the round trip.
\<close>

section \<open>Writing\<close>

definition ENABLE_OVERALL_FILE_CHECKSUM :: bool where
  "ENABLE_OVERALL_FILE_CHECKSUM = True"

text \<open>Writing at a position of a \<^verbatim>\<open>Cursor<&mut Vec<u8>>\<close>: a gap is filled with zeros.\<close>

definition write_at :: "nat \<Rightarrow> bytes \<Rightarrow> bytes \<Rightarrow> bytes" where
  "write_at pos b buf = take pos (buf @ replicate (pos - length buf) 0) @ b @ drop (pos + length b) buf"

fun index_entries :: "u64 \<Rightarrow> (hash \<times> bytes) list \<Rightarrow> chunk_index_entry list" where
  "index_entries current_chunk_data_offset [] = []"
| "index_entries current_chunk_data_offset (c # cs) =
     \<lparr>ce_hash = fst c, ce_offset = current_chunk_data_offset, ce_length = of_nat (length (snd c)),
      chunk_type_flags = 0\<rparr> # index_entries (current_chunk_data_offset + of_nat (length (snd c))) cs"

definition chunk_data_bytes :: "(hash \<times> bytes) list \<Rightarrow> u64" where
  "chunk_data_bytes cs = foldl (\<lambda>total c. total + of_nat (length (snd c))) 0 cs"

text \<open>A block: the envelope with the checksum of the content, then the content.\<close>

definition block_write :: "file_extern \<Rightarrow> u8 \<Rightarrow> bytes \<Rightarrow> bytes" where
  "block_write F t content =
     envelope_write F (new_envelope t (of_nat (length content)) (calculate_crc32 F content)) @ content"

definition index_content :: "file_extern \<Rightarrow> (hash \<times> bytes) list \<Rightarrow> bytes" where
  "index_content F cs =
     (let chunk_index_entries = sort_key ce_hash (index_entries (of_nat header_size) cs)
      in be_put32 F (of_nat (length chunk_index_entries)) @ concat (map (entry_write F) chunk_index_entries))"

text \<open>
  \<open>cs\<close> lists the chunks in the order the iteration over the hash map meets them, \<open>now\<close> is the
  time stamp. The buffer starts with room for the header, which is written last.
\<close>

definition write_prly_tree_v2 ::
    "extern \<Rightarrow> file_extern \<Rightarrow> string \<Rightarrow> hash option \<Rightarrow> tree_config \<Rightarrow> (hash \<times> bytes) list \<Rightarrow>
     string option \<Rightarrow> prolly_error + bytes" where
  "write_prly_tree_v2 E F now root cfg cs descr =
     (let data = concat (map snd cs);
          buf = write_at header_size data (replicate header_size 0);
          index_start = header_size + length data;
          index_block = block_write F TAG_CHUNK_INDEX_BLOCK (index_content F cs);
          buf = write_at index_start index_block buf;
          meta_start = index_start + length index_block
      in case json_to_vec F \<lparr>md_root_hash = root, md_tree_config = cfg, created_at = now,
           description = descr, total_chunk_data_bytes = chunk_data_bytes cs\<rparr> of
        Inl e \<Rightarrow> Inl (Serialization e)
      | Inr json \<Rightarrow>
         (let meta_block = block_write F TAG_METADATA_BLOCK json;
              buf = write_at meta_start meta_block buf;
              eof_start = meta_start + length meta_block;
              header = new_header (of_nat meta_start) (of_nat index_start) (of_nat eof_start);
              buf = write_at 0 (header_write F header) buf;
              checksum = (if ENABLE_OVERALL_FILE_CHECKSUM
                then Some (calculate_blake3_hash E (take eof_start buf)) else None);
              eof = \<lparr>eof_tag = TAG_EOF_BLOCK, offset_metadata_repeated = of_nat meta_start,
                offset_chunk_index_repeated = of_nat index_start,
                signature_repeated = rev FILE_SIGNATURE_V2, overall_file_checksum = checksum\<rparr>
          in Inr (write_at eof_start (eof_write F eof) buf)))"

section \<open>Reading\<close>

text \<open>Decimal numbers and byte arrays as \<^verbatim>\<open>format!\<close> prints them.\<close>

fun show_nat :: "nat \<Rightarrow> string" where
  "show_nat n = (if n < 10 then [char_of (48 + n)] else show_nat (n div 10) @ [char_of (48 + n mod 10)])"

declare show_nat.simps [simp del]

fun show_list :: "string list \<Rightarrow> string" where
  "show_list [] = []"
| "show_list [x] = x"
| "show_list (x # xs) = x @ '', '' @ show_list xs"

definition show_bytes :: "bytes \<Rightarrow> string" where
  "show_bytes b = ''['' @ show_list (map (show_nat \<circ> unat) b) @ '']''"

text \<open>\<^verbatim>\<open>seek\<close> may go past the end; then nothing is left to read.\<close>

definition seek_to :: "bytes \<Rightarrow> u64 \<Rightarrow> unit reader" where
  "seek_to file pos = (\<lambda>_. (Inr (), drop (unat pos) file))"

text \<open>The buffer for the content is a vector, so more than \<^verbatim>\<open>isize::MAX\<close> bytes are a panic.\<close>

definition block_read :: "file_extern \<Rightarrow> bytes \<Rightarrow> u64 \<Rightarrow> u8 \<Rightarrow> string \<Rightarrow> string \<Rightarrow> bytes reader" where
  "block_read F file offset t tag_message context =
     bindC (seek_to file offset) (\<lambda>_.
     bindC (envelope_read F) (\<lambda>e.
     if env_tag e \<noteq> t then throwC (Err (InvalidFileFormat tag_message))
     else if 0x7FFFFFFF < content_length e then throwC Panic
     else bindC (read_exact (unat (content_length e))) (\<lambda>content.
       if calculate_crc32 F content \<noteq> content_checksum e then throwC (Err (ChecksumMismatch context))
       else returnC content)))"

text \<open>
  The vector of entries is reserved first; an entry takes 48 bytes, so 44739242 entries are the most
  that fit below \<^verbatim>\<open>isize::MAX\<close>.
\<close>

definition index_read :: "file_extern \<Rightarrow> bytes \<Rightarrow> failure + chunk_index_entry list" where
  "index_read F content = fst (bindC (read_u32 F) (\<lambda>num_index_entries.
     if 44739242 < num_index_entries then throwC Panic
     else read_many (entry_read F) (unat num_index_entries)) content)"

text \<open>
  The slice of the file an entry names. The sum is taken in \<^verbatim>\<open>u64\<close> and wraps around in a release
  build, the conversions to \<^verbatim>\<open>usize\<close> cut to 32 bits, and slicing panics when the end lies before
  the start.
\<close>

definition chunk_slice :: "bytes \<Rightarrow> chunk_index_entry \<Rightarrow> failure + bytes" where
  "chunk_slice file e =
     (let end_position = ce_offset e + ucast (ce_length e);
          start = unat (ucast (ce_offset e) :: usize);
          end_offset = unat (ucast end_position :: usize)
      in if of_nat (length file) < end_position
         then Inl (Err (InvalidFileFormat (''Chunk offset/length out of bounds for hash '' @ show_bytes (ce_hash e))))
         else if length file \<le> start \<and> 0 < ce_length e
         then Inl (Err (InvalidFileFormat (''Chunk offset out of bounds for hash '' @ show_bytes (ce_hash e))))
         else if length file < end_offset
         then Inl (Err (InvalidFileFormat (''Chunk end offset out of bounds for hash '' @ show_bytes (ce_hash e))))
         else if end_offset < start then Inl Panic
         else Inr (take (end_offset - start) (drop start file)))"

fun collect_chunks :: "bytes \<Rightarrow> chunk_index_entry list \<Rightarrow> (hash \<times> bytes) list \<Rightarrow> failure + (hash \<times> bytes) list" where
  "collect_chunks file [] chunks_map = Inr chunks_map"
| "collect_chunks file (e # es) chunks_map = (case chunk_slice file e of
     Inl x \<Rightarrow> Inl x
   | Inr data \<Rightarrow> collect_chunks file es (AList.update (ce_hash e) data chunks_map))"

definition liftR :: "failure + 'a \<Rightarrow> 'a reader" where
  "liftR x = (\<lambda>r. (x, r))"

definition read_header :: "file_extern \<Rightarrow> file_header reader" where
  "read_header F = (\<lambda>r. case header_read F r of
     (Inl _, r') \<Rightarrow> (Inl (Err (InvalidFileFormat ''Failed to read header: failed to fill whole buffer'')), r')
   | (Inr h, r') \<Rightarrow> (Inr h, r'))"

definition overall_check :: "extern \<Rightarrow> bytes option \<Rightarrow> bytes option \<Rightarrow> unit reader" where
  "overall_check E expected content = (case (expected, content) of
     (Some c, Some d) \<Rightarrow>
       if calculate_blake3_hash E d \<noteq> c then throwC (Err (ChecksumMismatch ''Overall file content''))
       else returnC ()
   | (Some _, None) \<Rightarrow> throwC (Err (InternalError ''Mismatch in overall file checksum presence vs. expectation.''))
   | (None, Some _) \<Rightarrow> throwC (Err (ChecksumMismatch ''Overall file content checksum missing in file but expected''))
   | (None, None) \<Rightarrow> returnC ())"

definition eof_check :: "extern \<Rightarrow> file_extern \<Rightarrow> bytes \<Rightarrow> u64 \<Rightarrow> bytes option \<Rightarrow> unit reader" where
  "eof_check E F file eof_offset content =
     bindC (seek_to file eof_offset) (\<lambda>_.
     bindC (eof_read F ENABLE_OVERALL_FILE_CHECKSUM) (\<lambda>eof.
     if eof_tag eof \<noteq> TAG_EOF_BLOCK then throwC (Err (InvalidFileFormat ''EOF Block tag mismatch.''))
     else if signature_repeated eof \<noteq> rev FILE_SIGNATURE_V2
     then throwC (Err (InvalidFileFormat ''EOF block reversed signature mismatch.''))
     else if ENABLE_OVERALL_FILE_CHECKSUM then overall_check E (overall_file_checksum eof) content
     else returnC ()))"

type_synonym saved_tree = "hash option \<times> tree_config \<times> (hash \<times> bytes) list \<times> string option"

text \<open>What follows the checks of the header: the two blocks, the chunks, the footer.\<close>

definition read_contents :: "extern \<Rightarrow> file_extern \<Rightarrow> bytes \<Rightarrow> file_header \<Rightarrow> saved_tree reader" where
  "read_contents E F file header =
     bindC (block_read F file (offset_chunk_index header) TAG_CHUNK_INDEX_BLOCK
       ''Chunk Index Block tag mismatch'' ''Chunk Index Block'') (\<lambda>index_bytes.
     bindC (liftR (index_read F index_bytes)) (\<lambda>chunk_index_entries.
     bindC (block_read F file (offset_metadata header) TAG_METADATA_BLOCK
       ''Metadata Block tag mismatch'' ''Metadata Block'') (\<lambda>json.
     bindC (liftR (case json_from_slice F json of
         Inl e \<Rightarrow> Inl (Err (Deserialization e)) | Inr m \<Rightarrow> Inr m)) (\<lambda>meta.
     bindC (liftR (collect_chunks file chunk_index_entries [])) (\<lambda>chunks_map.
     bindC (eof_check E F file (offset_eof header)
       (if ENABLE_OVERALL_FILE_CHECKSUM
        then Some (take (unat (ucast (offset_eof header) :: usize)) file) else None)) (\<lambda>_.
     returnC (md_root_hash meta, md_tree_config meta, chunks_map, description meta)))))))"

definition read_prly_tree_v2 :: "extern \<Rightarrow> file_extern \<Rightarrow> bytes \<Rightarrow> failure + saved_tree" where
  "read_prly_tree_v2 E F file = fst (
     bindC (read_header F) (\<lambda>header.
     if signature header \<noteq> FILE_SIGNATURE_V2 then throwC (Err (InvalidFileFormat ''Invalid signature''))
     else if version header \<noteq> FORMAT_VERSION_V2
     then throwC (Err (InvalidFileFormat (''Unsupported version: '' @ show_nat (unat (version header)))))
     else if ENABLE_OVERALL_FILE_CHECKSUM \<and> length file < unat (ucast (offset_eof header) :: usize)
     then throwC (Err (InvalidFileFormat ''EOF offset in header is out of bounds.''))
     else read_contents E F file header) file)"

section \<open>Small numbers\<close>

lemma unat_u64 [simp]: "n < 2 ^ 31 \<Longrightarrow> unat (of_nat n :: u64) = n"
  by (simp add: unat_of_nat take_bit_eq_mod)

lemma unat_u32 [simp]: "n < 2 ^ 31 \<Longrightarrow> unat (of_nat n :: u32) = n"
  by (simp add: unat_of_nat take_bit_eq_mod)

lemma unat_usize_u64 [simp]: "n < 2 ^ 31 \<Longrightarrow> unat (ucast (of_nat n :: u64) :: usize) = n"
  by (simp add: unsigned_ucast_eq unsigned_of_nat take_bit_eq_mod)

lemma ucast_u32_u64: "n < 2 ^ 31 \<Longrightarrow> ucast (of_nat n :: u32) = (of_nat n :: u64)"
  by (simp add: word_unat_eq_iff unsigned_ucast_eq unsigned_of_nat take_bit_eq_mod)

lemma u64_less_iff: "m < 2 ^ 31 \<Longrightarrow> n < 2 ^ 31 \<Longrightarrow> (of_nat m :: u64) < of_nat n \<longleftrightarrow> m < n"
  by (simp add: word_less_nat_alt)

section \<open>Chunks in the file\<close>

lemma chunk_slice_inside:
  assumes "length file < 2 ^ 31" "pos + len \<le> length file"
    "ce_offset e = of_nat pos" "ce_length e = of_nat len"
  shows "chunk_slice file e = Inr (take len (drop pos file))"
proof -
  have ends: "ce_offset e + ucast (ce_length e) = (of_nat (pos + len) :: u64)"
    using assms by (simp add: ucast_u32_u64)
  have "(0 :: u32) < of_nat len \<longleftrightarrow> 0 < len"
    using assms(1,2) by (simp add: word_less_nat_alt)
  then show ?thesis
    using assms unfolding chunk_slice_def ends by (simp add: Let_def u64_less_iff del: of_nat_add)
qed

lemma index_entries_slices:
  assumes "length file < 2 ^ 31" "file = pre @ concat (map snd cs) @ post" "pos = length pre"
  shows "list_all2 (\<lambda>e c. ce_hash e = fst c \<and> chunk_slice file e = Inr (snd c)) (index_entries (of_nat pos) cs) cs"
  using assms(2,3)
proof (induction cs arbitrary: pre pos)
  case Nil
  then show ?case by simp
next
  case (Cons c cs)
  have "chunk_slice file \<lparr>ce_hash = fst c, ce_offset = of_nat pos, ce_length = of_nat (length (snd c)),
      chunk_type_flags = 0\<rparr> = Inr (take (length (snd c)) (drop pos file))"
    using assms(1) Cons.prems by (intro chunk_slice_inside) simp_all
  moreover have "list_all2 (\<lambda>e c. ce_hash e = fst c \<and> chunk_slice file e = Inr (snd c))
      (index_entries (of_nat (pos + length (snd c))) cs) cs"
    using Cons.prems by (intro Cons.IH [of "pre @ snd c"]) simp_all
  ultimately show ?case
    using Cons.prems by simp
qed

lemma index_entries_hashes: "map ce_hash (index_entries off cs) = map fst cs"
  by (induction cs arbitrary: off) auto

lemma index_entries_length [simp]: "length (index_entries off cs) = length cs"
  by (induction cs arbitrary: off) auto

lemma collect_chunks_ok:
  assumes "\<forall>e\<in>set es. \<exists>d. map_of cs (ce_hash e) = Some d \<and> chunk_slice file e = Inr d"
  shows "\<exists>r. collect_chunks file es acc = Inr r
    \<and> map_of r = (\<lambda>h. if h \<in> ce_hash ` set es then map_of cs h else map_of acc h)
    \<and> (distinct (map fst acc) \<longrightarrow> distinct (map fst r))"
  using assms
proof (induction es arbitrary: acc)
  case Nil
  then show ?case by simp
next
  case (Cons e es)
  then obtain d where d: "map_of cs (ce_hash e) = Some d" "chunk_slice file e = Inr d" by auto
  from Cons obtain r where r: "collect_chunks file es (AList.update (ce_hash e) d acc) = Inr r"
    "map_of r = (\<lambda>h. if h \<in> ce_hash ` set es then map_of cs h
       else map_of (AList.update (ce_hash e) d acc) h)"
    "distinct (map fst (AList.update (ce_hash e) d acc)) \<longrightarrow> distinct (map fst r)"
    by force
  from r d show ?case
    by (auto simp: update_conv' distinct_update fun_eq_iff)
qed

section \<open>The layout of a written file\<close>

lemma write_at_end [simp]: "pos = length buf \<Longrightarrow> write_at pos b buf = buf @ b"
  by (simp add: write_at_def)

lemma write_at_start: "length b \<le> length buf \<Longrightarrow> write_at 0 b buf = b @ drop (length b) buf"
  by (simp add: write_at_def)

definition layout :: "extern \<Rightarrow> file_extern \<Rightarrow> (hash \<times> bytes) list \<Rightarrow> bytes \<Rightarrow> bytes" where
  "layout E F cs json =
     (let data = concat (map snd cs);
          index_block = block_write F TAG_CHUNK_INDEX_BLOCK (index_content F cs);
          meta_block = block_write F TAG_METADATA_BLOCK json;
          index_start = header_size + length data;
          meta_start = index_start + length index_block;
          eof_start = meta_start + length meta_block;
          body = header_write F (new_header (of_nat meta_start) (of_nat index_start) (of_nat eof_start))
            @ data @ index_block @ meta_block
      in body @ eof_write F \<lparr>eof_tag = TAG_EOF_BLOCK, offset_metadata_repeated = of_nat meta_start,
           offset_chunk_index_repeated = of_nat index_start, signature_repeated = rev FILE_SIGNATURE_V2,
           overall_file_checksum = Some (blake3 E body)\<rparr>)"

lemma write_layout:
  assumes "byteorder_ok F"
    and "json_to_vec F \<lparr>md_root_hash = root, md_tree_config = cfg, created_at = now,
      description = descr, total_chunk_data_bytes = chunk_data_bytes cs\<rparr> = Inr json"
  shows "write_prly_tree_v2 E F now root cfg cs descr = Inr (layout E F cs json)"
proof -
  have len: "length (header_write F (new_header a b c)) = header_size" for a b c
    by (rule header_write_length [OF new_header_ok [OF assms(1)]])
  show ?thesis
    unfolding write_prly_tree_v2_def layout_def
    by (simp add: Let_def assms(2) ENABLE_OVERALL_FILE_CHECKSUM_def write_at_start len
        calculate_blake3_hash_def)
qed

section \<open>Reading a written file\<close>

lemma block_read_write:
  assumes "byteorder_ok F" "length content < 2 ^ 31" "drop (unat offset) file = block_write F t content @ rest"
  shows "block_read F file offset t msg ctx r = (Inr content, rest)"
proof -
  have small: "\<not> 0x7FFFFFFF < (of_nat (length content) :: u32)"
    using assms(2) by (simp add: word_less_nat_alt)
  show ?thesis
    using assms small
    by (simp add: block_read_def seek_to_def block_write_def env.read_write read_simps comp_simps
        new_envelope_def)
qed

lemma index_read_write:
  assumes "byteorder_ok F" "length cs \<le> 44739242" "\<forall>c\<in>set cs. length (fst c) = CHUNK_HASH_SIZE"
  shows "index_read F (index_content F cs) = Inr (sort_key ce_hash (index_entries (of_nat header_size) cs))"
proof -
  let ?es = "sort_key ce_hash (index_entries (of_nat header_size) cs)"
  have "ce_hash ` set (index_entries (of_nat header_size) cs) = fst ` set cs"
    using index_entries_hashes [of "of_nat header_size" cs] by (metis list.set_map)
  then have "\<forall>e\<in>set ?es. entry_ok F e"
    using assms(1,3) by (force simp: entry_ok_def)
  note many = ent.read_many_write [OF this, of "[]"]
  have num: "unat (of_nat (length cs) :: u32) = length cs"
    using assms(2) by simp
  then have "\<not> 44739242 < (of_nat (length cs) :: u32)"
    using assms(2) by (simp add: word_less_nat_alt)
  with many num show ?thesis
    by (simp add: index_read_def index_content_def Let_def read_simps assms(1) comp_simps)
qed

text \<open>The metadata a call of the writer stores.\<close>

definition written_metadata :: "string \<Rightarrow> hash option \<Rightarrow> tree_config \<Rightarrow> (hash \<times> bytes) list \<Rightarrow> string option \<Rightarrow> metadata_content" where
  "written_metadata now root cfg cs descr = \<lparr>md_root_hash = root, md_tree_config = cfg, created_at = now,
     description = descr, total_chunk_data_bytes = chunk_data_bytes cs\<rparr>"

text \<open>What a call must satisfy for the file to be readable: hashes of the width of their type and sizes a \<^verbatim>\<open>usize\<close> vector holds.\<close>

definition chunks_fit :: "(hash \<times> bytes) list \<Rightarrow> bytes \<Rightarrow> bool" where
  "chunks_fit cs file \<longleftrightarrow> distinct (map fst cs) \<and> (\<forall>c\<in>set cs. length (fst c) = CHUNK_HASH_SIZE)
     \<and> length cs \<le> 44739242 \<and> length file < 2 ^ 31"

lemma drop_exact: "n = length a \<Longrightarrow> drop n (a @ b) = b"
  by simp

lemma collect_written:
  assumes "chunks_fit cs file" "file = pre @ concat (map snd cs) @ post" "length pre = header_size"
  obtains cs' where "collect_chunks file (sort_key ce_hash (index_entries (of_nat header_size) cs)) [] = Inr cs'"
    "map_of cs' = map_of cs" "distinct (map fst cs')"
proof -
  let ?es = "index_entries (of_nat header_size) cs"
  have slices: "list_all2 (\<lambda>e c. ce_hash e = fst c \<and> chunk_slice file e = Inr (snd c)) ?es cs"
    by (rule index_entries_slices [OF _ assms(2) assms(3) [symmetric]]) (use assms(1) in \<open>simp add: chunks_fit_def\<close>)
  have "\<exists>d. map_of cs (ce_hash e) = Some d \<and> chunk_slice file e = Inr d" if "e \<in> set ?es" for e
  proof -
    from that obtain i where i: "i < length ?es" "e = ?es ! i"
      by (auto simp: in_set_conv_nth)
    with list_all2_nthD [OF slices i(1)] have "ce_hash e = fst (cs ! i)" "chunk_slice file e = Inr (snd (cs ! i))"
      by auto
    moreover have "map_of cs (fst (cs ! i)) = Some (snd (cs ! i))"
      using assms(1) i(1) by (intro map_of_is_SomeI) (simp_all add: chunks_fit_def)
    ultimately show ?thesis by simp
  qed
  then have "\<forall>e\<in>set (sort_key ce_hash ?es). \<exists>d. map_of cs (ce_hash e) = Some d \<and> chunk_slice file e = Inr d"
    by simp
  from collect_chunks_ok [OF this, of "[]"] obtain cs' where cs':
    "collect_chunks file (sort_key ce_hash ?es) [] = Inr cs'" "distinct (map fst cs')"
    "map_of cs' = (\<lambda>h. if h \<in> ce_hash ` set ?es then map_of cs h else map_of [] h)"
    by force
  have "ce_hash ` set ?es = fst ` set cs"
    using index_entries_hashes [of "of_nat header_size" cs] by (metis list.set_map)
  moreover have "map_of cs h = None" if "h \<notin> fst ` set cs" for h
    using that by (simp add: map_of_eq_None_iff)
  ultimately have "map_of cs' = map_of cs"
    using cs'(3) by (simp add: fun_eq_iff)
  with cs' that show thesis by blast
qed

lemma eof_check_written:
  assumes "byteorder_ok F" "length (blake3 E body) = BLAKE3_CHECKSUM_SIZE"
    and "drop (unat eof_offset) file = eof_write F \<lparr>eof_tag = TAG_EOF_BLOCK, offset_metadata_repeated = a,
       offset_chunk_index_repeated = b, signature_repeated = rev FILE_SIGNATURE_V2,
       overall_file_checksum = Some (blake3 E body)\<rparr>"
  shows "eof_check E F file eof_offset (Some body) r = (Inr (), [])"
proof -
  let ?eof = "\<lparr>eof_tag = TAG_EOF_BLOCK, offset_metadata_repeated = a, offset_chunk_index_repeated = b,
       signature_repeated = rev FILE_SIGNATURE_V2, overall_file_checksum = Some (blake3 E body)\<rparr>"
  have "eof_ok F True ?eof"
    using assms(1,2) by (simp add: eof_ok_def FILE_SIGNATURE_V2_def)
  from eof.read_write_all [OF this] show ?thesis
    by (simp add: eof_check_def seek_to_def assms(3) comp_simps ENABLE_OVERALL_FILE_CHECKSUM_def
        overall_check_def calculate_blake3_hash_def)
qed

lemma read_layout:
  assumes F: "byteorder_ok F" and hash: "\<And>b. length (blake3 E b) = BLAKE3_CHECKSUM_SIZE"
    and json: "json_from_slice F json = Inr meta" and fit: "chunks_fit cs (layout E F cs json)"
  shows "\<exists>cs'. read_prly_tree_v2 E F (layout E F cs json) =
      Inr (md_root_hash meta, md_tree_config meta, cs', description meta)
    \<and> map_of cs' = map_of cs \<and> distinct (map fst cs')"
proof -
  let ?data = "concat (map snd cs)"
  let ?ib = "block_write F TAG_CHUNK_INDEX_BLOCK (index_content F cs)"
  let ?mb = "block_write F TAG_METADATA_BLOCK json"
  let ?is = "header_size + length ?data"
  let ?ms = "?is + length ?ib"
  let ?es = "?ms + length ?mb"
  define hd' where "hd' = new_header (of_nat ?ms) (of_nat ?is) (of_nat ?es)"
  define body where "body = header_write F hd' @ ?data @ ?ib @ ?mb"
  define foot where "foot = eof_write F \<lparr>eof_tag = TAG_EOF_BLOCK, offset_metadata_repeated = of_nat ?ms,
       offset_chunk_index_repeated = of_nat ?is, signature_repeated = rev FILE_SIGNATURE_V2,
       overall_file_checksum = Some (blake3 E body)\<rparr>"
  have lay: "layout E F cs json = body @ foot"
    by (simp add: layout_def Let_def body_def foot_def hd'_def)
  have hok: "header_ok F hd'" by (simp add: hd'_def new_header_ok [OF F])
  have hlen: "length (header_write F hd') = header_size" by (rule header_write_length [OF hok])
  have body_len: "length body = ?es" by (simp add: body_def hlen)
  have total: "length (body @ foot) < 2 ^ 31" using fit lay by (simp add: chunks_fit_def)
  then have eof_small: "?es < 2 ^ 31" by (simp add: body_len)
  then have small: "?is < 2 ^ 31" "?ms < 2 ^ 31" by linarith+
  have offs: "unat (offset_chunk_index hd') = ?is" "unat (offset_metadata hd') = ?ms"
    "unat (offset_eof hd') = ?es" "unat (ucast (offset_eof hd') :: usize) = ?es"
    unfolding hd'_def new_header_def using eof_small small by (simp_all only: file_header.simps unat_u64 unat_usize_u64)
  have content_small: "length (index_content F cs) < 2 ^ 31" "length json < 2 ^ 31"
    using eof_small by (simp_all add: block_write_def)
  have "drop ?is (body @ foot) = ?ib @ ?mb @ foot"
    unfolding body_def by (simp add: hlen)
  then have rib: "block_read F (body @ foot) (offset_chunk_index hd') TAG_CHUNK_INDEX_BLOCK msg ctx r
      = (Inr (index_content F cs), ?mb @ foot)" for msg ctx r
    using offs(1) by (intro block_read_write [OF F content_small(1)]) simp
  have "drop ?ms (body @ foot) = ?mb @ foot"
    unfolding body_def by (simp add: hlen)
  then have rmb: "block_read F (body @ foot) (offset_metadata hd') TAG_METADATA_BLOCK msg ctx r
      = (Inr json, foot)" for msg ctx r
    using offs(2) by (intro block_read_write [OF F content_small(2)]) simp
  have rh: "read_header F (body @ foot) = (Inr hd', ?data @ ?ib @ ?mb @ foot)"
    by (simp add: read_header_def body_def hdr.read_write [OF hok])
  have sig: "signature hd' = FILE_SIGNATURE_V2" "version hd' = FORMAT_VERSION_V2"
    by (simp_all add: hd'_def new_header_def)
  have ri: "index_read F (index_content F cs) = Inr (sort_key ce_hash (index_entries (of_nat header_size) cs))"
    using fit by (intro index_read_write [OF F]) (simp_all add: chunks_fit_def)
  from fit lay have "chunks_fit cs (body @ foot)" by simp
  then obtain cs' where cs': "collect_chunks (body @ foot) (sort_key ce_hash (index_entries (of_nat header_size) cs)) [] = Inr cs'"
    "map_of cs' = map_of cs" "distinct (map fst cs')"
    by (rule collect_written [of _ _ "header_write F hd'" "?ib @ ?mb @ foot"]) (simp_all add: body_def hlen)
  have reof: "eof_check E F (body @ foot) (offset_eof hd') (Some body) r = (Inr (), [])" for r
    by (rule eof_check_written [OF F hash]) (simp add: offs(3) body_len [symmetric], simp add: foot_def)
  have "read_prly_tree_v2 E F (body @ foot) =
      Inr (md_root_hash meta, md_tree_config meta, cs', description meta)"
    by (simp add: read_prly_tree_v2_def read_contents_def comp_simps rh sig offs(4) body_len [symmetric] rib rmb ri liftR_def
        json cs'(1) reof ENABLE_OVERALL_FILE_CHECKSUM_def)
  with cs' lay show ?thesis by auto
qed

section \<open>What the reader checks\<close>

lemma fst_bindC_Inr: "fst (bindC m f s) = Inr x \<Longrightarrow> \<exists>y s'. m s = (Inr y, s') \<and> fst (f y s') = Inr x"
  by (auto simp: bindC_def split: prod.splits sum.splits)

definition intact :: "extern \<Rightarrow> file_extern \<Rightarrow> bytes \<Rightarrow> file_header \<Rightarrow> bool" where
  "intact E F file h \<longleftrightarrow> signature h = FILE_SIGNATURE_V2 \<and> version h = FORMAT_VERSION_V2
     \<and> (\<exists>eof r. eof_read F True (drop (unat (offset_eof h)) file) = (Inr eof, r)
          \<and> eof_tag eof = TAG_EOF_BLOCK \<and> signature_repeated eof = rev FILE_SIGNATURE_V2
          \<and> overall_file_checksum eof = Some (blake3 E (take (unat (ucast (offset_eof h) :: usize)) file)))"

lemma eof_read_checksum: "eof_read F True b = (Inr eof, r) \<Longrightarrow> \<exists>s. overall_file_checksum eof = Some s"
  by (auto simp: eof_read_def elim!: bindC_cases simp: returnC_def split: prod.splits sum.splits)

lemma eof_check_passed:
  assumes "eof_check E F file off (Some content) r = (Inr (), r')"
  shows "\<exists>eof r. eof_read F True (drop (unat off) file) = (Inr eof, r) \<and> eof_tag eof = TAG_EOF_BLOCK
     \<and> signature_repeated eof = rev FILE_SIGNATURE_V2 \<and> overall_file_checksum eof = Some (blake3 E content)"
proof -
  from assms obtain eof r' where eof: "eof_read F True (drop (unat off) file) = (Inr eof, r')"
    by (cases "eof_read F True (drop (unat off) file)")
      (auto simp: eof_check_def seek_to_def bindC_def ENABLE_OVERALL_FILE_CHECKSUM_def split: sum.splits)
  moreover from eof_read_checksum [OF this] obtain s where "overall_file_checksum eof = Some s" ..
  ultimately show ?thesis
    using assms
    by (auto simp: eof_check_def seek_to_def bindC_def ENABLE_OVERALL_FILE_CHECKSUM_def overall_check_def
        calculate_blake3_hash_def comp_simps split: if_splits)
qed

lemma read_header_ok: "read_header F file = (Inr h, r) \<longleftrightarrow> header_read F file = (Inr h, r)"
  by (cases "header_read F file") (auto simp: read_header_def split: sum.splits)

lemma read_contents_ok:
  assumes "fst (read_contents E F file h r) = Inr t"
  shows "\<exists>r r'. eof_check E F file (offset_eof h)
      (Some (take (unat (ucast (offset_eof h) :: usize)) file)) r = (Inr (), r')"
  using assms unfolding read_contents_def
  by (auto simp: ENABLE_OVERALL_FILE_CHECKSUM_def dest!: fst_bindC_Inr) blast

lemma read_accepted:
  assumes "read_prly_tree_v2 E F file = Inr t"
  shows "\<exists>h r. header_read F file = (Inr h, r) \<and> intact E F file h"
proof -
  from assms obtain h r where h: "header_read F file = (Inr h, r)"
    "signature h = FILE_SIGNATURE_V2" "version h = FORMAT_VERSION_V2"
    "fst (read_contents E F file h r) = Inr t"
    unfolding read_prly_tree_v2_def
    by (auto simp: throwC_def read_header_ok split: if_splits dest!: fst_bindC_Inr)
  with read_contents_ok [OF h(4)] show ?thesis
    by (auto simp: intact_def dest: eof_check_passed)
qed

text \<open>
  A file whose body was changed, header and footer left as written, is refused unless the changed
  body has the same hash.
\<close>

lemma read_changed_body:
  assumes F: "byteorder_ok F" and hash: "\<And>b. length (blake3 E b) = BLAKE3_CHECKSUM_SIZE"
    and hdr: "header_ok F h" and offset: "unat (offset_eof h) = length body"
      "unat (ucast (offset_eof h) :: usize) = length body"
    and body: "body = header_write F h @ rest"
    and foot: "foot = eof_write F \<lparr>eof_tag = TAG_EOF_BLOCK, offset_metadata_repeated = a,
       offset_chunk_index_repeated = b, signature_repeated = rev FILE_SIGNATURE_V2,
       overall_file_checksum = Some c\<rparr>" "c \<noteq> blake3 E body" "length c = BLAKE3_CHECKSUM_SIZE"
  shows "\<exists>e. read_prly_tree_v2 E F (body @ foot) = Inl e"
proof (cases "read_prly_tree_v2 E F (body @ foot)")
  case (Inr t)
  let ?eof = "\<lparr>eof_tag = TAG_EOF_BLOCK, offset_metadata_repeated = a,
       offset_chunk_index_repeated = b, signature_repeated = rev FILE_SIGNATURE_V2,
       overall_file_checksum = Some c\<rparr>"
  from read_accepted [OF Inr] obtain h' r where h': "header_read F (body @ foot) = (Inr h', r)"
    "intact E F (body @ foot) h'" by blast
  have "header_read F (body @ foot) = (Inr h, rest @ foot)"
    by (simp add: body hdr.read_write [OF hdr])
  with h' offset obtain eof r where eof: "eof_read F True foot = (Inr eof, r)"
    "overall_file_checksum eof = Some (blake3 E body)"
    by (auto simp: intact_def)
  have "eof_ok F True ?eof"
    using F foot(3) by (simp add: eof_ok_def FILE_SIGNATURE_V2_def)
  from eof.read_write_all [OF this] eof foot(1,2) show ?thesis
    by auto
qed simp

section \<open>The header of any file\<close>

lemma header_read_long:
  assumes "header_size \<le> length file"
  shows "\<exists>h. header_read F file = (Inr h, drop header_size file)
    \<and> signature h = take 8 file \<and> version h = file ! 8"
  using assms
  by (simp add: header_read_def read_u8_def read_u64_def read_exact_def comp_simps header_size_def
      hd_drop_conv_nth) arith

lemma header_read_short: "length file < header_size \<Longrightarrow> \<exists>r. header_read F file = (Inl (Err IoError), r)"
  by (auto simp: header_read_def read_u8_def read_u64_def read_exact_def comp_simps header_size_def)

lemma read_header_rejects:
  shows "length file < header_size \<Longrightarrow> read_prly_tree_v2 E F file =
      Inl (Err (InvalidFileFormat ''Failed to read header: failed to fill whole buffer''))"
    and "header_size \<le> length file \<Longrightarrow> take 8 file \<noteq> FILE_SIGNATURE_V2 \<Longrightarrow>
      read_prly_tree_v2 E F file = Inl (Err (InvalidFileFormat ''Invalid signature''))"
    and "header_size \<le> length file \<Longrightarrow> take 8 file = FILE_SIGNATURE_V2 \<Longrightarrow> file ! 8 \<noteq> FORMAT_VERSION_V2 \<Longrightarrow>
      read_prly_tree_v2 E F file =
        Inl (Err (InvalidFileFormat (''Unsupported version: '' @ show_nat (unat (file ! 8)))))"
proof -
  show "length file < header_size \<Longrightarrow> read_prly_tree_v2 E F file =
      Inl (Err (InvalidFileFormat ''Failed to read header: failed to fill whole buffer''))"
    using header_read_short [of "file" F] by (auto simp: read_prly_tree_v2_def read_header_def comp_simps)
  show "header_size \<le> length file \<Longrightarrow> take 8 file \<noteq> FILE_SIGNATURE_V2 \<Longrightarrow>
      read_prly_tree_v2 E F file = Inl (Err (InvalidFileFormat ''Invalid signature''))"
    using header_read_long [of "file" F] by (auto simp: read_prly_tree_v2_def read_header_def comp_simps)
  show "header_size \<le> length file \<Longrightarrow> take 8 file = FILE_SIGNATURE_V2 \<Longrightarrow> file ! 8 \<noteq> FORMAT_VERSION_V2 \<Longrightarrow>
      read_prly_tree_v2 E F file =
        Inl (Err (InvalidFileFormat (''Unsupported version: '' @ show_nat (unat (file ! 8)))))"
    using header_read_long [of "file" F] by (auto simp: read_prly_tree_v2_def read_header_def comp_simps)
qed

text \<open>A written file is read back.\<close>

lemma file_read_back:
  assumes "byteorder_ok F" "\<forall>b. length (blake3 E b) = BLAKE3_CHECKSUM_SIZE"
    and "json_ok F (written_metadata now root cfg cs descr)"
    and "write_prly_tree_v2 E F now root cfg cs descr = Inr file" "chunks_fit cs file"
  shows "\<exists>cs'. read_prly_tree_v2 E F file = Inr (root, cfg, cs', descr)
    \<and> map_of cs' = map_of cs \<and> distinct (map fst cs')"
proof -
  from assms(3) obtain json where json: "json_to_vec F (written_metadata now root cfg cs descr) = Inr json"
    "json_from_slice F json = Inr (written_metadata now root cfg cs descr)"
    by (auto simp: json_ok_def)
  with assms(4) have "file = layout E F cs json"
    by (simp add: write_layout [OF assms(1) json(1) [unfolded written_metadata_def]])
  with read_layout [OF assms(1) _ json(2)] assms(2,5) show ?thesis
    by (simp add: written_metadata_def)
qed

end
