(* ===== verification/Cursor.thy ===== *)
theory Cursor
  imports Tree_Map
begin

text \<open>
  Cursors (\<^verbatim>\<open>src/src/tree/cursor.rs\<close>): a path from the root to a leaf and an index into the leaf; moving to
  the next and the previous leaf, positioning at the start, at a key and for a range scan, and
  reading the next entry. The asynchronous and synchronous functions differ in the store functions
  they call and in their messages, so the mode is an argument, as elsewhere.
\<close>

section \<open>State\<close>

text \<open>
  A frame of the path: the hash of a node, the node and its index in its parent. The path of the
  code grows at the end of a vector; here its last element comes first. \<^verbatim>\<open>usize::MAX\<close>, the index of
  the root and the position before the first entry of a leaf, is \<^term>\<open>None\<close>; no vector has that
  many elements.
\<close>

type_synonym frame = "hash \<times> node \<times> nat option"

record cursor =
  path :: "frame list"
  current_leaf_entry_idx :: "nat option"

type_synonym 'a cursor_op = "(cursor \<times> store, failure, 'a) comp"

definition with_store :: "'a io \<Rightarrow> ('c \<times> store, failure, 'a) comp" where
  "with_store m = (\<lambda>(c, s). case m s of (r, s') \<Rightarrow> (r, (c, s')))"

definition read_cursor :: "cursor cursor_op" where
  "read_cursor = (\<lambda>(c, s). (Inr c, (c, s)))"

definition set_path :: "frame list \<Rightarrow> unit cursor_op" where
  "set_path p = (\<lambda>(c, s). (Inr (), (c\<lparr>path := p\<rparr>, s)))"

definition push_frame :: "frame \<Rightarrow> unit cursor_op" where
  "push_frame f = (\<lambda>(c, s). (Inr (), (c\<lparr>path := f # path c\<rparr>, s)))"

definition set_idx :: "nat option \<Rightarrow> unit cursor_op" where
  "set_idx i = (\<lambda>(c, s). (Inr (), (c\<lparr>current_leaf_entry_idx := i\<rparr>, s)))"

text \<open>A constructor builds a cursor and drops it when it fails.\<close>

definition build_cursor :: "cursor \<Rightarrow> unit cursor_op \<Rightarrow> cursor io" where
  "build_cursor c m = (\<lambda>s. case m (c, s) of
     (Inl e, (_, s')) \<Rightarrow> (Inl e, s') | (Inr _, (c', s')) \<Rightarrow> (Inr c', s'))"

section \<open>Moving between leaves\<close>

text \<open>Down the left or the right edge of a subtree, pushing every node.\<close>

fun descend_edge :: "extern \<Rightarrow> mode \<Rightarrow> nat \<Rightarrow> bool \<Rightarrow> string \<Rightarrow> hash \<Rightarrow> nat option \<Rightarrow> unit cursor_op" where
  "descend_edge E md 0 right msg h idx = throwC OutOfFuel"
| "descend_edge E md (Suc fuel) right msg h idx =
     bindC (with_store (load_node E md h)) (\<lambda>nd.
     bindC (push_frame (h, nd, idx)) (\<lambda>_. case nd of
       Leaf _ _ \<Rightarrow> returnC ()
     | Internal _ cs \<Rightarrow>
         (if cs = [] then throwC (Err (InternalError msg))
          else let i = (if right then length cs - 1 else 0)
               in descend_edge E md fuel right msg (child_hash (cs ! i)) (Some i))))"

fun empty_message :: "mode \<Rightarrow> bool \<Rightarrow> string" where
  "empty_message Async back =
     (if back then ''Empty internal node during prev_leaf advance'' else ''Empty internal node during static advance'')"
| "empty_message Sync back = ''Empty internal node found''"

fun parent_message :: "mode \<Rightarrow> bool \<Rightarrow> string" where
  "parent_message Async back =
     (if back then ''Cursor path parent not internal during prev_leaf advance''
      else ''Cursor path parent not internal during static advance'')"
| "parent_message Sync back = ''Parent is not an internal node''"

text \<open>
  The loop of \<^verbatim>\<open>advance_cursor_path_to_next_leaf_static\<close>: drop nodes from the path until one has a
  sibling to the right, then descend to the first leaf of that sibling.
\<close>

fun advance_next :: "extern \<Rightarrow> mode \<Rightarrow> nat \<Rightarrow> frame list \<Rightarrow> bool cursor_op" where
  "advance_next E md fuel [] = returnC False"
| "advance_next E md fuel [_] = bindC (set_path []) (\<lambda>_. returnC False)"
| "advance_next E md fuel ((_, _, idx) # (ph, parent, pidx) # rest) =
     bindC (set_path ((ph, parent, pidx) # rest)) (\<lambda>_. case parent of
       Leaf _ _ \<Rightarrow> throwC (Err (InternalError (parent_message md False)))
     | Internal _ cs \<Rightarrow>
         (let next_idx = (case idx of None \<Rightarrow> 0 | Some i \<Rightarrow> Suc i)
          in if next_idx < length cs
             then bindC (descend_edge E md fuel False (empty_message md False)
                    (child_hash (cs ! next_idx)) (Some next_idx)) (\<lambda>_. returnC True)
             else advance_next E md fuel ((ph, parent, pidx) # rest)))"

fun advance_prev :: "extern \<Rightarrow> mode \<Rightarrow> nat \<Rightarrow> frame list \<Rightarrow> bool cursor_op" where
  "advance_prev E md fuel [] = returnC False"
| "advance_prev E md fuel [_] = bindC (set_path []) (\<lambda>_. returnC False)"
| "advance_prev E md fuel ((_, _, idx) # (ph, parent, pidx) # rest) =
     bindC (set_path ((ph, parent, pidx) # rest)) (\<lambda>_. case parent of
       Leaf _ _ \<Rightarrow> (if md = Sync \<and> idx = None then returnC False
         else throwC (Err (InternalError (parent_message md True))))
     | Internal _ cs \<Rightarrow> (case idx of
         None \<Rightarrow> returnC False
       | Some 0 \<Rightarrow> advance_prev E md fuel ((ph, parent, pidx) # rest)
       | Some (Suc i) \<Rightarrow>
           (if i < length cs
            then bindC (descend_edge E md fuel True (empty_message md True) (child_hash (cs ! i)) (Some i))
                   (\<lambda>_. returnC True)
            else throwC Panic)))"

definition advance_next_sync :: "extern \<Rightarrow> nat \<Rightarrow> frame list \<Rightarrow> bool cursor_op" where
  "advance_next_sync E = advance_next E Sync"

definition advance_prev_sync :: "extern \<Rightarrow> nat \<Rightarrow> frame list \<Rightarrow> bool cursor_op" where
  "advance_prev_sync E = advance_prev E Sync"

definition advance_path :: "extern \<Rightarrow> mode \<Rightarrow> nat \<Rightarrow> bool \<Rightarrow> bool cursor_op" where
  "advance_path E md fuel back = bindC read_cursor (\<lambda>c. case md of
       Async \<Rightarrow> if back then advance_prev E Async fuel (path c) else advance_next E Async fuel (path c)
     | Sync \<Rightarrow> if back then advance_prev_sync E fuel (path c) else advance_next_sync E fuel (path c))"

lemma advance_path_eq:
  "advance_path E md fuel back = bindC read_cursor (\<lambda>c.
     if back then advance_prev E md fuel (path c) else advance_next E md fuel (path c))"
  unfolding advance_path_def advance_next_sync_def advance_prev_sync_def
  by (cases md) (simp_all cong: if_cong)

section \<open>Positioning\<close>

definition new_at_start :: "extern \<Rightarrow> nat \<Rightarrow> tree \<Rightarrow> cursor io" where
  "new_at_start E fuel t = (let c = \<lparr>path = [], current_leaf_entry_idx = Some 0\<rparr> in
     case root_hash t of
       None \<Rightarrow> returnC c
     | Some h \<Rightarrow> build_cursor c
         (descend_edge E Async fuel False ''Empty internal node found during cursor init'' h None))"

fun descend_key :: "extern \<Rightarrow> nat \<Rightarrow> key \<Rightarrow> hash \<Rightarrow> nat option \<Rightarrow> unit cursor_op" where
  "descend_key E 0 k h idx = throwC OutOfFuel"
| "descend_key E (Suc fuel) k h idx =
     bindC (with_store (load_node E Async h)) (\<lambda>nd.
     bindC (push_frame (h, nd, idx)) (\<lambda>_. case nd of
       Leaf _ entries \<Rightarrow> set_idx (Some (search_pos (leaf_search entries k)))
     | Internal _ cs \<Rightarrow>
         (if cs = [] then throwC (Err (InternalError ''Empty internal node found during cursor seek''))
          else descend_key E fuel k (child_hash (cs ! child_idx cs k)) (Some (child_idx cs k)))))"

definition new_at_key :: "extern \<Rightarrow> nat \<Rightarrow> tree \<Rightarrow> key \<Rightarrow> cursor io" where
  "new_at_key E fuel t k = (let c = \<lparr>path = [], current_leaf_entry_idx = Some 0\<rparr> in
     case root_hash t of
       None \<Rightarrow> returnC c
     | Some h \<Rightarrow> build_cursor c (descend_key E fuel k h None))"

text \<open>\<^verbatim>\<open>ProllyTree::cursor_start\<close> and \<^verbatim>\<open>ProllyTree::seek\<close>.\<close>

definition cursor_start :: "extern \<Rightarrow> nat \<Rightarrow> tree \<Rightarrow> cursor io" where
  "cursor_start = new_at_start"

definition seek :: "extern \<Rightarrow> nat \<Rightarrow> tree \<Rightarrow> key \<Rightarrow> cursor io" where
  "seek = new_at_key"

section \<open>Reading the next entry\<close>

definition entry_at :: "leaf_entry list \<Rightarrow> nat option \<Rightarrow> leaf_entry option" where
  "entry_at es i = (case i of None \<Rightarrow> None | Some j \<Rightarrow> if j < length es then Some (es ! j) else None)"

definition advance_to_next_leaf :: "extern \<Rightarrow> nat \<Rightarrow> bool cursor_op" where
  "advance_to_next_leaf E fuel =
     bindC (advance_path E Async fuel False) (\<lambda>advanced.
     if advanced then bindC (set_idx (Some 0)) (\<lambda>_. returnC True) else returnC False)"

definition advance_to_prev_leaf :: "extern \<Rightarrow> nat \<Rightarrow> bool cursor_op" where
  "advance_to_prev_leaf E fuel =
     bindC (advance_path E Async fuel True) (\<lambda>advanced.
     if \<not> advanced then returnC False
     else bindC read_cursor (\<lambda>c. case path c of
         [] \<Rightarrow> throwC (Err (InternalError ''Path empty after advancing to previous leaf''))
       | f # _ \<Rightarrow> (case fst (snd f) of
           Internal _ _ \<Rightarrow> throwC (Err (InternalError ''Advanced to previous non-leaf node''))
         | Leaf _ entries \<Rightarrow> bindC (set_idx (if entries = [] then None else Some (length entries - 1)))
             (\<lambda>_. returnC True))))"

fun next_loop :: "extern \<Rightarrow> nat \<Rightarrow> nat \<Rightarrow> (key \<times> val) option cursor_op" where
  "next_loop E fuel 0 = throwC OutOfFuel"
| "next_loop E fuel (Suc n) = bindC read_cursor (\<lambda>c. case path c of
     [] \<Rightarrow> returnC None
   | f # _ \<Rightarrow> (case fst (snd f) of
       Internal _ _ \<Rightarrow> throwC (Err (InternalError ''Cursor path did not end in a leaf node''))
     | Leaf _ entries \<Rightarrow> (case entry_at entries (current_leaf_entry_idx c) of
         Some e \<Rightarrow>
           bindC (set_idx (map_option Suc (current_leaf_entry_idx c))) (\<lambda>_.
           bindC (with_store (load_value_repr Async (le_value e))) (\<lambda>v.
           returnC (Some (le_key e, v))))
       | None \<Rightarrow> bindC (advance_to_next_leaf E fuel) (\<lambda>advanced.
           if advanced then next_loop E fuel n else returnC None))))"

definition cursor_next :: "extern \<Rightarrow> nat \<Rightarrow> (key \<times> val) option cursor_op" where
  "cursor_next E fuel = next_loop E fuel fuel"

section \<open>Range scans\<close>

record scan_args =
  start_bound :: "key option"
  end_bound :: "key option"
  start_inclusive :: bool
  end_inclusive :: bool
  reverse :: bool
  offset :: u64
  limit :: "usize option"

definition default_scan_args :: scan_args where
  "default_scan_args = \<lparr>start_bound = None, end_bound = None, start_inclusive = True,
     end_inclusive = False, reverse = False, offset = 0, limit = None\<rparr>"

text \<open>The tests that end a scan: the end bound forwards, both bounds backwards.\<close>

definition above_start :: "scan_args \<Rightarrow> key \<Rightarrow> bool" where
  "above_start args k = (case start_bound args of None \<Rightarrow> False
     | Some sb \<Rightarrow> sb < k \<or> k = sb \<and> \<not> start_inclusive args)"

definition past_end :: "scan_args \<Rightarrow> key \<Rightarrow> bool" where
  "past_end args k = (case end_bound args of None \<Rightarrow> False
     | Some eb \<Rightarrow> (if reverse args then k < eb else eb < k) \<or> k = eb \<and> \<not> end_inclusive args)"

definition out_of_range :: "scan_args \<Rightarrow> key \<Rightarrow> bool" where
  "out_of_range args k = (if reverse args then above_start args k \<or> past_end args k else past_end args k)"

text \<open>The first index of a leaf in the direction of the scan, and the index after one.\<close>

definition first_idx :: "bool \<Rightarrow> leaf_entry list \<Rightarrow> nat option" where
  "first_idx back es = (if \<not> back then Some 0 else if es = [] then None else Some (length es - 1))"

definition step_idx :: "bool \<Rightarrow> nat \<Rightarrow> nat option" where
  "step_idx back i = (if \<not> back then Some (Suc i) else if i = 0 then None else Some (i - 1))"

definition load_value_repr_from_store :: "value_repr \<Rightarrow> val io" where
  "load_value_repr_from_store = load_value_repr Async"

definition load_value_repr_from_store_sync :: "value_repr \<Rightarrow> val io" where
  "load_value_repr_from_store_sync = load_value_repr Sync"

definition load_value_in :: "mode \<Rightarrow> value_repr \<Rightarrow> val io" where
  "load_value_in md = (case md of Async \<Rightarrow> load_value_repr_from_store | Sync \<Rightarrow> load_value_repr_from_store_sync)"

lemma load_value_in_eq [simp]: "load_value_in md = load_value_repr md"
  by (cases md) (simp_all add: load_value_in_def load_value_repr_from_store_def load_value_repr_from_store_sync_def)

fun scan_next_loop :: "extern \<Rightarrow> mode \<Rightarrow> nat \<Rightarrow> scan_args \<Rightarrow> nat \<Rightarrow> (key \<times> val) option cursor_op" where
  "scan_next_loop E md fuel args 0 = throwC OutOfFuel"
| "scan_next_loop E md fuel args (Suc n) = bindC read_cursor (\<lambda>c. case path c of
     [] \<Rightarrow> returnC None
   | f # _ \<Rightarrow> (case fst (snd f) of
       Internal _ _ \<Rightarrow> throwC (Err (InternalError ''Cursor path top was not a LeafNode during next_in_scan''))
     | Leaf _ entries \<Rightarrow> (case entry_at entries (current_leaf_entry_idx c) of
         Some e \<Rightarrow>
           (if out_of_range args (le_key e) then returnC None
            else bindC (with_store (load_value_in md (le_value e))) (\<lambda>v.
                 bindC (set_idx (step_idx (reverse args) (the (current_leaf_entry_idx c)))) (\<lambda>_.
                 returnC (Some (le_key e, v)))))
       | None \<Rightarrow> bindC (advance_path E md fuel (reverse args)) (\<lambda>advanced.
           if \<not> advanced then returnC None
           else bindC read_cursor (\<lambda>c1. case path c1 of
               [] \<Rightarrow> returnC None
             | f1 # _ \<Rightarrow> (case fst (snd f1) of
                 Internal _ _ \<Rightarrow> throwC (Err (InternalError ''Advanced cursor path did not end in a leaf''))
               | Leaf _ new_entries \<Rightarrow> bindC (set_idx (first_idx (reverse args) new_entries)) (\<lambda>_.
                   scan_next_loop E md fuel args n)))))))"

definition next_in_scan :: "extern \<Rightarrow> mode \<Rightarrow> nat \<Rightarrow> scan_args \<Rightarrow> (key \<times> val) option cursor_op" where
  "next_in_scan E md fuel args = scan_next_loop E md fuel args fuel"

definition next_in_scan_sync :: "extern \<Rightarrow> nat \<Rightarrow> scan_args \<Rightarrow> (key \<times> val) option cursor_op" where
  "next_in_scan_sync E = next_in_scan E Sync"

section \<open>A cursor for a scan\<close>

text \<open>Phase 1: down to the leaf of the start bound, or to the first leaf in the direction of the scan.\<close>

definition scan_child :: "scan_args \<Rightarrow> internal_entry list \<Rightarrow> nat" where
  "scan_child args cs = (case start_bound args of
     Some k \<Rightarrow> min (search_pos (binary_search (map boundary_key cs) k)) (length cs - 1)
   | None \<Rightarrow> if reverse args then length cs - 1 else 0)"

fun scan_descend :: "extern \<Rightarrow> mode \<Rightarrow> nat \<Rightarrow> scan_args \<Rightarrow> node \<Rightarrow> unit cursor_op" where
  "scan_descend E md fuel args (Leaf _ _) = returnC ()"
| "scan_descend E md 0 args (Internal _ _) = throwC OutOfFuel"
| "scan_descend E md (Suc fuel) args (Internal _ cs) =
     (if cs = [] then returnC ()
      else let i = scan_child args cs; h = child_hash (cs ! i)
           in bindC (with_store (load_node E md h)) (\<lambda>nd.
              bindC (push_frame (h, nd, Some i)) (\<lambda>_. scan_descend E md fuel args nd)))"

definition clamp_idx :: "leaf_entry list \<Rightarrow> nat \<Rightarrow> nat option" where
  "clamp_idx es i = (if es = [] then None else if length es \<le> i then Some (length es - 1) else Some i)"

definition start_idx :: "scan_args \<Rightarrow> leaf_entry list \<Rightarrow> nat option" where
  "start_idx args es = (case start_bound args of
     None \<Rightarrow> first_idx (reverse args) es
   | Some k \<Rightarrow>
       if \<not> reverse args then Some (search_pos (leaf_search es k))
       else clamp_idx es (case leaf_search es k of Found i \<Rightarrow> i | Missing i \<Rightarrow> i - 1))"

definition scan_position :: "scan_args \<Rightarrow> unit cursor_op" where
  "scan_position args = bindC read_cursor (\<lambda>c. case path c of
     (_, Leaf _ es, _) # _ \<Rightarrow> set_idx (start_idx args es)
   | _ \<Rightarrow> returnC ())"

text \<open>
  Phase 2: skip the offset, whole leaves at a time. The result is what remains of the offset when
  the loop stops. A forward index is at most the length of the leaf, so the asynchronous function's
  assignment of that length to an index that has reached it changes nothing and is left out.
\<close>

fun skip_offset :: "extern \<Rightarrow> mode \<Rightarrow> nat \<Rightarrow> scan_args \<Rightarrow> nat \<Rightarrow> nat \<Rightarrow> nat cursor_op" where
  "skip_offset E md fuel args 0 remaining = throwC OutOfFuel"
| "skip_offset E md fuel args (Suc n) remaining =
     (if remaining = 0 then returnC 0
      else bindC read_cursor (\<lambda>c. case path c of
        [] \<Rightarrow> returnC remaining
      | f # _ \<Rightarrow> (case fst (snd f) of
          Internal _ _ \<Rightarrow> returnC remaining
        | Leaf _ entries \<Rightarrow>
            (let to_next_leaf = (\<lambda>rest. bindC (advance_path E md fuel (reverse args)) (\<lambda>advanced.
                   if \<not> advanced then returnC 0
                   else bindC read_cursor (\<lambda>c1. case path c1 of
                       (_, Leaf _ new_entries, _) # _ \<Rightarrow>
                         bindC (set_idx (first_idx (reverse args) new_entries)) (\<lambda>_. skip_offset E md fuel args n rest)
                     | _ \<Rightarrow> returnC rest)))
             in case current_leaf_entry_idx c of
                  None \<Rightarrow> to_next_leaf remaining
                | Some i \<Rightarrow>
                    if \<not> reverse args \<and> length entries \<le> i then to_next_leaf remaining
                    else let available = (if reverse args then Suc i else length entries - i)
                         in if remaining < available
                            then bindC (set_idx (Some (if reverse args then i - remaining else i + remaining)))
                                   (\<lambda>_. returnC 0)
                            else bindC (set_idx (if reverse args then None else Some (length entries)))
                                   (\<lambda>_. to_next_leaf (remaining - available))))))"

text \<open>What is left of the offset can be positive only when the path does not end in a leaf.\<close>

definition skip_rest :: "mode \<Rightarrow> scan_args \<Rightarrow> nat \<Rightarrow> unit cursor_op" where
  "skip_rest md args remaining = bindC read_cursor (\<lambda>c.
     if remaining = 0 \<or> md = Async \<and> path c = [] then returnC ()
     else if reverse args then set_idx None
     else case path c of
       [] \<Rightarrow> set_idx (Some 0)
     | f # _ \<Rightarrow> (case fst (snd f) of
         Leaf _ es \<Rightarrow> set_idx (Some (length es))
       | Internal _ cs \<Rightarrow> if md = Async then returnC () else set_idx (Some (length cs))))"

text \<open>Phase 3: step over the start bound when it is excluded.\<close>

definition exclude_start :: "scan_args \<Rightarrow> unit cursor_op" where
  "exclude_start args = bindC read_cursor (\<lambda>c. case path c of
     (_, Leaf _ es, _) # _ \<Rightarrow> (case (start_bound args, current_leaf_entry_idx c) of
         (Some sb, Some i) \<Rightarrow>
           if i < length es \<and> \<not> start_inclusive args \<and> le_key (es ! i) = sb
           then set_idx (step_idx (reverse args) i) else returnC ()
       | _ \<Rightarrow> returnC ())
   | _ \<Rightarrow> returnC ())"

definition new_for_scan :: "extern \<Rightarrow> mode \<Rightarrow> nat \<Rightarrow> tree \<Rightarrow> scan_args \<Rightarrow> cursor io" where
  "new_for_scan E md fuel t args =
     (let c = \<lparr>path = [], current_leaf_entry_idx = (if reverse args then None else Some 0)\<rparr> in
      case root_hash t of
        None \<Rightarrow> returnC c
      | Some h \<Rightarrow> build_cursor c (
          bindC (with_store (load_node E md h)) (\<lambda>nd.
          bindC (push_frame (h, nd, None)) (\<lambda>_.
          bindC (scan_descend E md fuel args nd) (\<lambda>_.
          bindC (scan_position args) (\<lambda>_.
          bindC (skip_offset E md fuel args fuel (unat (offset args))) (\<lambda>remaining.
          bindC (skip_rest md args remaining) (\<lambda>_.
          exclude_start args))))))))"

definition new_for_scan_sync :: "extern \<Rightarrow> nat \<Rightarrow> tree \<Rightarrow> scan_args \<Rightarrow> cursor io" where
  "new_for_scan_sync E = new_for_scan E Sync"

end
