(* ===== verification/Cursor_Path.thy ===== *)
theory Cursor_Path
  imports Cursor
begin

text \<open>
  What the path of a cursor means. \<open>path_at E lo hi s fs n es L R\<close>: the path \<open>fs\<close> of a well-formed tree
  ends in a node of height \<open>n\<close> with the entries \<open>es\<close>; \<open>L\<close> are the entries of the tree left of it,
  \<open>R\<close> those right of it. Moving a path to the next leaf moves entries from the right to the left and
  loses none.
\<close>

section \<open>Running computations on a cursor\<close>

lemma with_store_apply [comp_simps]: "with_store m (c, s) = (case m s of (r, s') \<Rightarrow> (r, (c, s')))"
  by (simp add: with_store_def)

lemma read_cursor_apply [comp_simps]: "read_cursor (c, s) = (Inr c, (c, s))"
  by (simp add: read_cursor_def)

lemma set_path_apply [comp_simps]: "set_path p (c, s) = (Inr (), (c\<lparr>path := p\<rparr>, s))"
  by (simp add: set_path_def)

lemma push_frame_apply [comp_simps]: "push_frame f (c, s) = (Inr (), (c\<lparr>path := f # path c\<rparr>, s))"
  by (simp add: push_frame_def)

lemma set_idx_apply [comp_simps]: "set_idx i (c, s) = (Inr (), (c\<lparr>current_leaf_entry_idx := i\<rparr>, s))"
  by (simp add: set_idx_def)

section \<open>Paths\<close>

inductive path_at :: "extern \<Rightarrow> nat \<Rightarrow> nat \<Rightarrow> store \<Rightarrow> frame list \<Rightarrow> nat \<Rightarrow> leaf_entry list \<Rightarrow>
    leaf_entry list \<Rightarrow> leaf_entry list \<Rightarrow> bool"
  for E :: extern and lo hi :: nat and s :: store where
  root: "stored E s h nd \<Longrightarrow> node_at E lo hi s b n nd es \<Longrightarrow> es \<noteq> [] \<Longrightarrow>
    path_at E lo hi s [(h, nd, None)] n es [] []"
| child: "path_at E lo hi s ((h, Internal l (ls @ c # rs), i) # fs) (Suc n) (concat xs @ es @ concat ys) L R \<Longrightarrow>
    children_at E lo hi s n ls xs \<Longrightarrow> child_at E lo hi s lo n c es \<Longrightarrow> children_at E lo hi s n rs ys \<Longrightarrow>
    stored E s (child_hash c) nd \<Longrightarrow> node_at E lo hi s lo n nd es \<Longrightarrow>
    path_at E lo hi s ((child_hash c, nd, Some (length ls)) # (h, Internal l (ls @ c # rs), i) # fs) n es
      (L @ concat xs) (concat ys @ R)"

inductive_cases path_at_NilE: "path_at E lo hi s [] n es L R"
inductive_cases path_at_oneE: "path_at E lo hi s [f] n es L R"
inductive_cases path_at_twoE: "path_at E lo hi s (f # g # fs) n es L R"

lemma path_at_not_Nil: "path_at E lo hi s fs n es L R \<Longrightarrow> fs \<noteq> [] \<and> es \<noteq> []"
  by (induction rule: path_at.induct) (auto simp: child_at_def)

text \<open>The node on top of a path.\<close>

lemma path_at_top:
  assumes "path_at E lo hi s fs n es L R"
  obtains h nd i rest b where "fs = (h, nd, i) # rest" "stored E s h nd" "node_at E lo hi s b n nd es"
  using assms by (cases rule: path_at.cases) auto

lemma path_at_leaf:
  assumes "path_at E lo hi s fs 0 es L R"
  obtains h i rest where "fs = (h, Leaf 0 es, i) # rest"
  using assms by (rule path_at_top) auto

text \<open>One step down from a node, to any of its children.\<close>

lemma path_at_child:
  assumes path: "path_at E lo hi s ((h, Internal l cs, i) # fs) (Suc n) es L R"
    and cs: "cs = ls @ c # rs" and j: "j = length ls"
    and at: "children_at E lo hi s n ls xs" "child_at E lo hi s lo n c es'" "children_at E lo hi s n rs ys"
    and es: "es = concat xs @ es' @ concat ys"
  obtains nd where "stored E s (child_hash (cs ! j)) nd"
    "path_at E lo hi s ((child_hash (cs ! j), nd, Some j) # (h, Internal l cs, i) # fs) n es'
       (L @ concat xs) (concat ys @ R)"
proof -
  from at(2) obtain nd where nd: "stored E s (child_hash c) nd" "node_at E lo hi s lo n nd es'"
    by (auto simp: child_at_def)
  have "path_at E lo hi s ((child_hash c, nd, Some (length ls)) # (h, Internal l (ls @ c # rs), i) # fs) n es'
      (L @ concat xs) (concat ys @ R)"
    using path unfolding cs es by (intro path_at.child [OF _ at nd(1,2)])
  with that [of nd] nd(1) cs j show thesis by simp
qed

lemma children_at_split:
  assumes "children_at E lo hi s n cs ess" "i < length cs"
  obtains ls c rs xs es ys where "cs = ls @ c # rs" "i = length ls" "ess = xs @ es # ys"
    "children_at E lo hi s n ls xs" "child_at E lo hi s lo n c es" "children_at E lo hi s n rs ys"
proof -
  obtain ls rs where "cs = ls @ cs ! i # rs" "length ls = i"
    using split_at_index [OF assms(2)] by metis
  then obtain c where cs: "cs = ls @ c # rs" "i = length ls" by metis
  with assms(1) obtain xs es ys where "ess = xs @ es # ys" "children_at E lo hi s n ls xs"
    "child_at E lo hi s lo n c es" "children_at E lo hi s n rs ys"
    by (auto simp: list_all2_append1 list_all2_Cons1)
  with cs show thesis by (rule that)
qed

section \<open>Down an edge\<close>

lemma descend_edge_left:
  assumes "bincode_ok E" "avail md s"
    and "path_at E lo hi s ((h, nd, idx) # fs) n es L R" "stored E s h nd" "n < fuel"
  shows "\<exists>fs' es1 es2. descend_edge E md fuel False msg h idx (c\<lparr>path := fs\<rparr>, s) = (Inr (), (c\<lparr>path := fs'\<rparr>, s))
    \<and> path_at E lo hi s fs' 0 es1 L (es2 @ R) \<and> es = es1 @ es2 \<and> length fs' = Suc n + length fs"
  using assms(3-)
proof (induction n arbitrary: h nd idx fs es R fuel)
  case 0
  then obtain f where f: "fuel = Suc f" by (cases fuel) auto
  from "0.prems"(1) have "nd = Leaf 0 es" by (rule path_at_leaf) auto
  with "0.prems"(1) show ?case
    by (intro exI [of _ "(h, nd, idx) # fs"] exI [of _ es] exI [of _ "[]"])
      (simp add: f comp_simps load_node_stored [OF assms(1,2) "0.prems"(2)])
next
  case (Suc n)
  then obtain f where f: "fuel = Suc f" by (cases fuel) auto
  from Suc.prems(1) obtain b where "node_at E lo hi s b (Suc n) nd es" by (rule path_at_top) auto
  then obtain cs ess where nd: "nd = Internal (of_nat (Suc n)) cs" "es = concat ess" "children_at E lo hi s n cs ess"
    by (auto simp: node_at_Suc)
  have "cs \<noteq> []" using nd(2,3) path_at_not_Nil [OF Suc.prems(1)] by auto
  then obtain c0 rs e0 ys where cs: "cs = c0 # rs" "ess = e0 # ys" "child_at E lo hi s lo n c0 e0"
    "children_at E lo hi s n rs ys"
    using nd(3) by (cases cs) (auto simp: list_all2_Cons1)
  obtain nd' where nd': "stored E s (child_hash (cs ! 0)) nd'"
    "path_at E lo hi s ((child_hash (cs ! 0), nd', Some 0) # (h, nd, idx) # fs) n e0 L (concat ys @ R)"
    using path_at_child [of E lo hi s h "of_nat (Suc n)" cs idx fs n es L R "[]" c0 rs 0 "[]" e0 ys]
      Suc.prems(1) nd(1,2) cs by auto
  from Suc.IH [OF nd'(2,1), of f] Suc.prems(3) f obtain fs' es1 es2 where rec:
    "descend_edge E md f False msg (child_hash (cs ! 0)) (Some 0) (c\<lparr>path := (h, nd, idx) # fs\<rparr>, s)
       = (Inr (), (c\<lparr>path := fs'\<rparr>, s))"
    "path_at E lo hi s fs' 0 es1 L (es2 @ concat ys @ R)" "e0 = es1 @ es2"
    "length fs' = Suc n + length ((h, nd, idx) # fs)" by auto
  then have "path_at E lo hi s fs' 0 es1 L ((es2 @ concat ys) @ R)" "es = es1 @ (es2 @ concat ys)"
    using nd(2) cs(2) by simp_all
  moreover have "descend_edge E md fuel False msg h idx (c\<lparr>path := fs\<rparr>, s) = (Inr (), (c\<lparr>path := fs'\<rparr>, s))"
    using rec(1) \<open>cs \<noteq> []\<close>
    by (simp add: f comp_simps load_node_stored [OF assms(1,2) Suc.prems(2)] nd(1) Let_def)
  ultimately show ?case
    using rec(4) by (intro exI [of _ fs'] exI [of _ es1] exI [of _ "es2 @ concat ys"]) simp
qed

lemma descend_edge_right:
  assumes "bincode_ok E" "avail md s"
    and "path_at E lo hi s ((h, nd, idx) # fs) n es L R" "stored E s h nd" "n < fuel"
  shows "\<exists>fs' es1 es2. descend_edge E md fuel True msg h idx (c\<lparr>path := fs\<rparr>, s) = (Inr (), (c\<lparr>path := fs'\<rparr>, s))
    \<and> path_at E lo hi s fs' 0 es2 (L @ es1) R \<and> es = es1 @ es2 \<and> length fs' = Suc n + length fs"
  using assms(3-)
proof (induction n arbitrary: h nd idx fs es L fuel)
  case 0
  then obtain f where f: "fuel = Suc f" by (cases fuel) auto
  from "0.prems"(1) have "nd = Leaf 0 es" by (rule path_at_leaf) auto
  with "0.prems"(1) show ?case
    by (intro exI [of _ "(h, nd, idx) # fs"] exI [of _ "[]"] exI [of _ es])
      (simp add: f comp_simps load_node_stored [OF assms(1,2) "0.prems"(2)])
next
  case (Suc n)
  then obtain f where f: "fuel = Suc f" by (cases fuel) auto
  from Suc.prems(1) obtain b where "node_at E lo hi s b (Suc n) nd es" by (rule path_at_top) auto
  then obtain cs ess where nd: "nd = Internal (of_nat (Suc n)) cs" "es = concat ess" "children_at E lo hi s n cs ess"
    by (auto simp: node_at_Suc)
  have ne: "cs \<noteq> []" using nd(2,3) path_at_not_Nil [OF Suc.prems(1)] by auto
  define i where "i = length cs - 1"
  have "i < length cs" using ne by (simp add: i_def)
  then obtain ls c0 rs xs e0 ys where cs: "cs = ls @ c0 # rs" "i = length ls" "ess = xs @ e0 # ys"
    "children_at E lo hi s n ls xs" "child_at E lo hi s lo n c0 e0" "children_at E lo hi s n rs ys"
    by (rule children_at_split [OF nd(3)])
  then have "rs = []" "ys = []" by (auto simp: i_def)
  obtain nd' where nd': "stored E s (child_hash (cs ! i)) nd'"
    "path_at E lo hi s ((child_hash (cs ! i), nd', Some i) # (h, nd, idx) # fs) n e0 (L @ concat xs) R"
    using path_at_child [of E lo hi s h "of_nat (Suc n)" cs idx fs n es L R ls c0 rs i xs e0 ys]
      Suc.prems(1) nd(1,2) cs \<open>ys = []\<close> by auto
  from Suc.IH [OF nd'(2,1), of f] Suc.prems(3) f obtain fs' es1 es2 where rec:
    "descend_edge E md f True msg (child_hash (cs ! i)) (Some i) (c\<lparr>path := (h, nd, idx) # fs\<rparr>, s)
       = (Inr (), (c\<lparr>path := fs'\<rparr>, s))"
    "path_at E lo hi s fs' 0 es2 ((L @ concat xs) @ es1) R" "e0 = es1 @ es2"
    "length fs' = Suc n + length ((h, nd, idx) # fs)" by auto
  then have "path_at E lo hi s fs' 0 es2 (L @ concat xs @ es1) R" "es = (concat xs @ es1) @ es2"
    using nd(2) cs(3) \<open>ys = []\<close> by simp_all
  moreover have "descend_edge E md fuel True msg h idx (c\<lparr>path := fs\<rparr>, s) = (Inr (), (c\<lparr>path := fs'\<rparr>, s))"
    using rec(1) ne by (simp add: f comp_simps load_node_stored [OF assms(1,2) Suc.prems(2)] nd(1) Let_def i_def)
  ultimately show ?case
    using rec(4) by (intro exI [of _ fs'] exI [of _ "concat xs @ es1"] exI [of _ es2]) simp
qed

section \<open>To the next and the previous leaf\<close>

lemma advance_next_at:
  assumes "bincode_ok E" "avail md s"
    and "path_at E lo hi s fs n es L R" "n + length fs \<le> fuel"
  shows "if R = [] then advance_next E md fuel fs (c, s) = (Inr False, (c\<lparr>path := []\<rparr>, s))
    else \<exists>fs' es1 es2. advance_next E md fuel fs (c, s) = (Inr True, (c\<lparr>path := fs'\<rparr>, s))
      \<and> path_at E lo hi s fs' 0 es1 (L @ es) es2 \<and> R = es1 @ es2 \<and> length fs' = n + length fs"
  using assms(3,4)
proof (induction arbitrary: c rule: path_at.induct)
  case (root h nd b n es)
  then show ?case by (simp add: comp_simps)
next
  case (child h l ls c0 rs i fs n xs es ys L R nd)
  let ?top = "(h, Internal l (ls @ c0 # rs), i) # fs"
  show ?case
  proof (cases rs)
    case Nil
    then have ys: "ys = []" using child.hyps(4) by simp
    have step: "advance_next E md fuel ((child_hash c0, nd, Some (length ls)) # ?top) (c, s)
        = advance_next E md fuel ?top (c\<lparr>path := ?top\<rparr>, s)"
      using Nil by (simp add: comp_simps Let_def)
    show ?thesis
      using child.IH [of "c\<lparr>path := ?top\<rparr>"] child.prems unfolding step
      by (cases "R = []") (simp_all add: ys)
  next
    case (Cons c1 rs')
    then obtain e1 ys' where ys: "ys = e1 # ys'" "child_at E lo hi s lo n c1 e1" "children_at E lo hi s n rs' ys'"
      using child.hyps(4) by (auto simp: list_all2_Cons1)
    have left: "children_at E lo hi s n (ls @ [c0]) (xs @ [es])"
      using child.hyps(2,3) by (simp add: list_all2_appendI)
    have all: "ls @ c0 # rs = (ls @ [c0]) @ c1 # rs'" "Suc (length ls) = length (ls @ [c0])"
      "concat xs @ es @ concat ys = concat (xs @ [es]) @ e1 @ concat ys'"
      using Cons ys(1) by simp_all
    obtain nd1 where nd1: "stored E s (child_hash ((ls @ c0 # rs) ! Suc (length ls))) nd1"
      "path_at E lo hi s ((child_hash ((ls @ c0 # rs) ! Suc (length ls)), nd1, Some (Suc (length ls))) # ?top) n e1
         (L @ concat (xs @ [es])) (concat ys' @ R)"
      by (rule path_at_child [OF child.hyps(1) all(1,2) left ys(2,3) all(3)])
    have fuel: "n < fuel" using child.prems by simp
    obtain fs' es1 es2 where d: "descend_edge E md fuel False (empty_message md False)
        (child_hash ((ls @ c0 # rs) ! Suc (length ls))) (Some (Suc (length ls))) (c\<lparr>path := ?top\<rparr>, s)
        = (Inr (), (c\<lparr>path := fs'\<rparr>, s))"
      "path_at E lo hi s fs' 0 es1 (L @ concat (xs @ [es])) (es2 @ concat ys' @ R)" "e1 = es1 @ es2"
      "length fs' = Suc n + length ?top"
      using descend_edge_left [OF assms(1,2) nd1(2,1) fuel] by blast
    have "advance_next E md fuel ((child_hash c0, nd, Some (length ls)) # ?top) (c, s)
        = (Inr True, (c\<lparr>path := fs'\<rparr>, s))"
      using Cons d(1) by (simp add: comp_simps Let_def)
    moreover have "path_at E lo hi s fs' 0 es1 ((L @ concat xs) @ es) (es2 @ concat ys' @ R)
        \<and> concat ys @ R = es1 @ es2 @ concat ys' @ R
        \<and> length fs' = n + length ((child_hash c0, nd, Some (length ls)) # ?top)"
      using d(2-4) ys(1) by simp
    moreover have "concat ys @ R \<noteq> []"
      using ys(1) path_at_not_Nil [OF nd1(2)] by simp
    ultimately show ?thesis
      by (simp only: if_False) blast
  qed
qed

lemma advance_prev_at:
  assumes "bincode_ok E" "avail md s"
    and "path_at E lo hi s fs n es L R" "n + length fs \<le> fuel"
  shows "if L = [] then advance_prev E md fuel fs (c, s) = (Inr False, (c\<lparr>path := []\<rparr>, s))
    else \<exists>fs' es1 es2. advance_prev E md fuel fs (c, s) = (Inr True, (c\<lparr>path := fs'\<rparr>, s))
      \<and> path_at E lo hi s fs' 0 es2 es1 (es @ R) \<and> L = es1 @ es2 \<and> length fs' = n + length fs"
  using assms(3,4)
proof (induction arbitrary: c rule: path_at.induct)
  case (root h nd b n es)
  then show ?case by (simp add: comp_simps)
next
  case (child h l ls c0 rs i fs n xs es ys L R nd)
  let ?top = "(h, Internal l (ls @ c0 # rs), i) # fs"
  show ?case
  proof (cases ls rule: rev_cases)
    case Nil
    then have xs: "xs = []" using child.hyps(2) by simp
    have step: "advance_prev E md fuel ((child_hash c0, nd, Some (length ls)) # ?top) (c, s)
        = advance_prev E md fuel ?top (c\<lparr>path := ?top\<rparr>, s)"
      using Nil by (simp add: comp_simps)
    show ?thesis
      using child.IH [of "c\<lparr>path := ?top\<rparr>"] child.prems unfolding step
      by (cases "L = []") (simp_all add: xs)
  next
    case (snoc ls' c1)
    then obtain xs' e1 where xs: "xs = xs' @ [e1]" "children_at E lo hi s n ls' xs'" "child_at E lo hi s lo n c1 e1"
      using child.hyps(2) by (auto simp: list_all2_append1 list_all2_Cons1)
    have right: "children_at E lo hi s n (c0 # rs) (es # ys)"
      using child.hyps(3,4) by simp
    have all: "ls @ c0 # rs = ls' @ c1 # (c0 # rs)" "length ls' = length ls'"
      "concat xs @ es @ concat ys = concat xs' @ e1 @ concat (es # ys)"
      using snoc xs(1) by simp_all
    obtain nd1 where nd1: "stored E s (child_hash ((ls @ c0 # rs) ! length ls')) nd1"
      "path_at E lo hi s ((child_hash ((ls @ c0 # rs) ! length ls'), nd1, Some (length ls')) # ?top) n e1
         (L @ concat xs') (concat (es # ys) @ R)"
      by (rule path_at_child [OF child.hyps(1) all(1,2) xs(2,3) right all(3)])
    have fuel: "n < fuel" using child.prems by simp
    obtain fs' es1 es2 where d: "descend_edge E md fuel True (empty_message md True)
        (child_hash ((ls @ c0 # rs) ! length ls')) (Some (length ls')) (c\<lparr>path := ?top\<rparr>, s)
        = (Inr (), (c\<lparr>path := fs'\<rparr>, s))"
      "path_at E lo hi s fs' 0 es2 ((L @ concat xs') @ es1) (concat (es # ys) @ R)" "e1 = es1 @ es2"
      "length fs' = Suc n + length ?top"
      using descend_edge_right [OF assms(1,2) nd1(2,1) fuel] by blast
    have "advance_prev E md fuel ((child_hash c0, nd, Some (length ls)) # ?top) (c, s)
        = (Inr True, (c\<lparr>path := fs'\<rparr>, s))"
      using snoc d(1) by (simp add: comp_simps)
    moreover have "path_at E lo hi s fs' 0 es2 (L @ concat xs' @ es1) (es @ concat ys @ R)
        \<and> L @ concat xs = (L @ concat xs' @ es1) @ es2
        \<and> length fs' = n + length ((child_hash c0, nd, Some (length ls)) # ?top)"
      using d(2-4) xs(1) by simp
    moreover have "L @ concat xs \<noteq> []"
      using xs(1) path_at_not_Nil [OF nd1(2)] by simp
    ultimately show ?thesis
      by (simp only: if_False) blast
  qed
qed

end
