(* ===== verification/Cursor_Iter.thy ===== *)
theory Cursor_Iter
  imports Cursor_Path
begin

text \<open>
  Iterating with a cursor. \<open>cursor_at\<close> relates a cursor to the entries it has still to yield, in
  either direction; the contract of an iterator is the locale \<open>iterator\<close>, interpreted on
  \<^verbatim>\<open>Cursor::next\<close> and \<^verbatim>\<open>Cursor::next_in_scan\<close>.
\<close>

section \<open>What a cursor has still to yield\<close>

inductive cursor_at :: "extern \<Rightarrow> nat \<Rightarrow> nat \<Rightarrow> store \<Rightarrow> nat \<Rightarrow> bool \<Rightarrow> cursor \<Rightarrow> leaf_entry list \<Rightarrow> bool"
  for E :: extern and lo hi :: nat and s :: store and fuel :: nat and rv :: bool where
  finished: "path c = [] \<Longrightarrow> 0 < fuel \<Longrightarrow> cursor_at E lo hi s fuel rv c []"
| forward: "\<not> rv \<Longrightarrow> path_at E lo hi s (path c) 0 es L R \<Longrightarrow> length (path c) < fuel \<Longrightarrow>
    current_leaf_entry_idx c = Some i \<Longrightarrow> i \<le> length es \<Longrightarrow>
    cursor_at E lo hi s fuel rv c (drop i es @ R)"
| backward: "rv \<Longrightarrow> path_at E lo hi s (path c) 0 es L R \<Longrightarrow> length (path c) < fuel \<Longrightarrow>
    current_leaf_entry_idx c = Some i \<Longrightarrow> i < length es \<Longrightarrow>
    cursor_at E lo hi s fuel rv c (rev (L @ take (Suc i) es))"
| before_leaf: "rv \<Longrightarrow> path_at E lo hi s (path c) 0 es L R \<Longrightarrow> length (path c) < fuel \<Longrightarrow>
    current_leaf_entry_idx c = None \<Longrightarrow> cursor_at E lo hi s fuel rv c (rev L)"

lemma cursor_at_first:
  assumes "path_at E lo hi s (path c) 0 es L R" "length (path c) < fuel"
    "current_leaf_entry_idx c = first_idx rv es"
  shows "cursor_at E lo hi s fuel rv c (if rv then rev (L @ es) else es @ R)"
proof (cases rv)
  case False
  with cursor_at.forward [OF False assms(1,2), of 0] assms(3) show ?thesis
    by (simp add: first_idx_def)
next
  case True
  have "es \<noteq> []" using path_at_not_Nil [OF assms(1)] by blast
  with cursor_at.backward [OF True assms(1,2), of "length es - 1"] assms(3) True show ?thesis
    by (simp add: first_idx_def)
qed

lemma cursor_at_step:
  assumes "path_at E lo hi s (path c) 0 es L R" "length (path c) < fuel"
    and "i < length es" "current_leaf_entry_idx c = step_idx rv i"
  shows "cursor_at E lo hi s fuel rv c (if rv then rev (L @ take i es) else drop (Suc i) es @ R)"
proof (cases rv)
  case False
  with cursor_at.forward [OF False assms(1,2), of "Suc i"] assms(3,4) show ?thesis
    by (simp add: step_idx_def)
next
  case True
  show ?thesis
  proof (cases i)
    case 0
    with True assms(4) cursor_at.before_leaf [OF True assms(1,2)] show ?thesis
      by (simp add: step_idx_def)
  next
    case (Suc j)
    with True assms(3,4) cursor_at.backward [OF True assms(1,2), of j] show ?thesis
      by (simp add: step_idx_def)
  qed
qed

text \<open>A cursor is at its end, on an entry, or past the last entry of its leaf.\<close>

text \<open>Moving on from a leaf: the path to the next one, in the direction of reading, or the end.\<close>

lemma advance_path_end:
  assumes "bincode_ok E" "avail md s" "path_at E lo hi s (path c) 0 es L R" "length (path c) < fuel"
    and "(if rv then L else R) = []"
  shows "advance_path E md fuel rv (c, s) = (Inr False, (c\<lparr>path := []\<rparr>, s))"
proof -
  have fuel: "0 + length (path c) \<le> fuel" using assms(4) by simp
  with advance_next_at [OF assms(1-3) fuel, of c] advance_prev_at [OF assms(1-3) fuel, of c] assms(5) show ?thesis
    by (auto simp: advance_path_eq comp_simps split: if_splits)
qed

lemma advance_path_more:
  assumes "bincode_ok E" "avail md s" "path_at E lo hi s (path c) 0 es L R" "length (path c) < fuel"
    and "(if rv then L else R) \<noteq> []"
  obtains fs' es' L' R' where "advance_path E md fuel rv (c, s) = (Inr True, (c\<lparr>path := fs'\<rparr>, s))"
    "path_at E lo hi s fs' 0 es' L' R'" "length fs' = length (path c)"
    "(if rv then rev L else R) = (if rv then rev (L' @ es') else es' @ R')"
proof -
  have fuel: "0 + length (path c) \<le> fuel" using assms(4) by simp
  show thesis
  proof (cases rv)
    case True
    with advance_prev_at [OF assms(1-3) fuel, of c] assms(5) obtain fs' es1 es2 where
      "advance_prev E md fuel (path c) (c, s) = (Inr True, (c\<lparr>path := fs'\<rparr>, s))"
      "path_at E lo hi s fs' 0 es2 es1 (es @ R)" "L = es1 @ es2" "length fs' = length (path c)"
      by auto
    with that True show thesis by (simp add: advance_path_eq comp_simps)
  next
    case False
    with advance_next_at [OF assms(1-3) fuel, of c] assms(5) obtain fs' es1 es2 where
      "advance_next E md fuel (path c) (c, s) = (Inr True, (c\<lparr>path := fs'\<rparr>, s))"
      "path_at E lo hi s fs' 0 es1 (L @ es) es2" "R = es1 @ es2" "length fs' = length (path c)"
      by auto
    with that False show thesis by (simp add: advance_path_eq comp_simps)
  qed
qed

lemma cursor_at_cases:
  assumes "bincode_ok E" "avail md s" and at: "cursor_at E lo hi s fuel rv c todo"
  obtains (finished) "path c = []" "todo = []"
  | (current) h es j rest i todo' where "path c = (h, Leaf 0 es, j) # rest"
      "current_leaf_entry_idx c = Some i" "i < length es" "todo = es ! i # todo'"
      "cursor_at E lo hi s fuel rv (c\<lparr>current_leaf_entry_idx := step_idx rv i\<rparr>) todo'"
  | (last_leaf) h es j rest where "path c = (h, Leaf 0 es, j) # rest"
      "entry_at es (current_leaf_entry_idx c) = None" "current_leaf_entry_idx c = None \<longleftrightarrow> rv" "todo = []"
      "advance_path E md fuel rv (c, s) = (Inr False, (c\<lparr>path := []\<rparr>, s))"
  | (next_leaf) h es j rest h' es' j' rest' where "path c = (h, Leaf 0 es, j) # rest"
      "entry_at es (current_leaf_entry_idx c) = None" "current_leaf_entry_idx c = None \<longleftrightarrow> rv" "es' \<noteq> []" "todo \<noteq> []"
      "advance_path E md fuel rv (c, s) = (Inr True, (c\<lparr>path := (h', Leaf 0 es', j') # rest'\<rparr>, s))"
      "cursor_at E lo hi s fuel rv
         (c\<lparr>path := (h', Leaf 0 es', j') # rest', current_leaf_entry_idx := first_idx rv es'\<rparr>) todo"
proof -
  have advance: thesis
    if path: "path_at E lo hi s (path c) 0 es L R" "length (path c) < fuel"
      and none: "entry_at es (current_leaf_entry_idx c) = None" "current_leaf_entry_idx c = None \<longleftrightarrow> rv" and todo: "todo = (if rv then rev L else R)"
    for es L R
  proof -
    from path(1) obtain h j rest where top: "path c = (h, Leaf 0 es, j) # rest" by (rule path_at_leaf)
    show thesis
    proof (cases "todo = []")
      case True
      then have "(if rv then L else R) = []" using todo by (auto split: if_splits)
      from last_leaf [OF top none True advance_path_end [OF assms(1,2) path this]] show thesis .
    next
      case False
      then have "(if rv then L else R) \<noteq> []" using todo by (auto split: if_splits)
      then obtain fs' es' L' R' where adv: "advance_path E md fuel rv (c, s) = (Inr True, (c\<lparr>path := fs'\<rparr>, s))"
        "path_at E lo hi s fs' 0 es' L' R'" "length fs' = length (path c)" "todo = (if rv then rev (L' @ es') else es' @ R')"
        unfolding todo by (rule advance_path_more [OF assms(1,2) path])
      from adv(2) obtain h' j' rest' where top': "fs' = (h', Leaf 0 es', j') # rest'" by (rule path_at_leaf)
      have ne: "es' \<noteq> []" using path_at_not_Nil [OF adv(2)] by blast
      have "cursor_at E lo hi s fuel rv
          (c\<lparr>path := fs', current_leaf_entry_idx := first_idx rv es'\<rparr>) todo"
        using cursor_at_first [of E lo hi s "c\<lparr>path := fs', current_leaf_entry_idx := first_idx rv es'\<rparr>" es' L' R' fuel rv]
          adv path(2) by simp
      with next_leaf [OF top none ne False] adv(1) top' show thesis by simp
    qed
  qed
  have current': thesis
    if path: "path_at E lo hi s (path c) 0 es L R" "length (path c) < fuel"
      and i: "current_leaf_entry_idx c = Some i" "i < length es"
      and todo: "todo = (if rv then rev (L @ take (Suc i) es) else drop i es @ R)"
    for es L R i
  proof -
    from path(1) obtain h j rest where top: "path c = (h, Leaf 0 es, j) # rest" by (rule path_at_leaf)
    have "todo = es ! i # (if rv then rev (L @ take i es) else drop (Suc i) es @ R)"
      using todo i(2) by (simp add: take_Suc_conv_app_nth Cons_nth_drop_Suc [symmetric])
    moreover have "cursor_at E lo hi s fuel rv (c\<lparr>current_leaf_entry_idx := step_idx rv i\<rparr>)
        (if rv then rev (L @ take i es) else drop (Suc i) es @ R)"
      using path i by (intro cursor_at_step) simp_all
    ultimately show thesis
      using current [OF top i] by blast
  qed
  from at show thesis
  proof (cases rule: cursor_at.cases)
    case finished
    with that(1) show thesis by blast
  next
    case (forward es L R i)
    show thesis
    proof (cases "i < length es")
      case True
      with forward show thesis by (intro current' [OF forward(3,4,5) True]) simp
    next
      case False
      with forward show thesis by (intro advance [OF forward(3,4)]) (simp_all add: entry_at_def)
    qed
  next
    case (backward es L R i)
    then show thesis by (intro current' [OF backward(3,4,5,6)]) simp
  next
    case (before_leaf es L R)
    then show thesis by (intro advance [OF before_leaf(3,4)]) (simp_all add: entry_at_def)
  qed
qed

section \<open>The contract of an iterator\<close>

text \<open>
  \<open>holds s c xs\<close>: in the state \<open>s\<close> the iterator \<open>c\<close> has still to yield \<open>xs\<close>. It yields them one by one
  and then nothing, and goes on yielding nothing.
\<close>

locale iterator =
  fixes advance :: "('c \<times> 's, 'e, 'a option) comp"
    and holds :: "'s \<Rightarrow> 'c \<Rightarrow> 'a list \<Rightarrow> bool"
  assumes advance_Nil: "holds s c [] \<Longrightarrow> \<exists>c'. advance (c, s) = (Inr None, (c', s)) \<and> holds s c' []"
    and advance_Cons: "holds s c (x # xs) \<Longrightarrow> \<exists>c'. advance (c, s) = (Inr (Some x), (c', s)) \<and> holds s c' xs"

text \<open>A client that reads an iterator to its end.\<close>

fun drain :: "('c \<times> 's, failure, 'a option) comp \<Rightarrow> nat \<Rightarrow> ('c \<times> 's, failure, 'a list) comp" where
  "drain nxt 0 = throwC OutOfFuel"
| "drain nxt (Suc n) = bindC nxt (\<lambda>r. case r of
     None \<Rightarrow> returnC []
   | Some x \<Rightarrow> bindC (drain nxt n) (\<lambda>xs. returnC (x # xs)))"

locale store_iterator = iterator advance holds
  for advance :: "('c \<times> 's, failure, 'a option) comp" and holds :: "'s \<Rightarrow> 'c \<Rightarrow> 'a list \<Rightarrow> bool"
begin

lemma drain_holds:
  "holds s c xs \<Longrightarrow> length xs < n \<Longrightarrow> \<exists>c'. drain advance n (c, s) = (Inr xs, (c', s)) \<and> holds s c' []"
proof (induction xs arbitrary: c n)
  case Nil
  then obtain m where "n = Suc m" by (cases n) auto
  with advance_Nil [OF Nil.prems(1)] show ?case by (auto simp: comp_simps)
next
  case (Cons x xs)
  then obtain m where n: "n = Suc m" "length xs < m" by (cases n) auto
  from advance_Cons [OF Cons.prems(1)] obtain c1 where
    c1: "advance (c, s) = (Inr (Some x), (c1, s))" "holds s c1 xs" by blast
  from Cons.IH [OF c1(2) n(2)] obtain c' where "drain advance m (c1, s) = (Inr xs, (c', s))" "holds s c' []"
    by blast
  with c1 n(1) show ?case by (auto simp: comp_simps)
qed

end

section \<open>The two iterators of the code\<close>

text \<open>The pair an entry is reported as.\<close>

definition entry_pair :: "store \<Rightarrow> leaf_entry \<Rightarrow> key \<times> val" where
  "entry_pair s e = (le_key e, the (repr_value s (le_value e)))"

lemma load_entry_pair:
  assumes "avail md s" "values_ok s (e # es)"
  shows "\<exists>v. load_value_repr md (le_value e) s = (Inr v, s) \<and> entry_pair s e = (le_key e, v)"
  using assms by (auto simp: values_ok_def entry_pair_def intro: load_value_repr_value)

text \<open>
  The entries a scan still yields: those it would meet, up to the first one out of range.
\<close>

definition in_scan :: "scan_args \<Rightarrow> leaf_entry list \<Rightarrow> leaf_entry list" where
  "in_scan args todo = takeWhile (\<lambda>e. \<not> out_of_range args (le_key e)) todo"

definition scan_holds :: "extern \<Rightarrow> mode \<Rightarrow> nat \<Rightarrow> scan_args \<Rightarrow> store \<Rightarrow> cursor \<Rightarrow> (key \<times> val) list \<Rightarrow> bool" where
  "scan_holds E md fuel args s c xs \<longleftrightarrow> bincode_ok E \<and> avail md s
     \<and> (\<exists>lo hi todo. cursor_at E lo hi s fuel (reverse args) c todo \<and> values_ok s todo
          \<and> xs = map (entry_pair s) (in_scan args todo))"

definition cursor_holds :: "extern \<Rightarrow> nat \<Rightarrow> store \<Rightarrow> cursor \<Rightarrow> (key \<times> val) list \<Rightarrow> bool" where
  "cursor_holds E fuel s c xs \<longleftrightarrow> bincode_ok E
     \<and> (\<exists>lo hi todo. cursor_at E lo hi s fuel False c todo \<and> values_ok s todo \<and> xs = map (entry_pair s) todo)"

lemma cursor_at_length: "cursor_at E lo hi s fuel rv c todo \<Longrightarrow> path c \<noteq> [] \<Longrightarrow> \<exists>f. fuel = Suc (Suc f)"
proof (induction rule: cursor_at.induct)
  case (finished c)
  then show ?case by simp
qed (use not_less_eq_eq in \<open>cases fuel; cases "fuel - 1"; simp\<close>)+

declare scan_next_loop.simps(2) [simp del] next_loop.simps(2) [simp del]

lemma scan_next_current:
  assumes "path c = (h, Leaf 0 es, j) # rest" "current_leaf_entry_idx c = Some i" "i < length es"
  shows "scan_next_loop E md fuel args (Suc n) (c, s) =
    (if out_of_range args (le_key (es ! i)) then (Inr None, (c, s))
     else bindC (with_store (load_value_repr md (le_value (es ! i)))) (\<lambda>v.
          bindC (set_idx (step_idx (reverse args) i)) (\<lambda>_. returnC (Some (le_key (es ! i), v)))) (c, s))"
  using assms by (simp add: scan_next_loop.simps(2) entry_at_def comp_simps)

lemma scan_next_step:
  assumes c: "path c = (h, Leaf 0 es, j) # rest" "current_leaf_entry_idx c = Some i" "i < length es"
    and todo: "todo = es ! i # todo'"
      "cursor_at E lo hi s fuel (reverse args) (c\<lparr>current_leaf_entry_idx := step_idx (reverse args) i\<rparr>) todo'"
    and at: "cursor_at E lo hi s fuel (reverse args) c todo" "values_ok s todo" "avail md s"
  shows "\<exists>c' todo1. scan_next_loop E md fuel args (Suc n) (c, s) =
      (Inr (case in_scan args todo of [] \<Rightarrow> None | e # _ \<Rightarrow> Some (entry_pair s e)), (c', s))
    \<and> cursor_at E lo hi s fuel (reverse args) c' todo1 \<and> values_ok s todo1
    \<and> in_scan args todo1 = tl (in_scan args todo)"
proof (cases "out_of_range args (le_key (es ! i))")
  case True
  then show ?thesis
    using at by (intro exI [of _ c] exI [of _ todo]) (simp add: scan_next_current [OF c] todo(1) in_scan_def)
next
  case False
  from load_entry_pair [OF at(3) at(2) [unfolded todo(1)]] obtain v where
    "load_value_repr md (le_value (es ! i)) s = (Inr v, s)" "entry_pair s (es ! i) = (le_key (es ! i), v)"
    by blast
  then show ?thesis
    using False todo at(2)
    by (intro exI [of _ "c\<lparr>current_leaf_entry_idx := step_idx (reverse args) i\<rparr>"] exI [of _ todo'])
      (simp add: scan_next_current [OF c] comp_simps in_scan_def values_ok_def)
qed

lemma scan_next_at:
  assumes "bincode_ok E" "avail md s" "values_ok s todo"
    and at: "cursor_at E lo hi s fuel (reverse args) c todo"
  shows "\<exists>c' todo1. next_in_scan E md fuel args (c, s) =
      (Inr (case in_scan args todo of [] \<Rightarrow> None | e # _ \<Rightarrow> Some (entry_pair s e)), (c', s))
    \<and> cursor_at E lo hi s fuel (reverse args) c' todo1 \<and> values_ok s todo1
    \<and> in_scan args todo1 = tl (in_scan args todo)"
  using assms(1,2) at
proof (cases rule: cursor_at_cases)
  case finished
  with at obtain f where f: "fuel = Suc f" by (cases rule: cursor_at.cases) (auto dest: gr0_implies_Suc)
  with finished at show ?thesis
    by (intro exI [of _ c] exI [of _ "[]"])
      (simp add: next_in_scan_def scan_next_loop.simps(2) comp_simps in_scan_def values_ok_def)
next
  case (current h es j rest i todo')
  then obtain f where "fuel = Suc f" using cursor_at_length [OF at] by auto
  with scan_next_step [OF current at assms(3,2)] show ?thesis
    by (simp add: next_in_scan_def)
next
  case (last_leaf h es j rest)
  then obtain f where "fuel = Suc f" using cursor_at_length [OF at] by auto
  with last_leaf show ?thesis
    by (intro exI [of _ "c\<lparr>path := []\<rparr>"] exI [of _ "[]"])
      (simp add: next_in_scan_def scan_next_loop.simps(2) comp_simps in_scan_def cursor_at.finished values_ok_def)
next
  case (next_leaf h es j rest h' es' j' rest')
  obtain f where f: "fuel = Suc (Suc f)" using next_leaf cursor_at_length [OF at] by auto
  let ?c = "c\<lparr>path := (h', Leaf 0 es', j') # rest', current_leaf_entry_idx := first_idx (reverse args) es'\<rparr>"
  have step: "next_in_scan E md fuel args (c, s) = scan_next_loop E md fuel args (Suc f) (?c, s)"
    using next_leaf(1,2,6) by (simp add: next_in_scan_def f scan_next_loop.simps(2) comp_simps)
  have idx: "entry_at es' (first_idx (reverse args) es') \<noteq> None"
    using next_leaf(4) by (simp add: entry_at_def first_idx_def)
  from assms(1,2) next_leaf(7) show ?thesis
  proof (cases rule: cursor_at_cases)
    case (current h1 es1 j1 rest1 i todo')
    from scan_next_step [OF current next_leaf(7) assms(3,2), of f] step show ?thesis by simp
  qed (use idx next_leaf(5) in auto)
qed

interpretation scan: store_iterator "next_in_scan E md fuel args" "scan_holds E md fuel args"
  for E md fuel args
proof unfold_locales
  show "\<exists>c'. next_in_scan E md fuel args (c, s) = (Inr None, (c', s)) \<and> scan_holds E md fuel args s c' []"
    if holds: "scan_holds E md fuel args s c []" for s c
  proof -
    from holds obtain lo hi todo where at: "bincode_ok E" "avail md s" "values_ok s todo"
      "cursor_at E lo hi s fuel (reverse args) c todo" "in_scan args todo = []"
      by (auto simp: scan_holds_def)
    from scan_next_at [OF at(1-4)] at(1,2,5) show ?thesis
      by (force simp: scan_holds_def)
  qed
  show "\<exists>c'. next_in_scan E md fuel args (c, s) = (Inr (Some x), (c', s)) \<and> scan_holds E md fuel args s c' xs"
    if holds: "scan_holds E md fuel args s c (x # xs)" for s c x xs
  proof -
    from holds obtain lo hi todo where at: "bincode_ok E" "avail md s" "values_ok s todo"
      "cursor_at E lo hi s fuel (reverse args) c todo" "x # xs = map (entry_pair s) (in_scan args todo)"
      by (auto simp: scan_holds_def)
    then obtain e es where es: "in_scan args todo = e # es" "x = entry_pair s e" "xs = map (entry_pair s) es"
      by (auto simp: Cons_eq_map_conv)
    from scan_next_at [OF at(1-4)] at(1,2) es show ?thesis
      by (force simp: scan_holds_def)
  qed
qed

lemma next_loop_current:
  assumes "path c = (h, Leaf 0 es, j) # rest" "current_leaf_entry_idx c = Some i" "i < length es"
    and "load_value_repr Async (le_value (es ! i)) s = (Inr v, s)"
  shows "next_loop E fuel (Suc n) (c, s) =
    (Inr (Some (le_key (es ! i), v)), (c\<lparr>current_leaf_entry_idx := Some (Suc i)\<rparr>, s))"
  using assms by (simp add: next_loop.simps(2) entry_at_def comp_simps)

lemma next_loop_step:
  assumes c: "path c = (h, Leaf 0 es, j) # rest" "current_leaf_entry_idx c = Some i" "i < length es"
    and todo: "todo = es ! i # todo'"
      "cursor_at E lo hi s fuel False (c\<lparr>current_leaf_entry_idx := step_idx False i\<rparr>) todo'"
    and ok: "values_ok s todo"
  shows "\<exists>c'. next_loop E fuel (Suc n) (c, s) = (Inr (Some (entry_pair s (hd todo))), (c', s))
    \<and> cursor_at E lo hi s fuel False c' (tl todo)"
proof -
  have "avail Async s" by (simp add: avail_def)
  from load_entry_pair [OF this ok [unfolded todo(1)]] obtain v where
    "load_value_repr Async (le_value (es ! i)) s = (Inr v, s)" "entry_pair s (es ! i) = (le_key (es ! i), v)"
    by blast
  with next_loop_current [OF c, of s v E fuel n] todo show ?thesis
    by (auto simp: step_idx_def)
qed

lemma cursor_next_at:
  assumes "bincode_ok E" "values_ok s todo"
    and at: "cursor_at E lo hi s fuel False c todo"
  shows "\<exists>c'. cursor_next E fuel (c, s) =
      (Inr (case todo of [] \<Rightarrow> None | e # _ \<Rightarrow> Some (entry_pair s e)), (c', s))
    \<and> cursor_at E lo hi s fuel False c' (tl todo)"
proof -
  have avail: "avail Async s" by (simp add: avail_def)
  from assms(1) avail at show ?thesis
  proof (cases rule: cursor_at_cases)
    case finished
    with at obtain f where f: "fuel = Suc f" by (cases rule: cursor_at.cases) (auto dest: gr0_implies_Suc)
    with finished at show ?thesis
      by (intro exI [of _ c]) (simp add: cursor_next_def next_loop.simps(2) comp_simps)
  next
    case (current h es j rest i todo')
    then obtain f where "fuel = Suc f" using cursor_at_length [OF at] by auto
    with next_loop_step [OF current assms(2)] show ?thesis
      by (simp add: cursor_next_def current(4))
  next
    case (last_leaf h es j rest)
    then obtain f where "fuel = Suc f" using cursor_at_length [OF at] by auto
    with last_leaf show ?thesis
      by (intro exI [of _ "c\<lparr>path := []\<rparr>"])
        (simp add: cursor_next_def next_loop.simps(2) advance_to_next_leaf_def comp_simps cursor_at.finished)
  next
    case (next_leaf h es j rest h' es' j' rest')
    obtain f where f: "fuel = Suc (Suc f)" using next_leaf cursor_at_length [OF at] by auto
    let ?c = "c\<lparr>path := (h', Leaf 0 es', j') # rest', current_leaf_entry_idx := Some 0\<rparr>"
    have step: "cursor_next E fuel (c, s) = next_loop E fuel (Suc f) (?c, s)"
      using next_leaf(1,2,6)
      by (simp add: cursor_next_def f next_loop.simps(2) advance_to_next_leaf_def comp_simps)
    have first: "first_idx False es' = Some 0" by (simp add: first_idx_def)
    from assms(1) avail next_leaf(7) [unfolded first] show ?thesis
    proof (cases rule: cursor_at_cases)
      case (current h1 es1 j1 rest1 i todo')
      from next_loop_step [OF current assms(2), of f] step current(4) show ?thesis by simp
    qed (use next_leaf(4,5) in \<open>auto simp: entry_at_def\<close>)
  qed
qed

interpretation cur: store_iterator "cursor_next E fuel" "cursor_holds E fuel" for E fuel
proof unfold_locales
  show "\<exists>c'. cursor_next E fuel (c, s) = (Inr None, (c', s)) \<and> cursor_holds E fuel s c' []"
    if holds: "cursor_holds E fuel s c []" for s c
  proof -
    from holds obtain lo hi where at: "bincode_ok E" "values_ok s []" "cursor_at E lo hi s fuel False c []"
      by (auto simp: cursor_holds_def)
    from cursor_next_at [OF at] at(1,2) show ?thesis
      by (auto simp: cursor_holds_def)
  qed
  show "\<exists>c'. cursor_next E fuel (c, s) = (Inr (Some x), (c', s)) \<and> cursor_holds E fuel s c' xs"
    if holds: "cursor_holds E fuel s c (x # xs)" for s c x xs
  proof -
    from holds obtain lo hi e es where at: "bincode_ok E" "values_ok s (e # es)"
      "cursor_at E lo hi s fuel False c (e # es)" "x = entry_pair s e" "xs = map (entry_pair s) es"
      by (auto simp: cursor_holds_def Cons_eq_map_conv)
    from cursor_next_at [OF at(1-3)] at show ?thesis
      by (auto simp: cursor_holds_def values_ok_def)
  qed
qed

end
