(* ===== verification/Cursor_Start.thy ===== *)
theory Cursor_Start
  imports Cursor_Iter
begin

text \<open>
  Where the constructors of a cursor put it: at the first entry, at the first entry not below a key,
  and for a scan at the start bound, past the offset and past an excluded start.
\<close>

section \<open>The position of a key\<close>

lemma binary_search_pos:
  assumes "sorted_wrt (<) (as @ bs)" "\<forall>x\<in>set as. x < k" "\<forall>x\<in>set bs. k \<le> x"
  shows "binary_search (as @ bs) k = (if k \<in> set bs then Found (length as) else Missing (length as))"
proof (cases "k \<in> set bs")
  case True
  then obtain b bs' where bs: "bs = b # bs'" by (cases bs) auto
  have "b = k"
    using True assms(1,3) bs by (auto simp: sorted_wrt_append dest: leD)
  with bs assms(1) binary_search_Found [of as k bs'] show ?thesis by simp
next
  case False
  then have "\<forall>x\<in>set bs. k < x" using assms(3) by (metis order_le_less)
  with False assms(1,2) binary_search_Missing [of as bs k] show ?thesis by simp
qed

lemma sorted_dropWhile_ge:
  fixes f :: "'a \<Rightarrow> 'b::linorder"
  shows "sorted_wrt (<) (map f xs) \<Longrightarrow> \<forall>x\<in>set (dropWhile (\<lambda>x. f x < k) xs). k \<le> f x"
  by (induction xs) (auto simp: not_less intro: less_imp_le le_less_trans)

lemma split_at_key:
  fixes f :: "'a \<Rightarrow> 'b::linorder"
  assumes "sorted_wrt (<) (map f xs)"
  obtains as bs where "xs = as @ bs" "\<forall>x\<in>set as. f x < k" "\<forall>x\<in>set bs. k \<le> f x"
proof (rule that)
  show "xs = takeWhile (\<lambda>x. f x < k) xs @ dropWhile (\<lambda>x. f x < k) xs" by simp
qed (use sorted_dropWhile_ge [OF assms] in \<open>auto dest: set_takeWhileD\<close>)

lemma scan_child_bound:
  assumes "cs \<noteq> []" "sorted_wrt (<) (map boundary_key cs)" "start_bound args = Some k"
  shows "scan_child args cs = child_idx cs k"
proof -
  obtain as bs where cs: "cs = as @ bs" "\<forall>x\<in>set as. boundary_key x < k" "\<forall>x\<in>set bs. k \<le> boundary_key x"
    by (rule split_at_key [OF assms(2)])
  then have pos: "search_pos (binary_search (map boundary_key cs) k) = length as"
    using binary_search_pos [of "map boundary_key as" "map boundary_key bs" k] assms(2) by simp
  have "find_index (\<lambda>c. k \<le> boundary_key c) (as @ bs) = (if bs = [] then None else Some (length as))"
    using cs(2,3) by (induction as) (auto simp: not_le, cases bs, auto)
  then have "child_idx cs k = (if bs = [] then length cs - 1 else length as)"
    by (simp add: child_idx_def cs(1))
  moreover have "length cs = length as + length bs" "length cs > 0"
    using cs(1) assms(1) by simp_all
  ultimately show ?thesis
    unfolding scan_child_def assms(3) option.case pos by (cases bs) simp_all
qed

text \<open>
  \<open>toward k L es R\<close>: the first entry not below \<open>k\<close> is in \<open>es\<close>, or no entry is and \<open>es\<close> is the end.
\<close>

definition toward :: "key \<Rightarrow> leaf_entry list \<Rightarrow> leaf_entry list \<Rightarrow> leaf_entry list \<Rightarrow> bool" where
  "toward k L es R \<longleftrightarrow> sorted_keys (L @ es @ R) \<and> (\<forall>e\<in>set L. le_key e < k)
     \<and> (R = [] \<or> es \<noteq> [] \<and> k \<le> le_key (last es))"

lemma toward_child:
  assumes path: "path_at E lo hi s ((h, nd, i) # fs) (Suc n) es L R" and to: "toward k L es R"
  obtains l cs nd' es' L' R' where "nd = Internal l cs" "cs \<noteq> []" "sorted_wrt (<) (map boundary_key cs)"
    "stored E s (child_hash (cs ! child_idx cs k)) nd'"
    "path_at E lo hi s ((child_hash (cs ! child_idx cs k), nd', Some (child_idx cs k)) # (h, nd, i) # fs) n es' L' R'"
    "L' @ es' @ R' = L @ es @ R" "toward k L' es' R'"
proof -
  from path obtain b where "node_at E lo hi s b (Suc n) nd es" by (rule path_at_top) auto
  then obtain cs ess where nd: "nd = Internal (of_nat (Suc n)) cs" "es = concat ess" "children_at E lo hi s n cs ess"
    by (auto simp: node_at_Suc)
  have ne: "cs \<noteq> []" using nd(2,3) path_at_not_Nil [OF path] by auto
  have so: "sorted_keys (concat ess)" using to nd(2) by (simp add: toward_def sorted_wrt_append)
  obtain ls c rs xs es' ys where d: "cs = ls @ c # rs" "child_idx cs k = length ls"
    "ess = xs @ es' # ys" "children_at E lo hi s n ls xs" "child_at E lo hi s lo n c es'"
    "children_at E lo hi s n rs ys"
    "\<forall>e\<in>set (concat xs). le_key e < k" "\<forall>e\<in>set (concat ys). k < le_key e"
    "rs \<noteq> [] \<longrightarrow> k \<le> le_key (last es')" "sorted_keys es'" "es' \<noteq> []"
    by (rule descend [OF nd(3) ne so, of k])
  have es: "es = concat xs @ es' @ concat ys" using nd(2) d(3) by simp
  obtain nd' where nd': "stored E s (child_hash (cs ! child_idx cs k)) nd'"
    "path_at E lo hi s ((child_hash (cs ! child_idx cs k), nd', Some (child_idx cs k)) # (h, nd, i) # fs) n es'
       (L @ concat xs) (concat ys @ R)"
    using path_at_child [OF path [unfolded nd(1)] d(1,2,4-6) es] nd(1) by blast
  have "concat ys @ R = [] \<or> k \<le> le_key (last es')"
  proof (cases "rs = []")
    case True
    then have "ys = []" using d(6) by simp
    then show ?thesis using to es d(11) by (auto simp: toward_def)
  next
    case False
    with d(9) show ?thesis by blast
  qed
  then have "toward k (L @ concat xs) es' (concat ys @ R)"
    using to es d(7,11) by (auto simp: toward_def)
  moreover have "sorted_wrt (<) (map boundary_key cs)"
    by (rule children_boundaries_sorted [OF nd(3) so])
  ultimately show thesis
    using that [OF nd(1) ne _ nd'] es by simp
qed

lemma toward_leaf:
  assumes "toward k L es R"
  obtains as bs where "es = as @ bs" "\<forall>e\<in>set as. le_key e < k" "\<forall>e\<in>set (bs @ R). k \<le> le_key e"
    "leaf_search es k = (if k \<in> le_key ` set bs then Found (length as) else Missing (length as))"
    "bs = [] \<longrightarrow> R = []"
proof -
  have so: "sorted_keys es" using assms by (simp add: toward_def sorted_wrt_append)
  then obtain as bs where es: "es = as @ bs" "\<forall>e\<in>set as. le_key e < k" "\<forall>e\<in>set bs. k \<le> le_key e"
    by (rule split_at_key)
  have "leaf_search es k = (if k \<in> le_key ` set bs then Found (length as) else Missing (length as))"
    using binary_search_pos [of "map le_key as" "map le_key bs" k] so es by (simp add: leaf_search_def)
  moreover have R: "\<forall>e\<in>set R. k \<le> le_key e"
  proof
    fix e assume "e \<in> set R"
    with assms have "es \<noteq> []" "k \<le> le_key (last es)" "le_key (last es) < le_key e"
      by (auto simp: toward_def sorted_wrt_append)
    then show "k \<le> le_key e" by simp
  qed
  moreover have "R = []" if "bs = []"
  proof (rule ccontr)
    assume "R \<noteq> []"
    with assms have "es \<noteq> []" "k \<le> le_key (last es)" by (auto simp: toward_def)
    with that es(1,2) show False by (metis append_Nil2 last_in_set leD)
  qed
  ultimately show thesis
    using that [OF es(1,2)] es(3) by auto
qed

section \<open>At the start and at a key\<close>

lemma tree_at_path:
  assumes "tree_at E s t n es" "root_hash t = Some h"
  obtains nd lo hi where "stored E s h nd" "path_at E lo hi s [(h, nd, None)] n es [] []" "sorted_keys es"
    "values_ok s es"
  using assms by (auto simp: tree_at_def root_at_def intro: path_at.root)

lemma cursor_holds_finished: "bincode_ok E \<Longrightarrow> path c = [] \<Longrightarrow> 0 < fuel \<Longrightarrow> cursor_holds E fuel s c []"
  using cursor_at.finished [of c fuel E _ _ s False] by (auto simp: cursor_holds_def values_ok_def)

lemma new_at_start_at:
  assumes "bincode_ok E" "tree_at E s t n es" "Suc n < fuel"
  shows "\<exists>c. new_at_start E fuel t s = (Inr c, s) \<and> cursor_holds E fuel s c (map (entry_pair s) es)"
proof (cases "root_hash t")
  case None
  with assms show ?thesis
    by (auto simp: new_at_start_def comp_simps tree_at_def intro!: cursor_holds_finished)
next
  case (Some h)
  have avail: "avail Async s" by (simp add: avail_def)
  let ?c = "\<lparr>path = [], current_leaf_entry_idx = Some 0\<rparr>"
  from assms(2) Some obtain nd lo hi where nd: "stored E s h nd" "path_at E lo hi s [(h, nd, None)] n es [] []"
    "values_ok s es" by (rule tree_at_path)
  have "n < fuel" using assms(3) by simp
  from descend_edge_left [OF assms(1) avail nd(2,1) this, where msg = "''Empty internal node found during cursor init''" and c = ?c]
  obtain fs' es1 es2 where d: "descend_edge E Async fuel False ''Empty internal node found during cursor init'' h None (?c, s)
       = (Inr (), (?c\<lparr>path := fs'\<rparr>, s))"
    "path_at E lo hi s fs' 0 es1 [] es2" "es = es1 @ es2" "length fs' = Suc n" by auto
  have "cursor_at E lo hi s fuel False (?c\<lparr>path := fs'\<rparr>) es"
    using cursor_at_first [of E lo hi s "?c\<lparr>path := fs'\<rparr>" es1 "[]" es2 fuel False] d assms(3)
    by (simp add: first_idx_def)
  with d(1) nd(3) assms(1) Some show ?thesis
    by (auto simp: new_at_start_def build_cursor_def cursor_holds_def Let_def)
qed

lemma descend_key_at:
  assumes "bincode_ok E"
    and "path_at E lo hi s ((h, nd, idx) # fs) n es L R" "stored E s h nd" "toward k L es R" "n < fuel"
  shows "\<exists>fs' i es1 L1 R1. descend_key E fuel k h idx (c\<lparr>path := fs\<rparr>, s)
      = (Inr (), (c\<lparr>path := fs', current_leaf_entry_idx := Some i\<rparr>, s))
    \<and> path_at E lo hi s fs' 0 es1 L1 R1 \<and> i \<le> length es1 \<and> length fs' = Suc n + length fs
    \<and> drop i es1 @ R1 = dropWhile (\<lambda>e. le_key e < k) (L @ es @ R)"
  using assms(2-)
proof (induction n arbitrary: h nd idx fs es L R fuel)
  case 0
  have avail: "avail Async s" by (simp add: avail_def)
  from "0.prems" obtain f where f: "fuel = Suc f" by (cases fuel) auto
  from "0.prems"(1) have nd: "nd = Leaf 0 es" by (rule path_at_leaf) auto
  from "0.prems"(3) obtain as bs where es: "es = as @ bs" "\<forall>e\<in>set as. le_key e < k"
    "\<forall>e\<in>set (bs @ R). k \<le> le_key e"
    "leaf_search es k = (if k \<in> le_key ` set bs then Found (length as) else Missing (length as))"
    by (rule toward_leaf)
  have "dropWhile (\<lambda>e. le_key e < k) (bs @ R) = bs @ R"
    using es(3) by (cases "bs @ R") (auto simp: not_less)
  moreover have "\<forall>e\<in>set (L @ as). le_key e < k"
    using es(2) "0.prems"(3) by (auto simp: toward_def)
  ultimately have "drop (length as) es @ R = dropWhile (\<lambda>e. le_key e < k) (L @ es @ R)"
    using dropWhile_append2 [of "L @ as" "\<lambda>e. le_key e < k" "bs @ R"] es(1) by simp
  moreover have "descend_key E fuel k h idx (c\<lparr>path := fs\<rparr>, s)
      = (Inr (), (c\<lparr>path := (h, nd, idx) # fs, current_leaf_entry_idx := Some (length as)\<rparr>, s))"
    using es(4) by (simp add: f comp_simps load_node_stored [OF assms(1) avail "0.prems"(2)] nd)
  ultimately show ?case
    using "0.prems"(1) es(1) by (intro exI [of _ "(h, nd, idx) # fs"] exI [of _ "length as"] exI [of _ es]
        exI [of _ L] exI [of _ R]) simp
next
  case (Suc n)
  have avail: "avail Async s" by (simp add: avail_def)
  from Suc.prems obtain f where f: "fuel = Suc f" "n < f" by (cases fuel) auto
  obtain l cs nd' es' L' R' where d: "nd = Internal l cs" "cs \<noteq> []"
    "stored E s (child_hash (cs ! child_idx cs k)) nd'"
    "path_at E lo hi s ((child_hash (cs ! child_idx cs k), nd', Some (child_idx cs k)) # (h, nd, idx) # fs) n es' L' R'"
    "L' @ es' @ R' = L @ es @ R" "toward k L' es' R'"
    by (rule toward_child [OF Suc.prems(1,3)])
  from Suc.IH [OF d(4,3,6) f(2)] obtain fs' i es1 L1 R1 where rec:
    "descend_key E f k (child_hash (cs ! child_idx cs k)) (Some (child_idx cs k)) (c\<lparr>path := (h, nd, idx) # fs\<rparr>, s)
       = (Inr (), (c\<lparr>path := fs', current_leaf_entry_idx := Some i\<rparr>, s))"
    "path_at E lo hi s fs' 0 es1 L1 R1 \<and> i \<le> length es1 \<and> length fs' = Suc n + length ((h, nd, idx) # fs)
     \<and> drop i es1 @ R1 = dropWhile (\<lambda>e. le_key e < k) (L' @ es' @ R')" by blast
  have "descend_key E fuel k h idx (c\<lparr>path := fs\<rparr>, s)
      = (Inr (), (c\<lparr>path := fs', current_leaf_entry_idx := Some i\<rparr>, s))"
    using rec(1) d(1,2) by (simp add: f comp_simps load_node_stored [OF assms(1) avail Suc.prems(2)])
  with rec(2) d(5) show ?case
    by (intro exI [of _ fs'] exI [of _ i] exI [of _ es1] exI [of _ L1] exI [of _ R1]) simp
qed

lemma new_at_key_at:
  assumes "bincode_ok E" "tree_at E s t n es" "Suc n < fuel"
  shows "\<exists>c. new_at_key E fuel t k s = (Inr c, s)
    \<and> cursor_holds E fuel s c (map (entry_pair s) (dropWhile (\<lambda>e. le_key e < k) es))"
proof (cases "root_hash t")
  case None
  with assms show ?thesis
    by (auto simp: new_at_key_def comp_simps tree_at_def intro!: cursor_holds_finished)
next
  case (Some h)
  let ?c = "\<lparr>path = [], current_leaf_entry_idx = Some 0\<rparr>"
  let ?rest = "dropWhile (\<lambda>e. le_key e < k) es"
  from assms(2) Some obtain nd lo hi where nd: "stored E s h nd" "path_at E lo hi s [(h, nd, None)] n es [] []"
    "sorted_keys es" "values_ok s es" by (rule tree_at_path)
  have "toward k [] es []" using nd(3) by (simp add: toward_def)
  from descend_key_at [OF assms(1) nd(2,1) this, of fuel ?c] assms(3) obtain fs' i es1 L1 R1 where d:
    "descend_key E fuel k h None (?c, s) = (Inr (), (?c\<lparr>path := fs', current_leaf_entry_idx := Some i\<rparr>, s))"
    "path_at E lo hi s fs' 0 es1 L1 R1" "i \<le> length es1" "length fs' = Suc n" "drop i es1 @ R1 = ?rest"
    by auto
  have "cursor_at E lo hi s fuel False (?c\<lparr>path := fs', current_leaf_entry_idx := Some i\<rparr>) (drop i es1 @ R1)"
    using d(2-4) assms(3) by (intro cursor_at.forward) simp_all
  moreover have "values_ok s ?rest"
    using nd(4) by (auto simp: values_ok_def dest: set_dropWhileD)
  ultimately show ?thesis
    using d(1,5) assms(1) Some by (auto simp: new_at_key_def build_cursor_def cursor_holds_def Let_def)
qed

section \<open>Descending for a scan\<close>

definition seeks :: "scan_args \<Rightarrow> leaf_entry list \<Rightarrow> leaf_entry list \<Rightarrow> leaf_entry list \<Rightarrow> bool" where
  "seeks args L es R \<longleftrightarrow> (case start_bound args of
     Some k \<Rightarrow> toward k L es R | None \<Rightarrow> if reverse args then R = [] else L = [])"

lemma edge_child:
  assumes path: "path_at E lo hi s ((h, nd, i) # fs) (Suc n) es L R"
  obtains l cs where "nd = Internal l cs" "cs \<noteq> []"
    "\<forall>j<length cs. \<exists>nd' es' L' R'. stored E s (child_hash (cs ! j)) nd'
      \<and> path_at E lo hi s ((child_hash (cs ! j), nd', Some j) # (h, nd, i) # fs) n es' L' R'
      \<and> L' @ es' @ R' = L @ es @ R \<and> (j = 0 \<longrightarrow> L' = L) \<and> (j = length cs - 1 \<longrightarrow> R' = R)"
proof -
  from path obtain b where "node_at E lo hi s b (Suc n) nd es" by (rule path_at_top) auto
  then obtain cs ess where nd: "nd = Internal (of_nat (Suc n)) cs" "es = concat ess" "children_at E lo hi s n cs ess"
    by (auto simp: node_at_Suc)
  have ne: "cs \<noteq> []" using nd(2,3) path_at_not_Nil [OF path] by auto
  have "\<exists>nd' es' L' R'. stored E s (child_hash (cs ! j)) nd'
      \<and> path_at E lo hi s ((child_hash (cs ! j), nd', Some j) # (h, nd, i) # fs) n es' L' R'
      \<and> L' @ es' @ R' = L @ es @ R \<and> (j = 0 \<longrightarrow> L' = L) \<and> (j = length cs - 1 \<longrightarrow> R' = R)"
    if j: "j < length cs" for j
  proof -
    from j obtain ls c rs xs es' ys where d: "cs = ls @ c # rs" "j = length ls" "ess = xs @ es' # ys"
      "children_at E lo hi s n ls xs" "child_at E lo hi s lo n c es'" "children_at E lo hi s n rs ys"
      by (rule children_at_split [OF nd(3)])
    have es: "es = concat xs @ es' @ concat ys" using nd(2) d(3) by simp
    obtain nd' where "stored E s (child_hash (cs ! j)) nd'"
      "path_at E lo hi s ((child_hash (cs ! j), nd', Some j) # (h, nd, i) # fs) n es'
         (L @ concat xs) (concat ys @ R)"
      using path_at_child [OF path [unfolded nd(1)] d(1,2,4-6) es] nd(1) by blast
    moreover have "j = 0 \<longrightarrow> xs = []" "j = length cs - 1 \<longrightarrow> ys = []"
      using d by auto
    ultimately show ?thesis
      using es by (intro exI [of _ nd'] exI [of _ es'] exI [of _ "L @ concat xs"] exI [of _ "concat ys @ R"]) auto
  qed
  with that [OF nd(1) ne] show thesis by blast
qed

lemma seeks_child:
  assumes path: "path_at E lo hi s ((h, nd, i) # fs) (Suc n) es L R" and to: "seeks args L es R"
  obtains l cs nd' es' L' R' where "nd = Internal l cs" "cs \<noteq> []"
    "stored E s (child_hash (cs ! scan_child args cs)) nd'"
    "path_at E lo hi s ((child_hash (cs ! scan_child args cs), nd', Some (scan_child args cs)) # (h, nd, i) # fs)
       n es' L' R'"
    "L' @ es' @ R' = L @ es @ R" "seeks args L' es' R'"
proof (cases "start_bound args")
  case (Some k)
  with to have "toward k L es R" by (simp add: seeks_def)
  with path obtain l cs nd' es' L' R' where d: "nd = Internal l cs" "cs \<noteq> []" "sorted_wrt (<) (map boundary_key cs)"
    "stored E s (child_hash (cs ! child_idx cs k)) nd'"
    "path_at E lo hi s ((child_hash (cs ! child_idx cs k), nd', Some (child_idx cs k)) # (h, nd, i) # fs) n es' L' R'"
    "L' @ es' @ R' = L @ es @ R" "toward k L' es' R'"
    by (rule toward_child)
  have "scan_child args cs = child_idx cs k" by (rule scan_child_bound [OF d(2,3) Some])
  with that [OF d(1,2), of nd' es' L' R'] d Some show thesis by (simp add: seeks_def)
next
  case None
  obtain l cs where d: "nd = Internal l cs" "cs \<noteq> []"
    "\<forall>j<length cs. \<exists>nd' es' L' R'. stored E s (child_hash (cs ! j)) nd'
      \<and> path_at E lo hi s ((child_hash (cs ! j), nd', Some j) # (h, nd, i) # fs) n es' L' R'
      \<and> L' @ es' @ R' = L @ es @ R \<and> (j = 0 \<longrightarrow> L' = L) \<and> (j = length cs - 1 \<longrightarrow> R' = R)"
    by (rule edge_child [OF path])
  let ?j = "scan_child args cs"
  have j: "?j = (if reverse args then length cs - 1 else 0)" using None by (simp add: scan_child_def)
  then have "?j < length cs" using d(2) by simp
  with d(3) obtain nd' es' L' R' where e: "stored E s (child_hash (cs ! ?j)) nd'"
    "path_at E lo hi s ((child_hash (cs ! ?j), nd', Some ?j) # (h, nd, i) # fs) n es' L' R'"
    "L' @ es' @ R' = L @ es @ R" "?j = 0 \<longrightarrow> L' = L" "?j = length cs - 1 \<longrightarrow> R' = R" by blast
  have "seeks args L' es' R'"
    using to e(4,5) j None by (auto simp: seeks_def split: if_splits)
  from that [OF d(1,2) e(1-3) this] show thesis .
qed

lemma scan_descend_at:
  assumes "bincode_ok E" "avail md s"
    and "path_at E lo hi s ((h, nd, idx) # fs) n es L R" "seeks args L es R" "n \<le> fuel"
  shows "\<exists>fs' es1 L1 R1. scan_descend E md fuel args nd (c\<lparr>path := (h, nd, idx) # fs\<rparr>, s)
      = (Inr (), (c\<lparr>path := fs'\<rparr>, s))
    \<and> path_at E lo hi s fs' 0 es1 L1 R1 \<and> seeks args L1 es1 R1 \<and> L1 @ es1 @ R1 = L @ es @ R
    \<and> length fs' = n + length ((h, nd, idx) # fs)"
  using assms(3-)
proof (induction n arbitrary: h nd idx fs es L R fuel)
  case 0
  from "0.prems"(1) have "nd = Leaf 0 es" by (rule path_at_leaf) auto
  with "0.prems" show ?case
    by (intro exI [of _ "(h, nd, idx) # fs"] exI [of _ es] exI [of _ L] exI [of _ R]) (simp add: comp_simps)
next
  case (Suc n)
  then obtain f where f: "fuel = Suc f" "n \<le> f" by (cases fuel) auto
  obtain l cs nd' es' L' R' where d: "nd = Internal l cs" "cs \<noteq> []"
    "stored E s (child_hash (cs ! scan_child args cs)) nd'"
    "path_at E lo hi s ((child_hash (cs ! scan_child args cs), nd', Some (scan_child args cs)) # (h, nd, idx) # fs)
       n es' L' R'"
    "L' @ es' @ R' = L @ es @ R" "seeks args L' es' R'"
    by (rule seeks_child [OF Suc.prems(1,2)])
  from Suc.IH [OF d(4,6) f(2)] obtain fs' es1 L1 R1 where rec:
    "scan_descend E md f args nd' (c\<lparr>path := (child_hash (cs ! scan_child args cs), nd', Some (scan_child args cs))
       # (h, nd, idx) # fs\<rparr>, s) = (Inr (), (c\<lparr>path := fs'\<rparr>, s))"
    "path_at E lo hi s fs' 0 es1 L1 R1 \<and> seeks args L1 es1 R1 \<and> L1 @ es1 @ R1 = L' @ es' @ R'
     \<and> length fs' = n + length ((child_hash (cs ! scan_child args cs), nd', Some (scan_child args cs)) # (h, nd, idx) # fs)"
    by blast
  have "scan_descend E md fuel args nd (c\<lparr>path := (h, nd, idx) # fs\<rparr>, s) = (Inr (), (c\<lparr>path := fs'\<rparr>, s))"
    using rec(1) d(1,2) by (simp add: f comp_simps load_node_stored [OF assms(1,2) d(3)] Let_def)
  with rec(2) d(5) show ?case
    by (intro exI [of _ fs'] exI [of _ es1] exI [of _ L1] exI [of _ R1]) simp
qed

end
