(* ===== verification/Cursor_Scan.thy ===== *)
theory Cursor_Scan
  imports Cursor_Start
begin

text \<open>
  The cursor of a range scan: which entries it is put before (\<open>new_for_scan_at\<close>), through the three
  phases of its constructor.
\<close>

section \<open>Cursors on an entry\<close>

definition ready :: "extern \<Rightarrow> nat \<Rightarrow> nat \<Rightarrow> store \<Rightarrow> nat \<Rightarrow> bool \<Rightarrow> cursor \<Rightarrow> leaf_entry list \<Rightarrow> bool" where
  "ready E lo hi s fuel rv c todo \<longleftrightarrow> cursor_at E lo hi s fuel rv c todo
     \<and> (todo = [] \<or> (\<exists>h es j rest i. path c = (h, Leaf 0 es, j) # rest
          \<and> current_leaf_entry_idx c = Some i \<and> i < length es \<and> es ! i = hd todo))"

lemma ready_Nil: "cursor_at E lo hi s fuel rv c [] \<Longrightarrow> ready E lo hi s fuel rv c []"
  by (simp add: ready_def)

lemma ready_first:
  assumes "path_at E lo hi s (path c) 0 es L R" "length (path c) < fuel"
    and "current_leaf_entry_idx c = Some i" "i < length es"
  shows "ready E lo hi s fuel rv c (if rv then rev (L @ take (Suc i) es) else drop i es @ R)"
proof -
  from assms(1) obtain h j rest where "path c = (h, Leaf 0 es, j) # rest" by (rule path_at_leaf)
  moreover have "rev (L @ take (Suc i) es) \<noteq> []" "hd (rev (L @ take (Suc i) es)) = es ! i"
    "drop i es @ R \<noteq> []" "hd (drop i es @ R) = es ! i"
    using assms(4) by (simp_all add: take_Suc_conv_app_nth hd_append hd_drop_conv_nth)
  moreover have "cursor_at E lo hi s fuel rv c (if rv then rev (L @ take (Suc i) es) else drop i es @ R)"
    using cursor_at.backward [OF _ assms] cursor_at.forward [OF _ assms(1-3)] assms(4) by auto
  ultimately show ?thesis
    using assms(3,4) by (simp add: ready_def)
qed

lemma ready_entry:
  assumes "bincode_ok E" "avail md s" and at: "cursor_at E lo hi s fuel rv c todo"
    and "path c = (h, Leaf 0 es, j) # rest" "entry_at es (current_leaf_entry_idx c) \<noteq> None"
  shows "ready E lo hi s fuel rv c todo"
  using assms(1,2) at
proof (cases rule: cursor_at_cases)
  case (current h es j rest i todo')
  with at show ?thesis by (simp add: ready_def)
qed (use assms(4,5) in auto)

text \<open>The part of the current leaf that is still to come, and the rest.\<close>

lemma cursor_leaf_part:
  assumes at: "cursor_at E lo hi s fuel rv c todo"
    and top: "path c = (h, Leaf 0 es, j) # rest" "current_leaf_entry_idx c = Some i" "i < length es"
  obtains others where "todo = (if rv then rev (take (Suc i) es) else drop i es) @ others"
    "cursor_at E lo hi s fuel rv (c\<lparr>current_leaf_entry_idx := if rv then None else Some (length es)\<rparr>) others"
    "\<And>r. r < (if rv then Suc i else length es - i) \<Longrightarrow>
       ready E lo hi s fuel rv (c\<lparr>current_leaf_entry_idx := Some (if rv then i - r else i + r)\<rparr>) (drop r todo)"
proof -
  from at top have "\<exists>L R. path_at E lo hi s (path c) 0 es L R \<and> length (path c) < fuel
      \<and> todo = (if rv then rev (L @ take (Suc i) es) else drop i es @ R)"
  proof (cases rule: cursor_at.cases)
    case (forward es' L R i')
    with top show ?thesis by (auto elim: path_at_leaf)
  next
    case (backward es' L R i')
    with top show ?thesis by (auto elim: path_at_leaf)
  qed auto
  then obtain L R where path: "path_at E lo hi s (path c) 0 es L R" "length (path c) < fuel"
    and todo: "todo = (if rv then rev (L @ take (Suc i) es) else drop i es @ R)" by blast
  show thesis
  proof (rule that [of "if rv then rev L else R"])
    show "todo = (if rv then rev (take (Suc i) es) else drop i es) @ (if rv then rev L else R)"
      using todo by simp
    show "cursor_at E lo hi s fuel rv (c\<lparr>current_leaf_entry_idx := if rv then None else Some (length es)\<rparr>)
        (if rv then rev L else R)"
    proof (cases rv)
      case True
      then show ?thesis using path by (auto intro: cursor_at.before_leaf)
    next
      case False
      with cursor_at.forward [of rv E lo hi s "c\<lparr>current_leaf_entry_idx := Some (length es)\<rparr>" es L R fuel "length es"]
      show ?thesis using path by simp
    qed
    fix r assume r: "r < (if rv then Suc i else length es - i)"
    let ?i = "if rv then i - r else i + r"
    have "?i < length es" using r top(3) by (auto split: if_splits)
    moreover have "drop r (rev (L @ take (Suc i) es)) = rev (L @ take (Suc (i - r)) es)" if "r < Suc i"
      proof -
      have "length (L @ take (Suc i) es) - r = length L + Suc (i - r)"
        using that top(3) by simp
      then have "drop r (rev (L @ take (Suc i) es)) = rev (take (length L + Suc (i - r)) (L @ take (Suc i) es))"
        by (simp only: drop_rev)
      moreover have "take (length L + Suc (i - r)) (L @ take (Suc i) es) = L @ take (Suc (i - r)) es"
        using that by (simp add: min_def Suc_diff_le)
      ultimately show ?thesis by simp
    qed
    ultimately show "ready E lo hi s fuel rv (c\<lparr>current_leaf_entry_idx := Some ?i\<rparr>) (drop r todo)"
      using ready_first [of E lo hi s "c\<lparr>current_leaf_entry_idx := Some ?i\<rparr>" es L R fuel ?i rv] path todo r
      by (auto simp: add.commute split: if_splits)
  qed
qed

section \<open>Phase 2: the offset\<close>

text \<open>At an entry: the offset ends in this leaf, with it, or goes on in the next leaf.\<close>

lemma skip_offset_leaf:
  assumes "bincode_ok E" "avail md s" "cursor_at E lo hi s fuel (reverse args) c todo"
    and top: "path c = (h, Leaf 0 es, j) # rest" "current_leaf_entry_idx c = Some i" "i < length es" and "r \<noteq> 0"
  shows "(\<exists>c'. skip_offset E md fuel args (Suc n) r (c, s) = (Inr 0, (c', s))
      \<and> ready E lo hi s fuel (reverse args) c' (drop r todo))
    \<or> (\<exists>c' r' others. skip_offset E md fuel args (Suc n) r (c, s) = skip_offset E md fuel args n r' (c', s)
      \<and> ready E lo hi s fuel (reverse args) c' others \<and> path c' \<noteq> [] \<and> length others < length todo
      \<and> drop r' others = drop r todo)"
proof -
  obtain others where leaf: "todo = (if reverse args then rev (take (Suc i) es) else drop i es) @ others"
    "cursor_at E lo hi s fuel (reverse args)
       (c\<lparr>current_leaf_entry_idx := if reverse args then None else Some (length es)\<rparr>) others"
    "\<And>r. r < (if reverse args then Suc i else length es - i) \<Longrightarrow> ready E lo hi s fuel (reverse args)
       (c\<lparr>current_leaf_entry_idx := Some (if reverse args then i - r else i + r)\<rparr>) (drop r todo)"
    using cursor_leaf_part [OF assms(3) top] by metis
  let ?avail = "if reverse args then Suc i else length es - i"
  let ?c1 = "c\<lparr>current_leaf_entry_idx := if reverse args then None else Some (length es)\<rparr>"
  show ?thesis
  proof (cases "r < ?avail")
    case True
    with leaf(3) [OF True] assms(7) top show ?thesis
      by (intro disjI1 exI [of _ "c\<lparr>current_leaf_entry_idx := Some (if reverse args then i - r else i + r)\<rparr>"])
        (auto simp: comp_simps Let_def)
  next
    case False
    then have split: "drop r todo = drop (r - ?avail) others" using leaf(1) top(3) by auto
    from assms(1,2) leaf(2) show ?thesis
    proof (cases rule: cursor_at_cases)
      case finished
      with top(1) show ?thesis by simp
    next
      case (current h2 es2 j2 rest2 i2 todo2)
      with top(1) show ?thesis by (auto split: if_splits)
    next
      case (last_leaf h2 es2 j2 rest2)
      let ?c = "?c1\<lparr>path := []\<rparr>"
      have "cursor_at E lo hi s fuel (reverse args) ?c []"
        using assms(3) by (cases rule: cursor_at.cases) (auto intro: cursor_at.finished)
      moreover have "skip_offset E md fuel args (Suc n) r (c, s) = (Inr 0, (?c, s))"
        using last_leaf(5) False assms(7) top by (simp add: comp_simps Let_def)
      ultimately show ?thesis
        using split last_leaf(4) by (auto intro: ready_Nil)
    next
      case (next_leaf h2 es2 j2 rest2 h' es' j' rest')
      let ?c = "?c1\<lparr>path := (h', Leaf 0 es', j') # rest', current_leaf_entry_idx := first_idx (reverse args) es'\<rparr>"
      have "ready E lo hi s fuel (reverse args) ?c others"
        using next_leaf(4) by (intro ready_entry [OF assms(1,2) next_leaf(7)])
          (auto simp: entry_at_def first_idx_def)
      moreover have "length others < length todo" using leaf(1) top(3) by (auto split: if_splits)
      moreover have "skip_offset E md fuel args (Suc n) r (c, s) = skip_offset E md fuel args n (r - ?avail) (?c, s)"
        using next_leaf(6) False assms(7) top by (simp add: comp_simps Let_def)
      ultimately show ?thesis
        using split by (intro disjI2 exI [of _ ?c] exI [of _ "r - ?avail"] exI [of _ others]) simp
    qed
  qed
qed

lemma skip_offset_at:
  assumes "bincode_ok E" "avail md s"
    and "ready E lo hi s fuel (reverse args) c todo" "path c \<noteq> []" "length todo < n"
  shows "\<exists>c'. skip_offset E md fuel args n r (c, s) = (Inr 0, (c', s))
    \<and> ready E lo hi s fuel (reverse args) c' (drop r todo)"
  using assms(3-)
proof (induction n arbitrary: c todo r)
  case 0
  then show ?case by simp
next
  case (Suc n)
  show ?case
  proof (cases "r = 0")
    case True
    with Suc.prems show ?thesis by (auto simp: comp_simps)
  next
    case r: False
    have at: "cursor_at E lo hi s fuel (reverse args) c todo" using Suc.prems(1) by (simp add: ready_def)
    from assms(1,2) at show ?thesis
    proof (cases rule: cursor_at_cases)
      case finished
      with Suc.prems(2) show ?thesis by simp
    next
      case (last_leaf h es j rest)
      let ?c = "c\<lparr>path := []\<rparr>"
      have "cursor_at E lo hi s fuel (reverse args) ?c []"
        using at by (cases rule: cursor_at.cases) (auto intro: cursor_at.finished)
      moreover have "skip_offset E md fuel args (Suc n) r (c, s) = (Inr 0, (?c, s))"
        using last_leaf r by (auto simp: comp_simps entry_at_def Let_def split: option.splits if_splits)
      ultimately show ?thesis using last_leaf(4) by (auto intro: ready_Nil)
    next
      case (next_leaf h es j rest h' es' j' rest')
      with Suc.prems(1) show ?thesis by (auto simp: ready_def entry_at_def)
    next
      case (current h es j rest i todo')
      from skip_offset_leaf [OF assms(1,2) at current(1-3) r, of n] show ?thesis
      proof (elim disjE exE conjE)
        fix c' r' others
        assume next_leaf: "skip_offset E md fuel args (Suc n) r (c, s) = skip_offset E md fuel args n r' (c', s)"
          "ready E lo hi s fuel (reverse args) c' others" "path c' \<noteq> []" "drop r' others = drop r todo"
        assume "length others < length todo"
        then have "length others < n" using Suc.prems(3) by simp
        from Suc.IH [OF next_leaf(2,3) this, of r'] next_leaf(1,4) show ?thesis by simp
      qed blast
    qed
  qed
qed

section \<open>Phase 1: the start\<close>

text \<open>What the bounds ask a scan to meet, in the order of the scan.\<close>

definition start_todo :: "scan_args \<Rightarrow> leaf_entry list \<Rightarrow> leaf_entry list" where
  "start_todo args es =
     (if reverse args then rev (case start_bound args of None \<Rightarrow> es | Some k \<Rightarrow> takeWhile (\<lambda>e. le_key e \<le> k) es)
      else (case start_bound args of None \<Rightarrow> es | Some k \<Rightarrow> dropWhile (\<lambda>e. le_key e < k) es))"

text \<open>
  What the cursor meets: that, or, backwards from a key that is missing, one entry more, which lies
  above the start bound. This happens when the bound falls between two leaves.
\<close>

definition overshoots :: "scan_args \<Rightarrow> leaf_entry list \<Rightarrow> leaf_entry list \<Rightarrow> bool" where
  "overshoots args es A \<longleftrightarrow> reverse args \<and> (\<exists>k e. start_bound args = Some k \<and> k \<notin> le_key ` set es
     \<and> e \<in> set es \<and> k < le_key e \<and> A = e # start_todo args es)"

definition starts :: "scan_args \<Rightarrow> leaf_entry list \<Rightarrow> leaf_entry list \<Rightarrow> bool" where
  "starts args es A \<longleftrightarrow> (A = start_todo args es \<or> overshoots args es A)
     \<and> set A \<subseteq> set es \<and> length A \<le> length es"

lemma start_todo_split:
  assumes "\<forall>e\<in>set P. le_key e < k" "\<forall>e\<in>set Q. k \<le> le_key e" "start_bound args = Some k"
  shows "\<not> reverse args \<Longrightarrow> start_todo args (P @ Q) = Q"
    and "reverse args \<Longrightarrow> \<forall>e\<in>set Q. k < le_key e \<Longrightarrow> start_todo args (P @ Q) = rev P"
    and "reverse args \<Longrightarrow> Q = b # Q' \<Longrightarrow> le_key b = k \<Longrightarrow> \<forall>e\<in>set Q'. k < le_key e \<Longrightarrow>
      start_todo args (P @ Q) = rev (P @ [b])"
proof -
  have "dropWhile (\<lambda>e. le_key e < k) (P @ Q) = dropWhile (\<lambda>e. le_key e < k) Q"
    using assms(1) by (simp add: dropWhile_append2)
  also have "\<dots> = Q" using assms(2) by (cases Q) (auto simp: not_less)
  finally show "\<not> reverse args \<Longrightarrow> start_todo args (P @ Q) = Q"
    by (simp add: start_todo_def assms(3))
  have P: "takeWhile (\<lambda>e. le_key e \<le> k) (P @ Q') = P @ takeWhile (\<lambda>e. le_key e \<le> k) Q'" for Q'
    using assms(1) by (intro takeWhile_append2) (auto simp: less_imp_le)
  have none: "takeWhile (\<lambda>e. le_key e \<le> k) Q' = []" if "\<forall>e\<in>set Q'. k < le_key e" for Q'
    using that by (cases Q') (auto simp: not_le)
  show "reverse args \<Longrightarrow> \<forall>e\<in>set Q. k < le_key e \<Longrightarrow> start_todo args (P @ Q) = rev P"
    by (simp add: start_todo_def assms(3) P none)
  show "reverse args \<Longrightarrow> Q = b # Q' \<Longrightarrow> le_key b = k \<Longrightarrow> \<forall>e\<in>set Q'. k < le_key e \<Longrightarrow>
      start_todo args (P @ Q) = rev (P @ [b])"
    by (simp add: start_todo_def assms(3) P none)
qed

lemma scan_position_set:
  assumes "path_at E lo hi s (path c) 0 es L R"
  shows "scan_position args (c, s) = (Inr (), (c\<lparr>current_leaf_entry_idx := start_idx args es\<rparr>, s))"
  using assms by (rule path_at_leaf) (simp add: scan_position_def comp_simps)

lemma starts_forward:
  assumes "\<not> reverse args" "start_bound args = Some k" "toward k L es R"
  obtains i where "i \<le> length es" "start_idx args es = Some i" "starts args (L @ es @ R) (drop i es @ R)"
    "i = length es \<longrightarrow> R = []"
proof -
  obtain as bs where es: "es = as @ bs" "\<forall>e\<in>set as. le_key e < k" "\<forall>e\<in>set (bs @ R). k \<le> le_key e"
    "leaf_search es k = (if k \<in> le_key ` set bs then Found (length as) else Missing (length as))" "bs = [] \<longrightarrow> R = []"
    using toward_leaf [OF assms(3)] by blast
  have low: "\<forall>e\<in>set (L @ as). le_key e < k" using es(2) assms(3) by (auto simp: toward_def)
  have all: "L @ es @ R = (L @ as) @ (bs @ R)" using es(1) by simp
  have "start_todo args (L @ es @ R) = bs @ R"
    unfolding all by (rule start_todo_split(1) [OF low es(3) assms(2,1)])
  then have "starts args (L @ es @ R) (drop (length as) es @ R)" by (auto simp: starts_def es(1))
  with that [of "length as"] assms(1,2) es show thesis by (simp add: start_idx_def)
qed

text \<open>Backwards from a key that is there, and from one that is not.\<close>

lemma starts_backward_found:
  assumes "reverse args" "start_bound args = Some k" "toward k L es R" "sorted_keys (L @ es @ R)" "k \<in> le_key ` set es"
  obtains i where "i < length es" "start_idx args es = Some i" "starts args (L @ es @ R) (rev (L @ take (Suc i) es))"
proof -
  obtain as bs where es: "es = as @ bs" "\<forall>e\<in>set as. le_key e < k" "\<forall>e\<in>set (bs @ R). k \<le> le_key e"
    "leaf_search es k = (if k \<in> le_key ` set bs then Found (length as) else Missing (length as))"
    using toward_leaf [OF assms(3)] by blast
  have low: "\<forall>e\<in>set (L @ as). le_key e < k" using es(2) assms(3) by (auto simp: toward_def)
  have k: "k \<in> le_key ` set bs" using assms(5) es(1,2) by auto
  then obtain b bs' where bs: "bs = b # bs'" by (cases bs) auto
  have so: "\<forall>e\<in>set (bs' @ R). le_key b < le_key e"
    using assms(4) by (auto simp: es(1) bs sorted_wrt_append)
  have b: "le_key b = k" using k es(3) so bs by (auto dest: leD)
  have all: "L @ es @ R = (L @ as) @ (bs @ R)" using es(1) by simp
  have "start_todo args (L @ es @ R) = rev ((L @ as) @ [b])"
    unfolding all using so b by (intro start_todo_split(3) [OF low es(3) assms(2,1), of b "bs' @ R"]) (simp_all add: bs)
  then have "starts args (L @ es @ R) (rev (L @ take (Suc (length as)) es))" by (auto simp: starts_def es(1) bs)
  with that [of "length as"] assms(1,2) k es(1,4) bs show thesis by (simp add: start_idx_def clamp_idx_def)
qed

lemma starts_backward_missing:
  assumes "reverse args" "start_bound args = Some k" "toward k L es R" "es \<noteq> []" "sorted_keys (L @ es @ R)"
    and "k \<notin> le_key ` set es"
  obtains i where "i < length es" "start_idx args es = Some i" "starts args (L @ es @ R) (rev (L @ take (Suc i) es))"
proof -
  obtain as bs where es: "es = as @ bs" "\<forall>e\<in>set as. le_key e < k" "\<forall>e\<in>set (bs @ R). k \<le> le_key e"
    "leaf_search es k = (if k \<in> le_key ` set bs then Found (length as) else Missing (length as))" "bs = [] \<longrightarrow> R = []"
    using toward_leaf [OF assms(3)] by blast
  have low: "\<forall>e\<in>set (L @ as). le_key e < k" using es(2) assms(3) by (auto simp: toward_def)
  have missing: "k \<notin> le_key ` set bs" using assms(6) es(1) by auto
  have high: "\<forall>e\<in>set bs. k < le_key e" using es(3) missing by (force simp: order_le_less)
  have "k < le_key e" if "e \<in> set R" for e
  proof -
    from that es(5) obtain b where "b \<in> set bs" by (cases bs) auto
    with high assms(5) that show ?thesis by (force simp: es(1) sorted_wrt_append dest: less_trans)
  qed
  with high have above: "\<forall>e\<in>set (bs @ R). k < le_key e" by auto
  have all: "L @ es @ R = (L @ as) @ (bs @ R)" using es(1) by simp
  have todo: "start_todo args (L @ es @ R) = rev (L @ as)"
    unfolding all by (rule start_todo_split(2) [OF low es(3) assms(2,1) above])
  show thesis
  proof (cases "as = []")
    case True
    then obtain b bs' where bs: "bs = b # bs'" using assms(4) es(1) by (cases bs) auto
    have "k \<notin> le_key ` set (L @ es @ R)" using low above unfolding all by force
    then have "overshoots args (L @ es @ R) (rev (L @ take (Suc 0) es))"
      using assms(1,2) True todo bs above by (auto simp: overshoots_def es(1))
    then have "starts args (L @ es @ R) (rev (L @ take (Suc 0) es))" by (auto simp: starts_def es(1) True bs)
    with that [of 0] assms(1,2) missing es(1,4) bs True show thesis by (simp add: start_idx_def clamp_idx_def)
  next
    case False
    then have "starts args (L @ es @ R) (rev (L @ take (Suc (length as - 1)) es))"
      using todo by (auto simp: starts_def es(1))
    moreover have "length as - 1 < length es" using False es(1) by (cases as) auto
    ultimately show thesis
      using that [of "length as - 1"] assms(1,2) missing es(1,4) False by (simp add: start_idx_def clamp_idx_def)
  qed
qed

lemma scan_position_at:
  assumes E: "bincode_ok E" "avail md s"
    and path: "path_at E lo hi s (path c) 0 es L R" "length (path c) < fuel"
    and seeks: "seeks args L es R" and sorted: "sorted_keys (L @ es @ R)"
  shows "\<exists>A. ready E lo hi s fuel (reverse args) (c\<lparr>current_leaf_entry_idx := start_idx args es\<rparr>) A
    \<and> starts args (L @ es @ R) A"
proof -
  have ne: "es \<noteq> []" using path_at_not_Nil [OF path(1)] by blast
  let ?c = "\<lambda>i. c\<lparr>current_leaf_entry_idx := Some i\<rparr>"
  have at: "ready E lo hi s fuel (reverse args) (?c i) (if reverse args then rev (L @ take (Suc i) es) else drop i es @ R)"
    if "i < length es" for i
    using ready_first [of E lo hi s "?c i" es L R fuel i "reverse args"] path that by simp
  consider (all) "start_bound args = None" | (forward) k where "start_bound args = Some k" "\<not> reverse args" "toward k L es R"
    | (backward) k where "start_bound args = Some k" "reverse args" "toward k L es R"
    using seeks by (cases "start_bound args") (auto simp: seeks_def)
  then show ?thesis
  proof cases
    case all
    let ?i = "if reverse args then length es - 1 else 0"
    have "start_idx args es = Some ?i" using all ne by (simp add: start_idx_def first_idx_def)
    moreover have "?i < length es" using ne by simp
    moreover have "starts args (L @ es @ R) (if reverse args then rev (L @ take (Suc ?i) es) else drop ?i es @ R)"
      using seeks all by (auto simp: starts_def start_todo_def seeks_def)
    ultimately show ?thesis using at [of ?i] by auto
  next
    case forward
    then obtain i where i: "i \<le> length es" "start_idx args es = Some i" "starts args (L @ es @ R) (drop i es @ R)"
      "i = length es \<longrightarrow> R = []" by (elim starts_forward [rotated])
    have "ready E lo hi s fuel (reverse args) (?c i) (drop i es @ R)"
    proof (cases "i < length es")
      case False
      with i forward(2) cursor_at.forward [of "reverse args" E lo hi s "?c i" es L R fuel i] path show ?thesis
        by (simp add: ready_Nil)
    qed (use at [of i] forward(2) in simp)
    with i(2,3) show ?thesis by auto
  next
    case backward
    then obtain i where "i < length es" "start_idx args es = Some i" "starts args (L @ es @ R) (rev (L @ take (Suc i) es))"
      using starts_backward_found [OF backward(2,1,3) sorted] starts_backward_missing [OF backward(2,1,3) ne sorted] by metis
    with at [of i] backward(2) show ?thesis by auto
  qed
qed

section \<open>Phase 3 and the whole constructor\<close>

definition excluded :: "scan_args \<Rightarrow> leaf_entry list \<Rightarrow> leaf_entry list" where
  "excluded args todo = (case todo of [] \<Rightarrow> []
     | e # es \<Rightarrow> if start_bound args = Some (le_key e) \<and> \<not> start_inclusive args then es else todo)"

lemma exclude_start_at:
  assumes "bincode_ok E" "avail md s" and re: "ready E lo hi s fuel (reverse args) c todo"
  shows "\<exists>c'. exclude_start args (c, s) = (Inr (), (c', s))
    \<and> cursor_at E lo hi s fuel (reverse args) c' (excluded args todo)"
proof -
  from re have at: "cursor_at E lo hi s fuel (reverse args) c todo" by (simp add: ready_def)
  from assms(1,2) at show ?thesis
  proof (cases rule: cursor_at_cases)
    case finished
    with at show ?thesis by (simp add: exclude_start_def comp_simps excluded_def)
  next
    case (current h es j rest i todo')
    then show ?thesis
      using at by (auto simp: exclude_start_def comp_simps excluded_def split: option.splits)
  next
    case (last_leaf h es j rest)
    with at show ?thesis
      by (auto simp: exclude_start_def comp_simps excluded_def entry_at_def split: option.splits if_splits)
  next
    case (next_leaf h es j rest h' es' j' rest')
    with re show ?thesis by (auto simp: ready_def entry_at_def)
  qed
qed

lemma values_ok_subset: "values_ok s es \<Longrightarrow> set xs \<subseteq> set es \<Longrightarrow> values_ok s xs"
  by (auto simp: values_ok_def)

lemma set_excluded: "set (excluded args xs) \<subseteq> set xs"
  by (cases xs) (auto simp: excluded_def)

lemma scan_holdsI:
  "bincode_ok E \<Longrightarrow> avail md s \<Longrightarrow> cursor_at E lo hi s fuel (reverse args) c todo \<Longrightarrow> values_ok s todo \<Longrightarrow>
   scan_holds E md fuel args s c (map (entry_pair s) (in_scan args todo))"
  unfolding scan_holds_def by blast

lemma starts_Nil: "starts args [] A \<longleftrightarrow> A = []"
  by (auto simp: starts_def start_todo_def overshoots_def split: option.splits)

lemma new_for_scan_at:
  assumes "bincode_ok E" "avail md s" "tree_at E s t n es" "Suc n < fuel" "length es < fuel"
  shows "\<exists>c A. new_for_scan E md fuel t args s = (Inr c, s) \<and> starts args es A
    \<and> scan_holds E md fuel args s c
        (map (entry_pair s) (in_scan args (excluded args (drop (unat (offset args)) A))))"
proof (cases "root_hash t")
  case None
  then have es: "es = []" using assms(3) by (simp add: tree_at_def)
  let ?c = "\<lparr>path = [], current_leaf_entry_idx = if reverse args then None else Some 0\<rparr>"
  have "cursor_at E 0 0 s fuel (reverse args) ?c []"
    using assms(4) by (intro cursor_at.finished) simp_all
  moreover have "new_for_scan E md fuel t args s = (Inr ?c, s)"
    by (simp add: new_for_scan_def None comp_simps)
  ultimately show ?thesis
    using scan_holdsI [OF assms(1,2), of 0 0 fuel args ?c "[]"]
    by (intro exI [of _ ?c] exI [of _ "[]"]) (simp add: es starts_Nil values_ok_def excluded_def in_scan_def)
next
  case (Some h)
  let ?c0 = "\<lparr>path = [], current_leaf_entry_idx = if reverse args then None else Some 0\<rparr>"
  from assms(3) Some obtain nd lo hi where nd: "stored E s h nd" "path_at E lo hi s [(h, nd, None)] n es [] []"
    "sorted_keys es" "values_ok s es" by (rule tree_at_path)
  have "seeks args [] es []" using nd(3) by (simp add: seeks_def toward_def split: option.splits)
  from scan_descend_at [OF assms(1,2) nd(2) this, of fuel ?c0] assms(4) obtain fs' es1 L1 R1 where d:
    "scan_descend E md fuel args nd (?c0\<lparr>path := [(h, nd, None)]\<rparr>, s) = (Inr (), (?c0\<lparr>path := fs'\<rparr>, s))"
    "path_at E lo hi s fs' 0 es1 L1 R1" "seeks args L1 es1 R1" "L1 @ es1 @ R1 = es" "length fs' = Suc n"
    by auto
  define c1 where "c1 = ?c0\<lparr>path := fs'\<rparr>"
  define c2 where "c2 = c1\<lparr>current_leaf_entry_idx := start_idx args es1\<rparr>"
  have path: "path_at E lo hi s (path c1) 0 es1 L1 R1" "length (path c1) < fuel"
    using d(2,5) assms(4) by (simp_all add: c1_def)
  from scan_position_at [OF assms(1,2) path d(3)] nd(3) d(4) obtain A where A:
    "ready E lo hi s fuel (reverse args) c2 A" "starts args es A" by (auto simp: c2_def)
  have "path c2 \<noteq> []" using path_at_not_Nil [OF d(2)] by (simp add: c2_def c1_def)
  moreover have "length A < fuel" using A(2) assms(5) by (simp add: starts_def)
  ultimately obtain c3 where c3: "skip_offset E md fuel args fuel (unat (offset args)) (c2, s) = (Inr 0, (c3, s))"
    "ready E lo hi s fuel (reverse args) c3 (drop (unat (offset args)) A)"
    using skip_offset_at [OF assms(1,2) A(1)] by blast
  from exclude_start_at [OF assms(1,2) c3(2)] obtain c4 where c4: "exclude_start args (c3, s) = (Inr (), (c4, s))"
    "cursor_at E lo hi s fuel (reverse args) c4 (excluded args (drop (unat (offset args)) A))" by blast
  have rest: "skip_rest md args 0 (c3, s) = (Inr (), (c3, s))"
    by (simp add: skip_rest_def comp_simps)
  have "new_for_scan E md fuel t args s = (Inr c4, s)"
    using d(1) [folded c1_def] scan_position_set [OF path(1), of args, folded c2_def] c3(1) rest c4(1)
    by (simp add: new_for_scan_def Some build_cursor_def comp_simps load_node_stored [OF assms(1,2) nd(1)])
  moreover have "values_ok s (excluded args (drop (unat (offset args)) A))"
    using A(2) set_excluded [of args "drop (unat (offset args)) A"] set_drop_subset [of "unat (offset args)" A]
    by (intro values_ok_subset [OF nd(4)]) (auto simp: starts_def)
  ultimately show ?thesis
    using scan_holdsI [OF assms(1,2) c4(2)] A(2) by blast
qed

end
