(* ===== verification/Range_Scan.thy ===== *)
theory Range_Scan
  imports Cursor_Scan
begin

text \<open>
  Range scans: \<^verbatim>\<open>ProllyTree::scan\<close> and \<^verbatim>\<open>scan_sync\<close> (\<^verbatim>\<open>src/src/tree/prolly_tree.rs\<close>), the page each returns, and
  when a page is what the bounds, the offset and the limit ask for.
\<close>

section \<open>Pages\<close>

record scan_page =
  items :: "(key \<times> val) list"
  has_next_page :: bool
  has_previous_page :: bool
  next_page_cursor :: "key option"
  previous_page_cursor :: "key option"

text \<open>Running a cursor that is dropped afterwards.\<close>

definition run_cursor :: "'c \<Rightarrow> ('c \<times> store, failure, 'a) comp \<Rightarrow> 'a io" where
  "run_cursor c m = (\<lambda>s. case m (c, s) of (r, (_, s')) \<Rightarrow> (r, s'))"

definition limit_or_max :: "scan_args \<Rightarrow> usize" where
  "limit_or_max args = (case limit args of None \<Rightarrow> - 1 | Some l \<Rightarrow> l)"

section \<open>The asynchronous scan\<close>

text \<open>
  The loop that fills a page. \<open>limited\<close> says whether a number of items was asked for, \<open>n\<close> is how many
  iterations are left. The result is the items, the key of the first item met and the item after
  the page.
\<close>

function scan_collect :: "extern \<Rightarrow> nat \<Rightarrow> scan_args \<Rightarrow> bool \<Rightarrow> usize \<Rightarrow> (key \<times> val) list \<Rightarrow> key option \<Rightarrow>
    ((key \<times> val) list \<times> key option \<times> (key \<times> val) option) cursor_op" where
  "scan_collect E fuel args limited n collected_items first_item_key =
     (if n = 0 then returnC (collected_items, first_item_key, None)
      else bindC (next_in_scan E Async fuel args) (\<lambda>r. case r of
        None \<Rightarrow> returnC (collected_items, first_item_key, None)
      | Some kv \<Rightarrow>
          (let first = (case first_item_key of None \<Rightarrow> Some (fst kv) | Some k \<Rightarrow> Some k)
           in if limited \<and> length collected_items < unat (limit_or_max args)
              then scan_collect E fuel args limited (n - 1) (collected_items @ [kv]) first
              else if limited \<and> length collected_items = unat (limit_or_max args)
              then returnC (collected_items, first, Some kv)
              else if \<not> limited
              then scan_collect E fuel args limited (n - 1) (collected_items @ [kv]) first
              else scan_collect E fuel args limited (n - 1) collected_items first)))"
  by pat_completeness auto
termination
  by (relation "measure (\<lambda>(E, fuel, args, limited, n, collected, first). unat n)")
    (auto simp: unat_gt_0 unat_minus_one)

declare scan_collect.simps [simp del]

definition tree_scan :: "extern \<Rightarrow> nat \<Rightarrow> tree \<Rightarrow> scan_args \<Rightarrow> scan_page io" where
  "tree_scan E fuel t args =
     (let items_to_fetch = (case limit args of None \<Rightarrow> None
            | Some limit_val \<Rightarrow> if 0 < limit_val then Some (limit_val + 1) else Some 0)
      in bindC (new_for_scan E Async fuel t args) (\<lambda>cursor.
         bindC (if items_to_fetch = Some 0 then returnC ([], None, None)
                else run_cursor cursor (scan_collect E fuel args (items_to_fetch \<noteq> None)
                  (case items_to_fetch of None \<Rightarrow> - 1 | Some n \<Rightarrow> n) [] None))
           (\<lambda>(collected_items, first_item_key, next_item).
         returnC \<lparr>items = collected_items, has_next_page = (next_item \<noteq> None),
           has_previous_page = (0 < offset args \<or> start_bound args \<noteq> None \<and> offset args = 0),
           next_page_cursor = map_option fst next_item, previous_page_cursor = first_item_key\<rparr>)))"

section \<open>The synchronous scan\<close>

function scan_collect_sync :: "extern \<Rightarrow> nat \<Rightarrow> scan_args \<Rightarrow> usize \<Rightarrow> (key \<times> val) list \<Rightarrow> key option \<Rightarrow>
    ((key \<times> val) list \<times> key option) cursor_op" where
  "scan_collect_sync E fuel args n collected_items first_item_key =
     (if n = 0 then returnC (collected_items, first_item_key)
      else bindC (next_in_scan_sync E fuel args) (\<lambda>r. case r of
        None \<Rightarrow> returnC (collected_items, first_item_key)
      | Some kv \<Rightarrow> scan_collect_sync E fuel args (n - 1) (collected_items @ [kv])
          (case first_item_key of None \<Rightarrow> Some (fst kv) | Some k \<Rightarrow> Some k)))"
  by pat_completeness auto
termination
  by (relation "measure (\<lambda>(E, fuel, args, n, collected, first). unat n)")
    (auto simp: unat_gt_0 unat_minus_one)

declare scan_collect_sync.simps [simp del]

definition tree_scan_sync :: "extern \<Rightarrow> nat \<Rightarrow> tree \<Rightarrow> scan_args \<Rightarrow> scan_page io" where
  "tree_scan_sync E fuel t args =
     (let lim = limit_or_max args;
          items_to_fetch = (if lim = - 1 then lim else lim + 1)
      in bindC (new_for_scan_sync E fuel t args) (\<lambda>cursor.
         bindC (if 0 < items_to_fetch
                then run_cursor cursor (scan_collect_sync E fuel args items_to_fetch [] None)
                else returnC ([], None)) (\<lambda>(collected_items, first_item_key).
         let has_next = (limit args \<noteq> None \<and> unat lim < length collected_items);
             page_items = (if has_next then butlast collected_items else collected_items)
         in returnC \<lparr>items = page_items, has_next_page = has_next,
              has_previous_page = (0 < offset args \<or> start_bound args \<noteq> None \<and> reverse args),
              next_page_cursor = (if has_next \<and> page_items \<noteq> [] then Some (fst (last page_items)) else None),
              previous_page_cursor = first_item_key\<rparr>)))"

section \<open>What the loops collect\<close>

definition first_key :: "key option \<Rightarrow> (key \<times> val) list \<Rightarrow> key option" where
  "first_key first xs = (case first of Some k \<Rightarrow> Some k
     | None \<Rightarrow> (case xs of [] \<Rightarrow> None | kv # _ \<Rightarrow> Some (fst kv)))"

lemma unat_pred: "(n :: usize) \<noteq> 0 \<Longrightarrow> unat (n - 1) = unat n - 1"
  by (rule unat_minus_one)

lemma scan_collect_limited:
  assumes "scan_holds E Async fuel args s c xs" "limit args = Some l"
    and "unat n = Suc (unat l) - length acc" "length acc \<le> unat l"
  shows "\<exists>c'. scan_collect E fuel args True n acc first (c, s) =
      (Inr (acc @ take (unat l - length acc) xs, first_key first xs,
        (if unat l - length acc < length xs then Some (xs ! (unat l - length acc)) else None)), (c', s))"
  using assms(1,3,4)
proof (induction xs arbitrary: c n acc first)
  case Nil
  have "n \<noteq> 0" using Nil.prems(2,3) by auto
  then show ?case
    using scan.advance_Nil [OF Nil.prems(1)]
    by (auto simp: scan_collect.simps [of _ _ _ _ n] comp_simps first_key_def split: option.splits)
next
  case (Cons x xs)
  have n: "n \<noteq> 0" using Cons.prems(2,3) by auto
  from scan.advance_Cons [OF Cons.prems(1)] obtain c1 where
    c1: "next_in_scan E Async fuel args (c, s) = (Inr (Some x), (c1, s))" "scan_holds E Async fuel args s c1 xs"
    by blast
  have first: "first_key (case first of None \<Rightarrow> Some (fst x) | Some k \<Rightarrow> Some k) xs = first_key first (x # xs)"
    by (simp add: first_key_def split: option.splits)
  show ?case
  proof (cases "length acc < unat l")
    case True
    have "unat (n - 1) = Suc (unat l) - length (acc @ [x])"
      using Cons.prems(2) n by (simp add: unat_pred)
    from Cons.IH [OF c1(2) this, of "case first of None \<Rightarrow> Some (fst x) | Some k \<Rightarrow> Some k"] True
    obtain c' where "scan_collect E fuel args True (n - 1) (acc @ [x])
        (case first of None \<Rightarrow> Some (fst x) | Some k \<Rightarrow> Some k) (c1, s) =
      (Inr ((acc @ [x]) @ take (unat l - length (acc @ [x])) xs, first_key first (x # xs),
        (if unat l - length (acc @ [x]) < length xs then Some (xs ! (unat l - length (acc @ [x]))) else None)), (c', s))"
      unfolding first by auto
    moreover obtain m where "unat l - length acc = Suc m" "unat l - length (acc @ [x]) = m"
      using True by (cases "unat l - length acc") auto
    ultimately show ?thesis
      using n True c1(1) by (simp add: scan_collect.simps [of _ _ _ _ n] comp_simps limit_or_max_def assms(2) Let_def)
  next
    case False
    then have "length acc = unat l" using Cons.prems(3) by simp
    then show ?thesis
      using n c1(1) by (auto simp: scan_collect.simps [of _ _ _ _ n] comp_simps limit_or_max_def assms(2) Let_def
          first_key_def split: option.splits)
  qed
qed

lemma scan_collect_unlimited:
  assumes "scan_holds E Async fuel args s c xs" "length xs < unat n"
  shows "\<exists>c'. scan_collect E fuel args False n acc first (c, s) =
      (Inr (acc @ xs, first_key first xs, None), (c', s))"
  using assms
proof (induction xs arbitrary: c n acc first)
  case Nil
  then have "n \<noteq> 0" by auto
  then show ?case
    using scan.advance_Nil [OF Nil.prems(1)]
    by (auto simp: scan_collect.simps [of _ _ _ _ n] comp_simps first_key_def split: option.splits)
next
  case (Cons x xs)
  then have n: "n \<noteq> 0" by auto
  from scan.advance_Cons [OF Cons.prems(1)] obtain c1 where
    c1: "next_in_scan E Async fuel args (c, s) = (Inr (Some x), (c1, s))" "scan_holds E Async fuel args s c1 xs"
    by blast
  have first: "first_key (case first of None \<Rightarrow> Some (fst x) | Some k \<Rightarrow> Some k) xs = first_key first (x # xs)"
    by (simp add: first_key_def split: option.splits)
  have "length xs < unat (n - 1)" using Cons.prems(2) n by (simp add: unat_pred)
  from Cons.IH [OF c1(2) this, of "acc @ [x]" "case first of None \<Rightarrow> Some (fst x) | Some k \<Rightarrow> Some k"] show ?case
    using n c1(1) first by (auto simp: scan_collect.simps [of _ _ _ _ n] comp_simps Let_def)
qed

lemma scan_collect_sync_holds:
  assumes "scan_holds E Sync fuel args s c xs"
  shows "\<exists>c'. scan_collect_sync E fuel args n acc first (c, s) =
      (Inr (acc @ take (unat n) xs, first_key first (take (unat n) xs)), (c', s))"
  using assms
proof (induction xs arbitrary: c n acc first)
  case Nil
  then show ?case
    using scan.advance_Nil [OF Nil.prems(1)]
    by (auto simp: scan_collect_sync.simps [of _ _ _ n] comp_simps first_key_def next_in_scan_sync_def split: option.splits)
next
  case (Cons x xs)
  show ?case
  proof (cases "n = 0")
    case True
    then show ?thesis
      by (simp add: scan_collect_sync.simps [of _ _ _ 0] comp_simps first_key_def split: option.splits)
  next
    case n: False
    from scan.advance_Cons [OF Cons.prems] obtain c1 where
      c1: "next_in_scan E Sync fuel args (c, s) = (Inr (Some x), (c1, s))" "scan_holds E Sync fuel args s c1 xs"
      by blast
    have len: "unat n = Suc (unat (n - 1))" using n unat_pred [OF n] unat_gt_0 [of n] by simp
    have first: "first_key (case first of None \<Rightarrow> Some (fst x) | Some k \<Rightarrow> Some k) (take (unat (n - 1)) xs)
        = first_key first (take (unat n) (x # xs))"
      by (simp add: first_key_def len split: option.splits)
    from Cons.IH [OF c1(2), of "n - 1" "acc @ [x]" "case first of None \<Rightarrow> Some (fst x) | Some k \<Rightarrow> Some k"]
    show ?thesis
      using n c1(1) first len
      by (auto simp: scan_collect_sync.simps [of _ _ _ n] comp_simps next_in_scan_sync_def)
  qed
qed

section \<open>What a page holds\<close>

text \<open>The items a scan of a tree with the entries \<open>es\<close> meets, from the start list \<open>A\<close> of its cursor.\<close>

definition scan_items :: "store \<Rightarrow> scan_args \<Rightarrow> leaf_entry list \<Rightarrow> (key \<times> val) list" where
  "scan_items s args A = map (entry_pair s) (in_scan args (excluded args (drop (unat (offset args)) A)))"

definition page_of :: "scan_args \<Rightarrow> (key \<times> val) list \<Rightarrow> scan_page" where
  "page_of args xs = (let n = unat (limit_or_max args); more = (0 < n \<and> n < length xs) in
     \<lparr>items = take n xs, has_next_page = more,
      has_previous_page = (0 < offset args \<or> start_bound args \<noteq> None),
      next_page_cursor = (if more then Some (fst (xs ! n)) else None),
      previous_page_cursor = (if 0 < n then first_key None xs else None)\<rparr>)"

definition page_of_sync :: "scan_args \<Rightarrow> (key \<times> val) list \<Rightarrow> scan_page" where
  "page_of_sync args xs = (let n = unat (limit_or_max args); more = (n < length xs) in
     \<lparr>items = take n xs, has_next_page = more,
      has_previous_page = (0 < offset args \<or> start_bound args \<noteq> None \<and> reverse args),
      next_page_cursor = (if more \<and> 0 < n then Some (fst (xs ! (n - 1))) else None),
      previous_page_cursor = first_key None xs\<rparr>)"

text \<open>The number of items a page is asked for does not overflow, and a list of all items fits a vector.\<close>

definition limit_ok :: "scan_args \<Rightarrow> leaf_entry list \<Rightarrow> bool" where
  "limit_ok args es \<longleftrightarrow> (case limit args of None \<Rightarrow> length es < 2 ^ 32 - 1 | Some l \<Rightarrow> l \<noteq> - 1)"

lemma unat_max_usize: "unat (- 1 :: usize) = 2 ^ 32 - 1"
  by (simp add: unsigned_minus_1_eq_mask mask_eq_exp_minus_1)

lemma unat_succ_usize: "l \<noteq> - 1 \<Longrightarrow> unat (l + 1 :: usize) = Suc (unat l)"
  using unatSuc [of l] by (metis add.commute add.right_neutral add_diff_cancel_right' diff_0 unatSuc)

lemma scan_items_length: "starts args es A \<Longrightarrow> length (scan_items s args A) \<le> length es"
proof -
  assume "starts args es A"
  let ?xs = "drop (unat (offset args)) A"
  have "length (in_scan args (excluded args ?xs)) \<le> length (excluded args ?xs)"
    by (simp add: in_scan_def length_takeWhile_le)
  also have "\<dots> \<le> length ?xs"
    by (cases ?xs) (simp_all add: excluded_def)
  also have "\<dots> \<le> length A" by simp
  also have "\<dots> \<le> length es" using \<open>starts args es A\<close> by (simp add: starts_def)
  finally show ?thesis by (simp add: scan_items_def)
qed

lemma last_take_nth: "0 < m \<Longrightarrow> m \<le> length xs \<Longrightarrow> last (take m xs) = xs ! (m - 1)"
  by (cases "xs = []") (simp_all add: last_conv_nth min_def)

lemma tree_scan_at:
  assumes "bincode_ok E" "tree_at E s t n es" "Suc n < fuel" "length es < fuel" "limit_ok args es"
  shows "\<exists>A. starts args es A \<and> tree_scan E fuel t args s = (Inr (page_of args (scan_items s args A)), s)"
proof -
  have avail: "avail Async s" by (simp add: avail_def)
  from new_for_scan_at [OF assms(1) avail assms(2-4), of args] obtain c A where
    new: "new_for_scan E Async fuel t args s = (Inr c, s)" and A: "starts args es A"
    and holds: "scan_holds E Async fuel args s c (scan_items s args A)"
    unfolding scan_items_def by blast
  let ?xs = "scan_items s args A"
  have "tree_scan E fuel t args s = (Inr (page_of args ?xs), s)"
  proof (cases "limit args")
    case None
    have "length ?xs < unat (- 1 :: usize)"
      using scan_items_length [OF A, of s] assms(5) None unfolding unat_max_usize by (simp add: limit_ok_def)
    with scan_collect_unlimited [OF holds this, of "[]" None] None new show ?thesis
      by (auto simp: tree_scan_def page_of_def limit_or_max_def run_cursor_def comp_simps Let_def word_gt_0)
  next
    case (Some l)
    show ?thesis
    proof (cases "l = 0")
      case True
      with Some new show ?thesis
        by (simp add: tree_scan_def page_of_def limit_or_max_def comp_simps Let_def word_gt_0)
    next
      case False
      have l: "unat (l + 1) = Suc (unat l)" "0 < l" "0 < unat l"
        using Some assms(5) False by (simp_all add: limit_ok_def unat_succ_usize word_gt_0 unat_gt_0)
      then have "l + 1 \<noteq> 0" by (metis unat_0 nat.distinct(1))
      with scan_collect_limited [OF holds Some, of "l + 1" "[]" None] l Some new show ?thesis
        by (auto simp: tree_scan_def page_of_def limit_or_max_def run_cursor_def comp_simps Let_def word_gt_0)
    qed
  qed
  with A show ?thesis by blast
qed

lemma tree_scan_sync_at:
  assumes "bincode_ok E" "avail Sync s" "tree_at E s t n es" "Suc n < fuel" "length es < fuel" "limit_ok args es"
  shows "\<exists>A. starts args es A \<and> tree_scan_sync E fuel t args s = (Inr (page_of_sync args (scan_items s args A)), s)"
proof -
  from new_for_scan_at [OF assms(1-5), of args] obtain c A where
    new: "new_for_scan E Sync fuel t args s = (Inr c, s)" and A: "starts args es A"
    and holds: "scan_holds E Sync fuel args s c (scan_items s args A)"
    unfolding scan_items_def by blast
  let ?xs = "scan_items s args A"
  note collect = scan_collect_sync_holds [OF holds]
  have "tree_scan_sync E fuel t args s = (Inr (page_of_sync args ?xs), s)"
  proof (cases "limit args")
    case None
    have "length ?xs < unat (- 1 :: usize)"
      using scan_items_length [OF A, of s] assms(6) None unfolding unat_max_usize by (simp add: limit_ok_def)
    with collect [of "- 1" "[]" None] None new show ?thesis
      by (auto simp: tree_scan_sync_def page_of_sync_def limit_or_max_def run_cursor_def comp_simps Let_def
          new_for_scan_sync_def word_gt_0)
  next
    case (Some l)
    then have l: "unat (l + 1) = Suc (unat l)" "l \<noteq> - 1"
      using assms(6) by (simp_all add: limit_ok_def unat_succ_usize)
    then have pos: "0 < l + 1" by (metis unat_0 nat.distinct(1) word_gt_0)
    from collect [of "l + 1" "[]" None] obtain c' where run:
      "scan_collect_sync E fuel args (l + 1) [] None (c, s) =
        (Inr (take (Suc (unat l)) ?xs, first_key None (take (Suc (unat l)) ?xs)), (c', s))"
      by (auto simp: l(1))
    have first: "first_key None (take (Suc m) ys) = first_key None ys" for m ys
      by (cases ys) (simp_all add: first_key_def)
    have "\<not> l + 1 = 0" using pos by auto
    show ?thesis
    proof (cases "unat l < length ?xs")
      case True
      then have "butlast (take (Suc (unat l)) ?xs) = take (unat l) ?xs" "length (take (Suc (unat l)) ?xs) = Suc (unat l)"
        by (simp_all add: butlast_take)
      moreover have "last (take (unat l) ?xs) = ?xs ! (unat l - 1)" "take (unat l) ?xs \<noteq> []" if "0 < unat l"
        using that True by (auto simp: last_take_nth)
      ultimately show ?thesis
        using run pos new Some l(2) True
        by (simp add: tree_scan_sync_def page_of_sync_def limit_or_max_def run_cursor_def comp_simps Let_def
            new_for_scan_sync_def first)
    next
      case False
      then have "take (Suc (unat l)) ?xs = ?xs" "take (unat l) ?xs = ?xs" by simp_all
      then show ?thesis
        using run pos new Some l(2) False
        by (simp add: tree_scan_sync_def page_of_sync_def limit_or_max_def run_cursor_def comp_simps Let_def
            new_for_scan_sync_def first)
    qed
  qed
  with A show ?thesis by blast
qed

section \<open>The bounds, the offset and the limit\<close>

text \<open>The keys a caller asks for; \<^verbatim>\<open>start_bound\<close> is the upper one when the scan runs backwards.\<close>

definition start_ok :: "scan_args \<Rightarrow> key \<Rightarrow> bool" where
  "start_ok args k = (case start_bound args of None \<Rightarrow> True
     | Some b \<Rightarrow> (if reverse args then k < b else b < k) \<or> k = b \<and> start_inclusive args)"

definition end_ok :: "scan_args \<Rightarrow> key \<Rightarrow> bool" where
  "end_ok args k = (case end_bound args of None \<Rightarrow> True
     | Some b \<Rightarrow> (if reverse args then b < k else k < b) \<or> k = b \<and> end_inclusive args)"

definition along :: "scan_args \<Rightarrow> leaf_entry list \<Rightarrow> leaf_entry list" where
  "along args es = (if reverse args then rev es else es)"

definition requested :: "scan_args \<Rightarrow> leaf_entry list \<Rightarrow> leaf_entry list" where
  "requested args es = drop (unat (offset args))
     (filter (\<lambda>e. start_ok args (le_key e) \<and> end_ok args (le_key e)) (along args es))"

text \<open>
  When the code meets exactly those: an excluded start bound comes with no offset, and a backward
  scan starts at a key of the tree or above all keys.
\<close>

definition regular :: "scan_args \<Rightarrow> leaf_entry list \<Rightarrow> bool" where
  "regular args es \<longleftrightarrow> (case start_bound args of None \<Rightarrow> True
     | Some b \<Rightarrow> (start_inclusive args \<or> offset args = 0 \<or> b \<notin> le_key ` set es)
          \<and> (reverse args \<longrightarrow> b \<in> le_key ` set es \<or> (\<forall>e\<in>set es. le_key e < b)))"

lemma past_end_iff: "past_end args k \<longleftrightarrow> \<not> end_ok args k"
  by (auto simp: past_end_def end_ok_def split: option.splits)

lemma above_start_iff: "reverse args \<Longrightarrow> above_start args k \<longleftrightarrow> \<not> start_ok args k"
  by (auto simp: above_start_def start_ok_def split: option.splits)

text \<open>The keys inside the end bound come first in the direction of the scan.\<close>

definition directed :: "scan_args \<Rightarrow> leaf_entry list \<Rightarrow> bool" where
  "directed args xs \<longleftrightarrow> (if reverse args then sorted_keys (rev xs) else sorted_keys xs)"

lemma directed_Cons:
  "directed args (x # xs) \<longleftrightarrow> directed args xs
     \<and> (\<forall>y\<in>set xs. if reverse args then le_key y < le_key x else le_key x < le_key y)"
  by (auto simp: directed_def sorted_wrt_append)

lemma end_ok_down: "end_ok args (le_key y) \<Longrightarrow> (if reverse args then le_key y < le_key x else le_key x < le_key y) \<Longrightarrow>
  end_ok args (le_key x)"
  by (auto simp: end_ok_def split: option.splits if_splits)

lemma takeWhile_directed:
  "directed args xs \<Longrightarrow> takeWhile (\<lambda>e. end_ok args (le_key e)) (drop n xs)
     = drop n (filter (\<lambda>e. end_ok args (le_key e)) xs)"
proof (induction xs arbitrary: n)
  case Nil
  then show ?case by simp
next
  case (Cons x xs)
  note IH = Cons.IH [of 0] Cons.IH
  show ?case
  proof (cases "end_ok args (le_key x)")
    case True
    with Cons show ?thesis by (cases n) (use Cons.IH [of 0] in \<open>auto simp: directed_Cons\<close>)
  next
    case False
    then have none: "\<forall>y\<in>set xs. \<not> end_ok args (le_key y)"
      using Cons.prems end_ok_down by (auto simp: directed_Cons)
    then have "filter (\<lambda>e. end_ok args (le_key e)) xs = []" by (simp add: filter_empty_conv)
    moreover have "takeWhile (\<lambda>e. end_ok args (le_key e)) (drop m (x # xs)) = []" for m
    proof (cases "drop m (x # xs)")
      case (Cons y ys)
      then have "y \<in> set (x # xs)" by (metis in_set_dropD list.set_intros(1))
      with Cons none False show ?thesis by auto
    qed simp
    ultimately show ?thesis using False by simp
  qed
qed

section \<open>A scan meets what is requested\<close>

lemma dropWhile_sorted_filter:
  "sorted_keys es \<Longrightarrow> dropWhile (\<lambda>e. le_key e < k) es = filter (\<lambda>e. k \<le> le_key e) es"
proof (induction es)
  case (Cons e es)
  then have "filter (\<lambda>e. k \<le> le_key e) es = es" if "k \<le> le_key e"
    using that by (auto simp: filter_id_conv intro: less_imp_le le_less_trans)
  with Cons show ?case by (auto simp: not_less)
qed simp

lemma takeWhile_sorted_filter:
  "sorted_keys es \<Longrightarrow> takeWhile (\<lambda>e. le_key e \<le> k) es = filter (\<lambda>e. le_key e \<le> k) es"
proof (induction es)
  case (Cons e es)
  then have "filter (\<lambda>e. le_key e \<le> k) es = []" if "\<not> le_key e \<le> k"
    using that by (auto simp: filter_empty_conv not_le intro: less_trans)
  with Cons show ?case by auto
qed simp

definition at_start :: "scan_args \<Rightarrow> key \<Rightarrow> bool" where
  "at_start args k \<longleftrightarrow> (case start_bound args of None \<Rightarrow> True | Some b \<Rightarrow> if reverse args then k \<le> b else b \<le> k)"

lemma set_along [simp]: "set (along args es) = set es"
  by (simp add: along_def)

lemma directed_along: "directed args (along args es) \<longleftrightarrow> sorted_keys es"
  by (simp add: directed_def along_def)

lemma directed_filter: "directed args xs \<Longrightarrow> directed args (filter P xs)"
  by (cases "reverse args") (simp_all add: directed_def sorted_wrt_map sorted_wrt_filter rev_filter)

lemma start_todo_filter:
  "sorted_keys es \<Longrightarrow> start_todo args es = filter (\<lambda>e. at_start args (le_key e)) (along args es)"
  by (cases "start_bound args") (simp_all add: start_todo_def along_def at_start_def rev_filter
      dropWhile_sorted_filter takeWhile_sorted_filter)

lemma start_ok_at_start:
  "start_ok args k \<longleftrightarrow> at_start args k \<and> (start_bound args = Some k \<longrightarrow> start_inclusive args)"
  by (auto simp: start_ok_def at_start_def split: option.splits)

lemma directed_beyond:
  assumes "directed args (x # xs)" "start_bound args = Some (le_key x)" "y \<in> set xs"
  shows "start_ok args (le_key y)"
  using assms by (auto simp: directed_Cons start_ok_def split: if_splits)

lemma directed_no_later:
  assumes "directed args (x # xs)" "at_start args (le_key x)" "y \<in> set xs"
  shows "start_bound args \<noteq> Some (le_key y)"
  using assms by (auto simp: directed_Cons at_start_def split: if_splits option.splits)

lemma excluded_filter:
  assumes "directed args T" "\<forall>e\<in>set T. at_start args (le_key e)"
  shows "excluded args T = filter (\<lambda>e. start_ok args (le_key e)) T"
proof (cases T)
  case (Cons x xs)
  have "filter (\<lambda>e. start_ok args (le_key e)) xs = xs"
  proof (subst filter_id_conv, intro ballI)
    fix y assume "y \<in> set xs"
    with assms Cons show "start_ok args (le_key y)"
      by (auto simp: start_ok_at_start dest: directed_no_later)
  qed
  with assms(2) Cons show ?thesis by (auto simp: excluded_def start_ok_at_start)
qed (simp add: excluded_def)

lemma filter_drop_all: "\<forall>x\<in>set xs. P x \<Longrightarrow> filter P (drop n xs) = drop n (filter P xs)"
proof -
  assume all: "\<forall>x\<in>set xs. P x"
  then have "filter P (drop n xs) = drop n xs" "filter P xs = xs"
    by (auto simp: filter_id_conv dest: in_set_dropD)
  then show ?thesis by simp
qed

lemma directed_drop: "directed args xs \<Longrightarrow> directed args (drop n xs)"
  by (induction xs arbitrary: n) (auto simp: directed_Cons drop_Cons split: nat.splits)

lemma excluded_start_todo:
  assumes "sorted_keys es" "regular args es"
  shows "excluded args (drop (unat (offset args)) (start_todo args es))
    = drop (unat (offset args)) (filter (\<lambda>e. start_ok args (le_key e)) (along args es))"
proof -
  define T where "T = filter (\<lambda>e. at_start args (le_key e)) (along args es)"
  have T: "start_todo args es = T" using start_todo_filter [OF assms(1)] by (simp add: T_def)
  have dir: "directed args T" using assms(1) by (simp add: T_def directed_filter directed_along)
  have all: "\<forall>e\<in>set T. at_start args (le_key e)" by (simp add: T_def)
  have F: "filter (\<lambda>e. start_ok args (le_key e)) (along args es) = filter (\<lambda>e. start_ok args (le_key e)) T"
    unfolding T_def filter_filter by (rule filter_cong) (auto simp: start_ok_at_start)
  have "excluded args (drop (unat (offset args)) T)
      = filter (\<lambda>e. start_ok args (le_key e)) (drop (unat (offset args)) T)"
    using all by (intro excluded_filter directed_drop dir) (auto dest: in_set_dropD)
  also have "\<dots> = drop (unat (offset args)) (filter (\<lambda>e. start_ok args (le_key e)) T)"
  proof (cases "offset args = 0")
    case False
    with assms(2) have "\<forall>e\<in>set T. start_ok args (le_key e)"
      using all by (auto simp: T_def regular_def start_ok_at_start split: option.splits)
    then show ?thesis by (rule filter_drop_all)
  qed simp
  finally show ?thesis using T F by simp
qed

lemma in_scan_end:
  assumes "\<forall>e\<in>set xs. start_ok args (le_key e)"
  shows "in_scan args xs = takeWhile (\<lambda>e. end_ok args (le_key e)) xs"
  unfolding in_scan_def using assms
  by (intro takeWhile_cong) (auto simp: out_of_range_def past_end_iff above_start_iff)

lemma starts_regular: "starts args es A \<Longrightarrow> regular args es \<Longrightarrow> A = start_todo args es"
  by (auto simp: starts_def overshoots_def regular_def dest: less_asym)

theorem scan_items_requested:
  assumes "sorted_keys es" "starts args es A" "regular args es"
  shows "scan_items s args A = map (entry_pair s) (requested args es)"
proof -
  let ?F = "filter (\<lambda>e. start_ok args (le_key e)) (along args es)"
  have "directed args ?F" using assms(1) by (simp add: directed_filter directed_along)
  then have "in_scan args (drop (unat (offset args)) ?F)
      = drop (unat (offset args)) (filter (\<lambda>e. end_ok args (le_key e)) ?F)"
    by (subst in_scan_end) (auto simp: takeWhile_directed dest: in_set_dropD)
  moreover have "requested args es = drop (unat (offset args)) (filter (\<lambda>e. end_ok args (le_key e)) ?F)"
    by (simp add: requested_def filter_filter conj_commute)
  ultimately show ?thesis
    by (simp add: scan_items_def starts_regular [OF assms(2,3)] excluded_start_todo [OF assms(1,3)])
qed

section \<open>The pages of a scan in terms of the map\<close>

text \<open>The pairs of a map in the order of the keys; there is one such list for a finite map.\<close>

definition listing :: "(key \<Rightarrow> val option) \<Rightarrow> (key \<times> val) list \<Rightarrow> bool" where
  "listing m xs \<longleftrightarrow> sorted_wrt (<) (map fst xs) \<and> map_of xs = m"

definition asked :: "scan_args \<Rightarrow> (key \<times> val) list \<Rightarrow> (key \<times> val) list" where
  "asked args xs = drop (unat (offset args))
     (filter (\<lambda>x. start_ok args (fst x) \<and> end_ok args (fst x)) (if reverse args then rev xs else xs))"

lemma fst_entry_pair [simp]: "fst (entry_pair s e) = le_key e"
  by (simp add: entry_pair_def)

lemma lookup_key_pairs:
  "values_ok s es \<Longrightarrow> map_of (map (entry_pair s) es) k = entries_map s es k"
  by (induction es) (auto simp: entries_map_def values_ok_def entry_pair_def)

lemma listing_entries: "sorted_keys es \<Longrightarrow> values_ok s es \<Longrightarrow> listing (entries_map s es) (map (entry_pair s) es)"
  by (auto simp: listing_def comp_def lookup_key_pairs)

lemma listing_unique:
  assumes "listing m xs" "listing m ys"
  shows "xs = ys"
proof (rule map_sorted_distinct_set_unique)
  have d: "distinct (map fst zs)" "sorted (map fst zs)" if "listing m zs" for zs
    using that by (auto simp: listing_def strict_sorted_iff)
  show "sorted (map fst xs)" "distinct (map fst xs)" "sorted (map fst ys)" "distinct (map fst ys)"
    using assms d by auto
  show eq: "set xs = set ys"
    using assms d map_of_inject_set [of xs ys] by (simp add: listing_def)
  show "inj_on fst (set xs \<union> set ys)"
    using assms(1) d(1) by (simp add: eq distinct_map [symmetric]) (metis distinct_map eq)
qed

lemma asked_requested: "map (entry_pair s) (requested args es) = asked args (map (entry_pair s) es)"
  by (simp add: asked_def requested_def along_def drop_map filter_map comp_def rev_map)

section \<open>Following the pages\<close>

lemma before_directed:
  "directed args xs \<longleftrightarrow> sorted_wrt (\<lambda>a b. if reverse args then le_key b < le_key a else le_key a < le_key b) xs"
  by (cases "reverse args") (simp_all add: directed_def sorted_wrt_map sorted_wrt_rev)

text \<open>
  What to ask for after a page: the asynchronous scan hands out the key of the first entry that is
  not on the page, the synchronous one the key of the last entry that is.
\<close>

definition resume :: "mode \<Rightarrow> scan_args \<Rightarrow> key \<Rightarrow> scan_args" where
  "resume md args k = args\<lparr>start_bound := Some k, start_inclusive := (md = Async), offset := 0\<rparr>"

lemma directed_resume [simp]: "directed (resume md args k) = directed args"
  by (simp add: directed_def resume_def fun_eq_iff)

lemma along_resume [simp]: "along (resume md args k) = along args"
  by (simp add: along_def resume_def fun_eq_iff)

lemma resume_simps [simp]:
  "offset (resume md args k) = 0" "limit (resume md args k) = limit args" "reverse (resume md args k) = reverse args"
  by (simp_all add: resume_def)

lemma end_ok_resume [simp]: "end_ok (resume md args k) = end_ok args"
  by (simp add: end_ok_def resume_def fun_eq_iff split: option.splits)

lemma start_ok_resume: "start_ok (resume md args k) k' \<longleftrightarrow>
    (if reverse args then k' < k else k < k') \<or> k' = k \<and> md = Async"
  by (simp add: start_ok_def resume_def)

lemma start_ok_mono: "start_ok (resume md args k) k' \<Longrightarrow> start_ok args k \<Longrightarrow> start_ok args k'"
  unfolding start_ok_resume unfolding start_ok_def
  by (cases "reverse args"; cases "start_bound args") auto

lemma directed_later:
  assumes "directed args (xs @ x # ys)"
  shows "filter (\<lambda>e. start_ok (resume md args (le_key x)) (le_key e)) (xs @ x # ys)
    = (if md = Async then x # ys else ys)"
proof -
  let ?ok = "\<lambda>e. start_ok (resume md args (le_key x)) (le_key e)"
  from assms have "\<forall>e\<in>set xs. \<not> ?ok e" "\<forall>e\<in>set ys. ?ok e"
    by (cases "reverse args"; auto simp: before_directed sorted_wrt_append start_ok_resume dest: less_asym)+
  then have "filter ?ok xs = []" "filter ?ok ys = ys"
    by (simp_all add: filter_empty_conv filter_id_conv)
  then show ?thesis by (simp only: filter_append filter.simps) (simp add: start_ok_resume)
qed

lemma requested_resume:
  assumes "sorted_keys es" "requested args es = xs @ x # ys"
  shows "requested (resume md args (le_key x)) es = (if md = Async then x # ys else ys)"
proof -
  let ?P = "\<lambda>e. start_ok args (le_key e) \<and> end_ok args (le_key e)"
  let ?ok = "\<lambda>e. start_ok (resume md args (le_key x)) (le_key e)"
  let ?D = "along args es"
  define F where "F = filter ?P ?D"
  have dir: "directed args ?D" using assms(1) by (simp add: directed_along)
  then have dF: "directed args F" by (simp add: F_def directed_filter)
  define ws where "ws = take (unat (offset args)) F"
  have "drop (unat (offset args)) F = xs @ x # ys"
    using assms(2) by (simp add: requested_def F_def)
  then have F: "F = (ws @ xs) @ x # ys"
    using append_take_drop_id [of "unat (offset args)" F] by (simp add: ws_def)
  have x: "x \<in> set ?D" "?P x"
  proof -
    have "x \<in> set F" by (simp add: F)
    then show "x \<in> set ?D" "?P x" by (simp_all add: F_def)
  qed
  have "filter (\<lambda>e. ?ok e \<and> end_ok args (le_key e)) ?D = filter ?ok F"
    unfolding F_def filter_filter
  proof (rule filter_cong [OF refl])
    fix e assume "e \<in> set ?D"
    have "start_ok args (le_key e)" if "?ok e"
      using start_ok_mono [OF that] x(2) by blast
    then show "(?ok e \<and> end_ok args (le_key e)) = (?P e \<and> ?ok e)" by blast
  qed
  also have "\<dots> = (if md = Async then x # ys else ys)"
    using directed_later [of args "ws @ xs" x ys md] dF unfolding F by simp
  finally show ?thesis
    by (simp add: requested_def)
qed

lemma regular_resume:
  "e \<in> set es \<Longrightarrow> regular (resume md args (le_key e)) es"
  by (auto simp: regular_def resume_def)

end
