(* ===== verification/Hierarchy.thy ===== *)
theory Hierarchy
  imports Range_Scan
begin

text \<open>
  The hierarchy cursor (\<^verbatim>\<open>src/src/tree/hierarchy_cursor.rs\<close>), which walks over all nodes of a tree and
  their entries, and \<^verbatim>\<open>ProllyTree::hierarchy_scan\<close>, which returns a page of that walk.
\<close>

section \<open>Types\<close>

record hierarchy_scan_args =
  start_key :: "key option"
  max_depth :: "usize option"
  hs_limit :: "usize option"
  hs_offset :: "usize option"

text \<open>
  The items of a walk, with the fields in the order of the code: a node (hash, level, whether it is a
  leaf, number of entries, path of indices from the root), an entry of an internal node (hash of the
  node, index, boundary key, child hash, item count) and an entry of a leaf (hash of the leaf, index,
  key, kind of the value, its hash, its size).
\<close>

datatype hierarchy_item =
  NodeItem hash u8 bool nat "nat list"
| InternalEntryItem hash nat key hash u64
| LeafEntryItem hash nat key string "hash option" u64

record hierarchy_page =
  hs_items :: "hierarchy_item list"
  hs_has_next_page :: bool
  next_page_cursor_token :: "string option"

text \<open>
  The cursor: nodes to visit, with their depth and path, and the nodes whose entries are being
  listed, with the index of the next entry and a code for the kind of the node.
\<close>

record hierarchy_cursor =
  hc_args :: hierarchy_scan_args
  traversal_queue :: "(hash \<times> nat \<times> nat list) list"
  current_node_entries_queue :: "(hash \<times> node \<times> nat \<times> nat) list"

type_synonym 'a hier_op = "(hierarchy_cursor \<times> store, failure, 'a) comp"

definition read_hier :: "hierarchy_cursor hier_op" where
  "read_hier = (\<lambda>(c, s). (Inr c, (c, s)))"

definition set_entries :: "(hash \<times> node \<times> nat \<times> nat) list \<Rightarrow> unit hier_op" where
  "set_entries q = (\<lambda>(c, s). (Inr (), (c\<lparr>current_node_entries_queue := q\<rparr>, s)))"

definition set_traversal :: "(hash \<times> nat \<times> nat list) list \<Rightarrow> unit hier_op" where
  "set_traversal q = (\<lambda>(c, s). (Inr (), (c\<lparr>traversal_queue := q\<rparr>, s)))"

definition new_for_hierarchy_scan :: "tree \<Rightarrow> hierarchy_scan_args \<Rightarrow> hierarchy_cursor io" where
  "new_for_hierarchy_scan t args = returnC \<lparr>hc_args = args,
     traversal_queue = (case root_hash t of None \<Rightarrow> [] | Some h \<Rightarrow> [(h, 0, [])]),
     current_node_entries_queue = []\<rparr>"

definition hier_load_node :: "extern \<Rightarrow> hash \<Rightarrow> node io" where
  "hier_load_node E h = bindC (get h) (\<lambda>found. case found of
     None \<Rightarrow> throwC (Err (ChunkNotFound h)) | Some b \<Rightarrow> liftE (decode E b))"

section \<open>The next item\<close>

text \<open>What is said about a value: its kind, the hash of its first chunk, its size.\<close>

fun value_info :: "value_repr \<Rightarrow> (string \<times> hash option \<times> u64) io" where
  "value_info (Inline v) = returnC (''Inline'', None, of_nat (length v))"
| "value_info (Chunked h) = bindC (get h) (\<lambda>chunk_data.
     returnC (''Chunked'', Some h, case chunk_data of None \<Rightarrow> 0 | Some d \<Rightarrow> of_nat (length d)))"
| "value_info (ChunkedSequence chunk_hashes total_size) =
     returnC (''ChunkedSequence'', case chunk_hashes of [] \<Rightarrow> None | h # _ \<Rightarrow> Some h, total_size)"

definition entry_item :: "hash \<Rightarrow> node \<Rightarrow> nat \<Rightarrow> hierarchy_item option io" where
  "entry_item h nd i = (case nd of
     Internal _ cs \<Rightarrow>
       (if i < length cs
        then returnC (Some (InternalEntryItem h i (boundary_key (cs ! i)) (child_hash (cs ! i)) (num_items_subtree (cs ! i))))
        else returnC None)
   | Leaf _ es \<Rightarrow>
       (if i < length es
        then bindC (value_info (le_value (es ! i))) (\<lambda>(ty, vh, sz).
             returnC (Some (LeafEntryItem h i (le_key (es ! i)) ty vh sz)))
        else returnC None))"

definition next_entry :: "hierarchy_item option hier_op" where
  "next_entry = bindC read_hier (\<lambda>c. case current_node_entries_queue c of
     [] \<Rightarrow> returnC None
   | (h, nd, i, ty) # rest \<Rightarrow> bindC (with_store (entry_item h nd i)) (\<lambda>item. case item of
       Some _ \<Rightarrow> bindC (set_entries ((h, nd, Suc i, ty) # rest)) (\<lambda>_. returnC item)
     | None \<Rightarrow> bindC (set_entries rest) (\<lambda>_. returnC None)))"

definition push_children :: "nat \<Rightarrow> nat list \<Rightarrow> internal_entry list \<Rightarrow> (hash \<times> nat \<times> nat list) list \<Rightarrow>
    (hash \<times> nat \<times> nat list) list" where
  "push_children depth path_indices cs q =
     fold (\<lambda>(i, c) q. (child_hash c, Suc depth, path_indices @ [i]) # q) (rev (enumerate 0 cs)) q"

definition deeper :: "hierarchy_scan_args \<Rightarrow> nat \<Rightarrow> bool" where
  "deeper args depth \<longleftrightarrow> (case max_depth args of None \<Rightarrow> True | Some m \<Rightarrow> depth < unat m)"

definition too_deep :: "hierarchy_scan_args \<Rightarrow> nat \<Rightarrow> bool" where
  "too_deep args depth \<longleftrightarrow> (case max_depth args of None \<Rightarrow> False | Some m \<Rightarrow> unat m < depth)"

text \<open>\<^verbatim>\<open>next_item\<close> calls itself when the node it takes is too deep.\<close>

fun next_item :: "extern \<Rightarrow> nat \<Rightarrow> hierarchy_item option hier_op" where
  "next_item E 0 = throwC OutOfFuel"
| "next_item E (Suc fuel) = bindC next_entry (\<lambda>item. case item of
     Some _ \<Rightarrow> returnC item
   | None \<Rightarrow> bindC read_hier (\<lambda>c. case traversal_queue c of
       [] \<Rightarrow> returnC None
     | (h, depth, p) # rest \<Rightarrow> bindC (set_traversal rest) (\<lambda>_.
         if too_deep (hc_args c) depth then next_item E fuel
         else bindC (with_store (hier_load_node E h)) (\<lambda>nd.
           let is_leaf = (case nd of Leaf _ _ \<Rightarrow> True | Internal _ _ \<Rightarrow> False);
               entry_type_code = (case nd of Leaf _ _ \<Rightarrow> 1 | Internal _ _ \<Rightarrow> 0)
           in bindC (if 0 < num_entries nd
                     then set_entries (current_node_entries_queue c @ [(h, nd, 0, entry_type_code)])
                     else returnC ()) (\<lambda>_.
              bindC (case nd of
                  Internal _ cs \<Rightarrow> if deeper (hc_args c) depth then set_traversal (push_children depth p cs rest)
                    else returnC ()
                | Leaf _ _ \<Rightarrow> returnC ()) (\<lambda>_.
              returnC (Some (NodeItem h (level nd) is_leaf (num_entries nd) p))))))))"

section \<open>A page of the walk\<close>

text \<open>The loop that skips the offset; the result says whether the walk went on that long.\<close>

function hier_skip :: "extern \<Rightarrow> nat \<Rightarrow> usize \<Rightarrow> bool hier_op" where
  "hier_skip E fuel n =
     (if n = 0 then returnC True
      else bindC (next_item E fuel) (\<lambda>item. case item of
        None \<Rightarrow> returnC False | Some _ \<Rightarrow> hier_skip E fuel (n - 1)))"
  by pat_completeness auto
termination
  by (relation "measure (\<lambda>(E, fuel, n). unat n)") (auto simp: unat_gt_0 unat_minus_one)

declare hier_skip.simps [simp del]

function hier_collect :: "extern \<Rightarrow> nat \<Rightarrow> usize \<Rightarrow> usize \<Rightarrow> hierarchy_item list \<Rightarrow> (hierarchy_item list \<times> bool) hier_op" where
  "hier_collect E fuel lim n collected_items =
     (if n = 0 then returnC (collected_items, False)
      else bindC (next_item E fuel) (\<lambda>item. case item of
        None \<Rightarrow> returnC (collected_items, False)
      | Some x \<Rightarrow>
          if length collected_items < unat lim then hier_collect E fuel lim (n - 1) (collected_items @ [x])
          else returnC (collected_items, True)))"
  by pat_completeness auto
termination
  by (relation "measure (\<lambda>(E, fuel, lim, n, collected). unat n)") (auto simp: unat_gt_0 unat_minus_one)

declare hier_collect.simps [simp del]

definition hierarchy_scan :: "extern \<Rightarrow> nat \<Rightarrow> tree \<Rightarrow> hierarchy_scan_args \<Rightarrow> hierarchy_page io" where
  "hierarchy_scan E fuel t args = bindC (new_for_hierarchy_scan t args) (\<lambda>cursor. run_cursor cursor (
     bindC (case hs_offset args of None \<Rightarrow> returnC True
            | Some offset_val \<Rightarrow> if 0 < offset_val then hier_skip E fuel offset_val else returnC True) (\<lambda>going.
     if \<not> going then returnC \<lparr>hs_items = [], hs_has_next_page = False, next_page_cursor_token = None\<rparr>
     else let lim = (case hs_limit args of None \<Rightarrow> - 1 | Some l \<Rightarrow> l)
       in if hs_limit args = Some 0
          then bindC (next_item E fuel) (\<lambda>item.
            returnC \<lparr>hs_items = [], hs_has_next_page = (item \<noteq> None), next_page_cursor_token = None\<rparr>)
          else bindC (hier_collect E fuel lim (if lim = - 1 then - 1 else lim + 1) []) (\<lambda>(collected_items, more).
            returnC \<lparr>hs_items = collected_items, hs_has_next_page = more, next_page_cursor_token = None\<rparr>))))"

end
