(* ===== verification/Js_Values.thy ===== *)
theory Js_Values
  imports File_IO Hierarchy Diff
begin

text \<open>
  JavaScript values as far as the bindings look at them (\<^verbatim>\<open>src/src/lib.rs\<close>, \<^verbatim>\<open>src/src/wasm_bridge.rs\<close> and
  the end of \<^verbatim>\<open>src/src/store/mem_store.rs\<close>): what arguments are accepted, and what results are turned
  into.
\<close>

section \<open>Values and errors\<close>

datatype js =
    JsUndefined | JsNull | JsBool bool | JsNumber nat | JsString string
  | JsUint8Array bytes | JsArray "js list" | JsMap "(js \<times> js) list" | JsObject "(string \<times> js) list"

text \<open>
  What a call of the bindings fails with: an error of the library, which is thrown as a string; a
  message of the bindings themselves; a trap of the WebAssembly module, which is a Rust panic.
\<close>

datatype js_error = Rejected prolly_error | JsMessage string | Trap | NoFuel

text \<open>\<^verbatim>\<open>prolly_error_to_jsvalue\<close>\<close>

fun prolly_error_to_js :: "failure \<Rightarrow> js_error" where
  "prolly_error_to_js (Err e) = Rejected e"
| "prolly_error_to_js Panic = Trap"
| "prolly_error_to_js OutOfFuel = NoFuel"

text \<open>A conversion to a double rounds a number of more than 53 bits, half to even.\<close>

fun bit_length :: "nat \<Rightarrow> nat" where
  "bit_length n = (if n = 0 then 0 else Suc (bit_length (n div 2)))"

declare bit_length.simps [simp del]

definition f64_of_nat :: "nat \<Rightarrow> nat" where
  "f64_of_nat n = (if n < 2 ^ 53 then n
     else let unit = 2 ^ (bit_length n - 53); q = n div unit; r = n mod unit
          in (if unit < 2 * r \<or> unit = 2 * r \<and> odd q then Suc q else q) * unit)"

section \<open>Arguments\<close>

text \<open>\<^verbatim>\<open>InMemoryStore::from_js_map\<close>: what iterating over the map yields, checked entry by entry.\<close>

fun js_iter :: "(js \<times> js) list \<Rightarrow> js list" where
  "js_iter kvs = map (\<lambda>(k, v). JsArray [k, v]) kvs"

fun collect_js_entries :: "js list \<Rightarrow> (hash \<times> bytes) list \<Rightarrow> js_error + (hash \<times> bytes) list" where
  "collect_js_entries [] inner_map = Inr inner_map"
| "collect_js_entries (JsArray pair # es) inner_map =
     (if length pair \<noteq> 2 then Inl (JsMessage ''Map entry array must have 2 elements (key, value)'')
      else case pair ! 0 of
        JsUint8Array h \<Rightarrow> (case pair ! 1 of
          JsUint8Array v \<Rightarrow> (if length h \<noteq> 32 then Inl (JsMessage ''Hash key must be 32 bytes long'')
            else collect_js_entries es (AList.update h v inner_map))
        | _ \<Rightarrow> Inl (JsMessage ''Map value is not a Uint8Array''))
      | _ \<Rightarrow> Inl (JsMessage ''Map key is not a Uint8Array''))"
| "collect_js_entries (_ # es) inner_map = Inl (JsMessage ''Map entry is not an array'')"

text \<open>The history of a store that was not written chunk by chunk is what is in it.\<close>

definition store_of_chunks :: "(hash \<times> bytes) list \<Rightarrow> store" where
  "store_of_chunks cs = \<lparr>chunks = cs, lock = Unlocked, history = set (map snd cs)\<rparr>"

definition from_js_map :: "(js \<times> js) list \<Rightarrow> js_error + store" where
  "from_js_map m = (case collect_js_entries (js_iter m) [] of
     Inl e \<Rightarrow> Inl e | Inr cs \<Rightarrow> Inr (store_of_chunks cs))"

text \<open>The batch of \<^verbatim>\<open>insertBatch\<close>: an array of pairs of byte arrays.\<close>

fun batch_pairs :: "nat \<Rightarrow> js list \<Rightarrow> (key \<times> val) list \<Rightarrow> js_error + (key \<times> val) list" where
  "batch_pairs i [] items_rust = Inr items_rust"
| "batch_pairs i (JsArray pair # xs) items_rust =
     (if length pair \<noteq> 2
      then Inl (JsMessage (''Item at index '' @ show_nat i @ '' in batch is not a [key, value] pair.''))
      else case (pair ! 0, pair ! 1) of
        (JsUint8Array k, JsUint8Array v) \<Rightarrow> batch_pairs (Suc i) xs (items_rust @ [(k, v)])
      | _ \<Rightarrow> Inl (JsMessage (''Item at index '' @ show_nat i @ '' in batch has non-Uint8Array key or value.'')))"
| "batch_pairs i (_ # xs) items_rust =
     Inl (JsMessage (''Item at index '' @ show_nat i @ '' in batch is not an array.''))"

fun parse_batch :: "js \<Rightarrow> js_error + (key \<times> val) list" where
  "parse_batch (JsArray xs) = batch_pairs 0 xs []"
| "parse_batch _ = Inl (JsMessage ''insertBatch expects an array.'')"

text \<open>The live roots of \<^verbatim>\<open>triggerGc\<close>.\<close>

fun live_hashes :: "nat \<Rightarrow> js list \<Rightarrow> hash list \<Rightarrow> js_error + hash list" where
  "live_hashes i [] acc = Inr acc"
| "live_hashes i (JsUint8Array h # xs) acc =
     (if length h = 32 then live_hashes (Suc i) xs (acc @ [h])
      else Inl (JsMessage (''Hash at index '' @ show_nat i @ '' invalid length: '' @ show_nat (length h) @ ''.'')))"
| "live_hashes i (_ # xs) acc = Inl (JsMessage (''Hash at index '' @ show_nat i @ '' not Uint8Array.''))"

fun parse_live_hashes :: "js \<Rightarrow> js_error + hash list" where
  "parse_live_hashes (JsArray xs) = live_hashes 0 xs []"
| "parse_live_hashes _ = Inl (JsMessage ''triggerGc expects an array.'')"

text \<open>A hash that is given has 32 bytes.\<close>

definition hash_width_ok :: "bytes option \<Rightarrow> bool" where
  "hash_width_ok h = (case h of None \<Rightarrow> True | Some b \<Rightarrow> length b = 32)"

text \<open>The roots of \<^verbatim>\<open>diffRoots\<close>.\<close>

fun parse_hash :: "bytes option \<Rightarrow> string \<Rightarrow> js_error + hash option" where
  "parse_hash None name = Inr None"
| "parse_hash (Some h) name = (if length h = 32 then Inr (Some h)
     else Inl (JsMessage (''Invalid '' @ name @ '' length: '' @ show_nat (length h) @ '', must be 32 bytes or null.'')))"

section \<open>Results\<close>

fun js_bytes :: "bytes option \<Rightarrow> js" where
  "js_bytes None = JsNull"
| "js_bytes (Some b) = JsUint8Array b"

text \<open>The items of a page of a scan, as the getter of the bridge builds them.\<close>

definition page_items_js :: "scan_page \<Rightarrow> js" where
  "page_items_js p = JsArray (map (\<lambda>(k, v). JsArray [JsUint8Array k, JsUint8Array v]) (items p))"

text \<open>The page of the bridge, as its getters show it.\<close>

definition page_js :: "scan_page \<Rightarrow> js \<times> bool \<times> bool \<times> js option \<times> js option" where
  "page_js p = (page_items_js p, has_next_page p, has_previous_page p,
     map_option JsUint8Array (next_page_cursor p), map_option JsUint8Array (previous_page_cursor p))"

fun hierarchy_item_to_js :: "hierarchy_item \<Rightarrow> js" where
  "hierarchy_item_to_js (NodeItem h l is_leaf num path_indices) = JsObject
     [(''type'', JsString ''Node''), (''hash'', JsUint8Array h), (''level'', JsNumber (f64_of_nat (unat l))),
      (''isLeaf'', JsBool is_leaf), (''numEntries'', JsNumber (f64_of_nat num)),
      (''pathIndices'', JsArray (map (JsNumber \<circ> f64_of_nat) path_indices))]"
| "hierarchy_item_to_js (InternalEntryItem parent_hash entry_index k ch num_items) = JsObject
     [(''type'', JsString ''InternalEntry''), (''parentHash'', JsUint8Array parent_hash),
      (''entryIndex'', JsNumber (f64_of_nat entry_index)), (''boundaryKey'', JsUint8Array k),
      (''childHash'', JsUint8Array ch), (''numItemsSubtree'', JsNumber (f64_of_nat (unat num_items)))]"
| "hierarchy_item_to_js (LeafEntryItem parent_hash entry_index k value_repr_type value_hash value_size) = JsObject
     ([(''type'', JsString ''LeafEntry''), (''parentHash'', JsUint8Array parent_hash),
       (''entryIndex'', JsNumber (f64_of_nat entry_index)), (''key'', JsUint8Array k),
       (''valueReprType'', JsString value_repr_type)]
      @ (case value_hash of None \<Rightarrow> [] | Some vh \<Rightarrow> [(''valueHash'', JsUint8Array vh)])
      @ [(''valueSize'', JsNumber (f64_of_nat (unat value_size)))])"

text \<open>The bridge's page of a hierarchy scan.\<close>

definition hierarchy_page_js :: "hierarchy_page \<Rightarrow> js \<times> bool \<times> string option" where
  "hierarchy_page_js p = (JsArray (map hierarchy_item_to_js (hs_items p)), hs_has_next_page p, next_page_cursor_token p)"

definition diff_entry_js :: "diff_entry \<Rightarrow> js" where
  "diff_entry_js d = JsObject ((''key'', JsUint8Array (de_key d))
     # (case left_value d of None \<Rightarrow> [] | Some v \<Rightarrow> [(''leftValue'', JsUint8Array v)])
     @ (case right_value d of None \<Rightarrow> [] | Some v \<Rightarrow> [(''rightValue'', JsUint8Array v)]))"

text \<open>The result of \<^verbatim>\<open>PTreeCursor::next\<close>, in the shape of an iterator result.\<close>

fun iterator_result :: "(key \<times> val) option \<Rightarrow> js" where
  "iterator_result (Some (k, v)) = JsObject
     [(''done'', JsBool False), (''value'', JsArray [JsUint8Array k, JsUint8Array v])]"
| "iterator_result None = JsObject [(''done'', JsBool True)]"

definition chunks_js :: "(hash \<times> bytes) list \<Rightarrow> (js \<times> js) list" where
  "chunks_js cs = map (\<lambda>(h, d). (JsUint8Array h, JsUint8Array d)) cs"

section \<open>What the bindings export they accept\<close>

lemma collect_js_chunks:
  "\<forall>c\<in>set cs. length (fst c) = 32 \<Longrightarrow>
   collect_js_entries (js_iter (chunks_js cs)) acc = Inr (fold (\<lambda>c. AList.update (fst c) (snd c)) cs acc)"
  by (induction cs arbitrary: acc) (auto simp: chunks_js_def)

lemma fold_update_map_of:
  "map_of (fold (\<lambda>c. AList.update (fst c) (snd c)) cs acc) = map_of acc ++ map_of (rev cs)"
  by (induction cs arbitrary: acc) (auto simp: update_conv' map_add_upd)

lemma fold_update_distinct:
  "distinct (map fst acc) \<Longrightarrow> distinct (map fst (fold (\<lambda>c. AList.update (fst c) (snd c)) cs acc))"
  by (induction cs arbitrary: acc) (simp_all add: distinct_update)

lemma map_of_rev_distinct: "distinct (map fst xs) \<Longrightarrow> map_of (rev xs) = map_of xs"
  by (simp add: map_of_inject_set rev_map [symmetric])

lemma from_js_map_chunks:
  assumes "\<forall>c\<in>set cs. length (fst c) = 32" "distinct (map fst cs)"
  shows "\<exists>s. from_js_map (chunks_js cs) = Inr s \<and> chunk_at s = map_of cs \<and> distinct (map fst (chunks s))
    \<and> lock s = Unlocked \<and> history s = set (map snd (chunks s))"
proof -
  let ?cs = "fold (\<lambda>c. AList.update (fst c) (snd c)) cs []"
  have "map_of ?cs = map_of cs" using map_of_rev_distinct [OF assms(2)] by (simp add: fold_update_map_of)
  moreover have "distinct (map fst ?cs)" by (rule fold_update_distinct) simp
  ultimately show ?thesis
    using collect_js_chunks [OF assms(1), of "[]"] by (simp add: from_js_map_def store_of_chunks_def del: js_iter.simps)
qed

lemma f64_exact: "n < 2 ^ 53 \<Longrightarrow> f64_of_nat n = n"
  by (simp add: f64_of_nat_def)

end
