(* ===== verification/Bindings.thy ===== *)
theory Bindings
  imports Js_Values Gc
begin

text \<open>
  The object the package exports (\<^verbatim>\<open>PTree\<close> in \<^verbatim>\<open>src/src/lib.rs\<close>): a tree behind a lock, its listeners, and
  the calls of JavaScript on it. An asynchronous method checks its arguments at once and runs the rest
  while it holds the lock of the tree; a synchronous one tries the lock and fails when it is taken.
\<close>

section \<open>State\<close>

record change =
  old_root :: "hash option"
  new_root :: "hash option"
  op_type :: string

text \<open>
  Listeners are JavaScript functions, named by numbers; \<open>listeners_borrowed\<close> is the borrow of the
  \<^verbatim>\<open>RefCell\<close> around them while they are notified. \<open>calls\<close> records the calls made to listeners; the
  program does not read it.
\<close>

type_synonym listener = nat

record ptree =
  inner_tree :: tree
  inner_store :: store
  tree_locked :: bool
  listeners :: "listener list"
  listeners_borrowed :: bool
  calls :: "(listener \<times> change) list"

type_synonym 'a js_op = "(ptree, js_error, 'a) comp"

text \<open>What a listener does when it is called: the code of the application.\<close>

type_synonym handler = "listener \<Rightarrow> change \<Rightarrow> unit js_op"

definition wrap_tree :: "tree \<Rightarrow> store \<Rightarrow> ptree" where
  "wrap_tree t s = \<lparr>inner_tree = t, inner_store = s, tree_locked = False, listeners = [],
     listeners_borrowed = False, calls = []\<rparr>"

definition lift_failure :: "failure + 'a \<Rightarrow> js_error + 'a" where
  "lift_failure r = (case r of Inl e \<Rightarrow> Inl (prolly_error_to_js e) | Inr x \<Rightarrow> Inr x)"

text \<open>An operation of the tree, and one that only reads it.\<close>

definition on_tree :: "'a tree_op \<Rightarrow> 'a js_op" where
  "on_tree m = (\<lambda>p. case m (inner_tree p, inner_store p) of
     (r, (t, s)) \<Rightarrow> (lift_failure r, p\<lparr>inner_tree := t, inner_store := s\<rparr>))"

definition with_tree :: "(tree \<Rightarrow> 'a io) \<Rightarrow> 'a js_op" where
  "with_tree m = (\<lambda>p. case m (inner_tree p) (inner_store p) of
     (r, s) \<Rightarrow> (lift_failure r, p\<lparr>inner_store := s\<rparr>))"

definition root_of :: "hash option js_op" where
  "root_of = (\<lambda>p. (Inr (Prolly_Tree.get_root_hash (inner_tree p)), p))"

definition lift_parse :: "js_error + 'a \<Rightarrow> 'a js_op" where
  "lift_parse x = (\<lambda>p. (x, p))"

text \<open>
  A synchronous method holds the lock while it runs; the error is what it fails with when the lock is
  taken. A trap drops no guard, so the lock stays taken after one.
\<close>

definition unlock :: "js_error + 'a \<Rightarrow> ptree \<Rightarrow> ptree" where
  "unlock r p = (if r = Inl Trap then p else p\<lparr>tree_locked := False\<rparr>)"

definition try_lock :: "js_error \<Rightarrow> 'a js_op \<Rightarrow> 'a js_op" where
  "try_lock e m = (\<lambda>p. if tree_locked p then (Inl e, p)
     else case m (p\<lparr>tree_locked := True\<rparr>) of (r, p') \<Rightarrow> (r, unlock r p'))"

text \<open>The message of \<^verbatim>\<open>tokio\<close> for a lock that is taken.\<close>

definition would_block :: js_error where
  "would_block = JsMessage ''operation would block''"

definition lock_busy :: js_error where
  "lock_busy = Rejected (InvalidOperation ''Cannot acquire synchronous lock on tree. An async operation is likely in progress.'')"

section \<open>Listeners\<close>

text \<open>A second borrow of the listeners, to change them, traps while they are notified.\<close>

definition on_change :: "listener \<Rightarrow> unit js_op" where
  "on_change l = (\<lambda>p. if listeners_borrowed p then (Inl Trap, p) else (Inr (), p\<lparr>listeners := listeners p @ [l]\<rparr>))"

definition off_change :: "listener \<Rightarrow> unit js_op" where
  "off_change l = (\<lambda>p. if listeners_borrowed p then (Inl Trap, p)
     else (Inr (), p\<lparr>listeners := filter (\<lambda>l'. l' \<noteq> l) (listeners p)\<rparr>))"

text \<open>One call; an exception of the listener is logged to the console and otherwise ignored.\<close>

definition notify :: "handler \<Rightarrow> change \<Rightarrow> listener \<Rightarrow> ptree \<Rightarrow> ptree" where
  "notify H details l p = snd (H l details (p\<lparr>calls := calls p @ [(l, details)]\<rparr>))"

definition emit_change :: "handler \<Rightarrow> hash option \<Rightarrow> hash option \<Rightarrow> string \<Rightarrow> unit js_op" where
  "emit_change H old new ty = (\<lambda>p.
     if listeners p = [] then (Inr (), p)
     else let details = \<lparr>old_root = old, new_root = new, op_type = ty\<rparr>
          in (Inr (), (fold (notify H details) (listeners p) (p\<lparr>listeners_borrowed := True\<rparr>))
               \<lparr>listeners_borrowed := listeners_borrowed p\<rparr>))"

text \<open>The common shape of the changing methods: the event is sent when the operation says so.\<close>

definition changing :: "handler \<Rightarrow> string \<Rightarrow> bool js_op \<Rightarrow> bool js_op" where
  "changing H ty m =
     bindC root_of (\<lambda>old_hash.
     bindC m (\<lambda>changed.
     if changed
     then bindC root_of (\<lambda>new_hash. bindC (emit_change H old_hash new_hash ty) (\<lambda>_. returnC changed))
     else returnC changed))"

section \<open>Constructors\<close>

text \<open>
  The parsed options, or \<^term>\<open>None\<close> when they are missing, undefined or null. Parsing them is
  \<^verbatim>\<open>serde_wasm_bindgen\<close>'s, so its result is an argument.
\<close>

definition ptree_new :: "(string + tree_config) option \<Rightarrow> js_error + ptree" where
  "ptree_new options = (case options of
     Some (Inl e) \<Rightarrow> Inl (JsMessage (''Failed to parse TreeConfigOptions: '' @ e))
   | parsed \<Rightarrow>
      (let cfg = (case parsed of Some (Inr c) \<Rightarrow> c | _ \<Rightarrow> default_config)
       in if min_fanout cfg = 0 \<or> target_fanout cfg < min_fanout cfg * 2
          then Inl (JsMessage ''Invalid fanout configuration. Ensure `minFanout` > 0 and `targetFanout` >= 2 * `minFanout`.'')
          else case lift_failure (new_tree cfg) of Inl e \<Rightarrow> Inl e | Inr t \<Rightarrow> Inr (wrap_tree t new_store)))"

text \<open>The end of both loading methods: the tree of a root in a store, or an empty one.\<close>

definition open_tree :: "extern \<Rightarrow> hash option \<Rightarrow> tree_config \<Rightarrow> store \<Rightarrow> js_error + ptree" where
  "open_tree E root cfg s = (case root of
     Some h \<Rightarrow> (case from_root_hash E h cfg s of (r, s') \<Rightarrow>
       (case lift_failure r of Inl e \<Rightarrow> Inl e | Inr t \<Rightarrow> Inr (wrap_tree t s')))
   | None \<Rightarrow> (case lift_failure (new_tree cfg) of Inl e \<Rightarrow> Inl e | Inr t \<Rightarrow> Inr (wrap_tree t s)))"

text \<open>Options that cannot be parsed are replaced by the defaults here.\<close>

definition ptree_load :: "extern \<Rightarrow> bytes option \<Rightarrow> (js \<times> js) list \<Rightarrow> (string + tree_config) option \<Rightarrow> js_error + ptree" where
  "ptree_load E root chunk_map options =
     (if \<not> hash_width_ok root then Inl (JsMessage ''Root hash must be 32 bytes if provided'')
      else case from_js_map chunk_map of
        Inl e \<Rightarrow> Inl e
      | Inr s \<Rightarrow>
         (let cfg = (case options of Some (Inr c) \<Rightarrow> c | _ \<Rightarrow> default_config)
          in if config_rejected cfg then Inl (JsMessage ''Invalid TreeConfig values (fanout).'')
             else open_tree E root cfg s))"

fun put_chunks :: "extern \<Rightarrow> (hash \<times> bytes) list \<Rightarrow> unit io" where
  "put_chunks E [] = returnC ()"
| "put_chunks E (c # cs) = bindC (put E (snd c)) (\<lambda>_. put_chunks E cs)"

definition load_tree_from_file_bytes :: "extern \<Rightarrow> file_extern \<Rightarrow> bytes \<Rightarrow> js_error + ptree" where
  "load_tree_from_file_bytes E F file_bytes = (case lift_failure (read_prly_tree_v2 E F file_bytes) of
     Inl e \<Rightarrow> Inl e
   | Inr (root, cfg, cs, _) \<Rightarrow> (case put_chunks E cs new_store of
       (Inl e, _) \<Rightarrow> Inl (prolly_error_to_js e)
     | (Inr _, s) \<Rightarrow> open_tree E root cfg s))"

section \<open>Methods that change the tree\<close>

definition ptree_insert :: "extern \<Rightarrow> nat \<Rightarrow> handler \<Rightarrow> key \<Rightarrow> val \<Rightarrow> js js_op" where
  "ptree_insert E fuel H k v =
     bindC (changing H ''insert'' (on_tree (tree_insert E Async fuel k v))) (\<lambda>_. returnC JsUndefined)"

definition ptree_insert_sync :: "extern \<Rightarrow> nat \<Rightarrow> handler \<Rightarrow> key \<Rightarrow> val \<Rightarrow> unit js_op" where
  "ptree_insert_sync E fuel H k v = try_lock would_block
     (bindC (changing H ''insert'' (on_tree (tree_insert_sync E fuel k v))) (\<lambda>_. returnC ()))"

text \<open>The items are checked before the lock is asked for.\<close>

definition ptree_insert_batch :: "extern \<Rightarrow> nat \<Rightarrow> handler \<Rightarrow> js \<Rightarrow> js js_op" where
  "ptree_insert_batch E fuel H batch = bindC (lift_parse (parse_batch batch)) (\<lambda>items_rust.
     bindC (changing H ''insertBatch'' (on_tree (insert_batch E fuel items_rust))) (\<lambda>_. returnC JsUndefined))"

definition ptree_delete :: "extern \<Rightarrow> nat \<Rightarrow> handler \<Rightarrow> key \<Rightarrow> js js_op" where
  "ptree_delete E fuel H k =
     bindC (changing H ''delete'' (on_tree (tree_delete E Async fuel k))) (\<lambda>deleted. returnC (JsBool deleted))"

definition ptree_delete_sync :: "extern \<Rightarrow> nat \<Rightarrow> handler \<Rightarrow> key \<Rightarrow> bool js_op" where
  "ptree_delete_sync E fuel H k = try_lock would_block
     (changing H ''delete'' (on_tree (tree_delete_sync E fuel k)))"

text \<open>A hash of another length than 32 traps: the conversion to an array is unwrapped.\<close>

definition ptree_checkout :: "extern \<Rightarrow> handler \<Rightarrow> bytes option \<Rightarrow> js js_op" where
  "ptree_checkout E H h =
     (if \<not> hash_width_ok h then throwC Trap
      else bindC (changing H ''checkout'' (on_tree (checkout E h))) (\<lambda>_. returnC JsUndefined))"

definition trigger_gc :: "extern \<Rightarrow> js \<Rightarrow> js js_op" where
  "trigger_gc E live = bindC (lift_parse (parse_live_hashes live)) (\<lambda>hs.
     bindC (with_tree (\<lambda>t. tree_gc E t hs)) (\<lambda>n. returnC (JsNumber (f64_of_nat n))))"

section \<open>Methods that read the tree\<close>

definition ptree_get :: "extern \<Rightarrow> nat \<Rightarrow> key \<Rightarrow> js js_op" where
  "ptree_get E fuel k = bindC (with_tree (\<lambda>t. tree_get E Async fuel t k)) (\<lambda>v. returnC (js_bytes v))"

definition ptree_get_sync :: "extern \<Rightarrow> nat \<Rightarrow> key \<Rightarrow> js js_op" where
  "ptree_get_sync E fuel k = try_lock lock_busy
     (bindC (with_tree (\<lambda>t. tree_get_sync E fuel t k)) (\<lambda>v. returnC (js_bytes v)))"

definition ptree_get_root_hash :: "js js_op" where
  "ptree_get_root_hash = bindC root_of (\<lambda>h. returnC (js_bytes h))"

definition ptree_get_root_hash_sync :: "js js_op" where
  "ptree_get_root_hash_sync = try_lock lock_busy (bindC root_of (\<lambda>h. returnC (js_bytes h)))"

definition get_all_chunks :: "(hash \<times> bytes) list io" where
  "get_all_chunks = (\<lambda>s. (Inr (chunks s), s))"

definition export_chunks :: "(js \<times> js) list js_op" where
  "export_chunks = bindC (with_tree (\<lambda>_. get_all_chunks)) (\<lambda>cs. returnC (chunks_js cs))"

definition ptree_cursor_start :: "extern \<Rightarrow> nat \<Rightarrow> cursor js_op" where
  "ptree_cursor_start E fuel = with_tree (cursor_start E fuel)"

definition ptree_seek :: "extern \<Rightarrow> nat \<Rightarrow> key \<Rightarrow> cursor js_op" where
  "ptree_seek E fuel k = with_tree (\<lambda>t. seek E fuel t k)"

text \<open>\<^verbatim>\<open>PTreeCursor::next\<close> reads its cursor as a scan with the default arguments.\<close>

definition ptree_cursor_next :: "extern \<Rightarrow> nat \<Rightarrow> (cursor \<times> store, failure, js) comp" where
  "ptree_cursor_next E fuel = bindC (next_in_scan E Async fuel default_scan_args) (\<lambda>r. returnC (iterator_result r))"

definition diff_roots :: "extern \<Rightarrow> nat \<Rightarrow> bytes option \<Rightarrow> bytes option \<Rightarrow> js js_op" where
  "diff_roots E fuel l r =
     bindC (lift_parse (parse_hash l ''root_hash_left'')) (\<lambda>h_left.
     bindC (lift_parse (parse_hash r ''root_hash_right'')) (\<lambda>h_right.
     bindC (with_tree (\<lambda>_. diff_trees E fuel h_left h_right)) (\<lambda>ds. returnC (JsArray (map diff_entry_js ds)))))"

text \<open>The configuration; its form in JavaScript is \<^verbatim>\<open>serde_wasm_bindgen\<close>'s.\<close>

definition ptree_get_tree_config :: "tree_config js_op" where
  "ptree_get_tree_config = with_tree (\<lambda>t. returnC (config t))"

text \<open>As for the configuration, the parsed options are an argument.\<close>

definition scan_items :: "extern \<Rightarrow> nat \<Rightarrow> (string + scan_args) option \<Rightarrow> scan_page js_op" where
  "scan_items E fuel options = (case options of
     Some (Inl e) \<Rightarrow> throwC (JsMessage (''ScanOptions parse error: '' @ e))
   | parsed \<Rightarrow> with_tree (\<lambda>t. tree_scan E fuel t (case parsed of Some (Inr a) \<Rightarrow> a | _ \<Rightarrow> default_scan_args)))"

definition scan_items_sync :: "extern \<Rightarrow> nat \<Rightarrow> (string + scan_args) option \<Rightarrow> scan_page js_op" where
  "scan_items_sync E fuel options = try_lock
     (Rejected (InvalidOperation ''Cannot acquire synchronous lock on tree for scan. An async operation is likely in progress.''))
     (case options of
        Some (Inl e) \<Rightarrow> throwC (Rejected (JsBindingError e))
      | parsed \<Rightarrow> with_tree (\<lambda>t. tree_scan_sync E fuel t (case parsed of Some (Inr a) \<Rightarrow> a | _ \<Rightarrow> default_scan_args)))"

definition ptree_count_all_items :: "extern \<Rightarrow> js js_op" where
  "ptree_count_all_items E = bindC (with_tree (count_all_items E)) (\<lambda>n. returnC (JsNumber (f64_of_nat (unat n))))"

definition default_hierarchy_args :: hierarchy_scan_args where
  "default_hierarchy_args = \<lparr>start_key = None, max_depth = None, hs_limit = None, hs_offset = None\<rparr>"

definition ptree_hierarchy_scan :: "extern \<Rightarrow> nat \<Rightarrow> (string + hierarchy_scan_args) option \<Rightarrow> (js \<times> bool \<times> string option) js_op" where
  "ptree_hierarchy_scan E fuel options = (case options of
     Some (Inl e) \<Rightarrow> throwC (JsMessage (''HierarchyScanOptions parse error: '' @ e))
   | parsed \<Rightarrow> bindC (with_tree (\<lambda>t. hierarchy_scan E fuel t
         (case parsed of Some (Inr a) \<Rightarrow> a | _ \<Rightarrow> default_hierarchy_args))) (\<lambda>p. returnC (hierarchy_page_js p)))"

definition save_tree_to_file_bytes :: "extern \<Rightarrow> file_extern \<Rightarrow> string \<Rightarrow> string option \<Rightarrow> bytes js_op" where
  "save_tree_to_file_bytes E F now descr =
     bindC root_of (\<lambda>root.
     bindC (with_tree (\<lambda>t. returnC (config t))) (\<lambda>cfg.
     bindC (with_tree (\<lambda>_. get_all_chunks)) (\<lambda>cs.
     lift_parse (case write_prly_tree_v2 E F now root cfg cs descr of
         Inl e \<Rightarrow> Inl (Rejected e) | Inr b \<Rightarrow> Inr b))))"

end
