(* ===== verification/Session.thy ===== *)
theory Session
  imports Bindings
begin

text \<open>
  Sessions with a \<^verbatim>\<open>PTree\<close>: synchronous calls at any time, also between the moment an asynchronous call
  gets the lock of the tree and the moment it is done; what listeners hear, and what they can do.
\<close>

section \<open>Calls\<close>

datatype sync_call =
    GetSync key | RootHashSync | ScanSync "(string + scan_args) option"
  | InsertSync key val | DeleteSync key | OnChange listener | OffChange listener

datatype async_call =
    Get key | Scan "(string + scan_args) option" | Insert key val | InsertBatch js | Delete key
  | Checkout "bytes option" | TriggerGc js | RootHash | ExportChunks | CountAllItems
  | HierarchyScan "(string + hierarchy_scan_args) option" | CursorStart | Seek key

definition void :: "'a js_op \<Rightarrow> unit js_op" where
  "void m = bindC m (\<lambda>_. returnC ())"

fun run_sync :: "extern \<Rightarrow> nat \<Rightarrow> handler \<Rightarrow> sync_call \<Rightarrow> unit js_op" where
  "run_sync E fuel H (GetSync k) = void (ptree_get_sync E fuel k)"
| "run_sync E fuel H RootHashSync = void ptree_get_root_hash_sync"
| "run_sync E fuel H (ScanSync options) = void (scan_items_sync E fuel options)"
| "run_sync E fuel H (InsertSync k v) = ptree_insert_sync E fuel H k v"
| "run_sync E fuel H (DeleteSync k) = void (ptree_delete_sync E fuel H k)"
| "run_sync E fuel H (OnChange l) = on_change l"
| "run_sync E fuel H (OffChange l) = off_change l"

fun run_async :: "extern \<Rightarrow> nat \<Rightarrow> handler \<Rightarrow> async_call \<Rightarrow> unit js_op" where
  "run_async E fuel H (Get k) = void (ptree_get E fuel k)"
| "run_async E fuel H (Scan options) = void (scan_items E fuel options)"
| "run_async E fuel H (Insert k v) = void (ptree_insert E fuel H k v)"
| "run_async E fuel H (InsertBatch batch) = void (ptree_insert_batch E fuel H batch)"
| "run_async E fuel H (Delete k) = void (ptree_delete E fuel H k)"
| "run_async E fuel H (Checkout h) = void (ptree_checkout E H h)"
| "run_async E fuel H (TriggerGc live) = void (trigger_gc E live)"
| "run_async E fuel H RootHash = void ptree_get_root_hash"
| "run_async E fuel H ExportChunks = void export_chunks"
| "run_async E fuel H CountAllItems = void (ptree_count_all_items E)"
| "run_async E fuel H (HierarchyScan options) = void (ptree_hierarchy_scan E fuel options)"
| "run_async E fuel H CursorStart = void (ptree_cursor_start E fuel)"
| "run_async E fuel H (Seek k) = void (ptree_seek E fuel k)"

text \<open>
  A call whose arguments are refused fails, or traps, before it asks for the lock; only the others get
  that far.
\<close>

definition parsed_or_missing :: "(string + 'a) option \<Rightarrow> bool" where
  "parsed_or_missing options = (case options of Some (Inl _) \<Rightarrow> False | _ \<Rightarrow> True)"

fun accepted :: "async_call \<Rightarrow> bool" where
  "accepted (Scan options) = parsed_or_missing options"
| "accepted (HierarchyScan options) = parsed_or_missing options"
| "accepted (InsertBatch batch) = (case parse_batch batch of Inl _ \<Rightarrow> False | Inr _ \<Rightarrow> True)"
| "accepted (Checkout h) = hash_width_ok h"
| "accepted (TriggerGc live) = (case parse_live_hashes live of Inl _ \<Rightarrow> False | Inr _ \<Rightarrow> True)"
| "accepted _ = True"

section \<open>What listeners can do\<close>

text \<open>A listener whose code is a list of synchronous calls; an exception ends it.\<close>

fun run_script :: "extern \<Rightarrow> nat \<Rightarrow> handler \<Rightarrow> sync_call list \<Rightarrow> unit js_op" where
  "run_script E fuel H [] = returnC ()"
| "run_script E fuel H (c # cs) = bindC (run_sync E fuel H c) (\<lambda>_. run_script E fuel H cs)"

text \<open>Being notified, a listener leaves the state as it is.\<close>

definition quiet :: "handler \<Rightarrow> bool" where
  "quiet H \<longleftrightarrow> (\<forall>l d p. tree_locked p \<and> listeners_borrowed p \<longrightarrow> snd (H l d p) = p)"

lemma try_lock_busy: "tree_locked p \<Longrightarrow> try_lock e m p = (Inl e, p)"
  by (simp add: try_lock_def)

lemma void_apply: "void m p = (case m p of (Inl e, p') \<Rightarrow> (Inl e, p') | (Inr _, p') \<Rightarrow> (Inr (), p'))"
  by (simp add: void_def comp_simps split: prod.splits sum.splits)

lemma run_sync_busy:
  assumes "tree_locked p" "listeners_borrowed p"
  shows "\<exists>e. run_sync E fuel H c p = (Inl e, p)"
  using assms
  by (cases c) (simp_all add: void_apply ptree_get_sync_def ptree_get_root_hash_sync_def scan_items_sync_def
      ptree_insert_sync_def ptree_delete_sync_def try_lock_busy on_change_def off_change_def)

lemma run_script_busy:
  assumes "tree_locked p" "listeners_borrowed p"
  shows "snd (run_script E fuel H cs p) = p"
proof (cases cs)
  case (Cons c cs')
  with run_sync_busy [OF assms, of E fuel H c] show ?thesis by (auto simp: comp_simps)
qed (simp add: comp_simps)

lemma quiet_script: "quiet (\<lambda>l d. run_script E fuel H (script l d))"
  by (simp add: quiet_def run_script_busy)

section \<open>What a call does to the state\<close>

lemma fold_notify:
  "quiet H \<Longrightarrow> tree_locked p \<Longrightarrow> listeners_borrowed p \<Longrightarrow>
   fold (notify H d) ls p = p\<lparr>calls := calls p @ map (\<lambda>l. (l, d)) ls\<rparr>"
proof (induction ls arbitrary: p)
  case (Cons l ls)
  have "notify H d l p = p\<lparr>calls := calls p @ [(l, d)]\<rparr>"
    using Cons.prems by (simp add: notify_def quiet_def)
  with Cons.IH [of "p\<lparr>calls := calls p @ [(l, d)]\<rparr>"] Cons.prems show ?case by simp
qed simp

lemma emit_change_at:
  assumes "quiet H" "tree_locked p"
  shows "emit_change H old new ty p = (Inr (), p\<lparr>calls := calls p
    @ map (\<lambda>l. (l, \<lparr>old_root = old, new_root = new, op_type = ty\<rparr>)) (listeners p)\<rparr>)"
  using fold_notify [OF assms(1), of "p\<lparr>listeners_borrowed := True\<rparr>"] assms(2)
  by (simp add: emit_change_def Let_def)

lemma changing_at:
  assumes "quiet H" "tree_locked p" "m (inner_tree p, inner_store p) = (r, (t, s))"
  shows "changing H ty (on_tree m) p = (lift_failure r, p\<lparr>inner_tree := t, inner_store := s,
    calls := calls p @ (if r = Inr True
      then map (\<lambda>l. (l, \<lparr>old_root = root_hash (inner_tree p), new_root = root_hash t, op_type = ty\<rparr>)) (listeners p)
      else [])\<rparr>)"
proof -
  have on: "on_tree m p = (lift_failure r, p\<lparr>inner_tree := t, inner_store := s\<rparr>)"
    using assms(3) by (simp add: on_tree_def)
  show ?thesis
  proof (cases r)
    case (Inl e)
    then show ?thesis by (simp add: changing_def comp_simps root_of_def on lift_failure_def)
  next
    case (Inr b)
    with emit_change_at [OF assms(1), of "p\<lparr>inner_tree := t, inner_store := s\<rparr>"] assms(2) show ?thesis
      by (cases b) (simp_all add: changing_def comp_simps root_of_def on lift_failure_def get_root_hash_def)
  qed
qed

text \<open>What a call that holds the lock changes: the tree, its store, and what listeners heard.\<close>

inductive effect :: "ptree \<Rightarrow> ptree \<Rightarrow> bool" for p :: ptree where
  silent: "inner_tree p' = t \<Longrightarrow> root_hash t = root_hash (inner_tree p) \<Longrightarrow>
    p' = p\<lparr>inner_tree := t, inner_store := s\<rparr> \<Longrightarrow> effect p p'"
| told: "p' = p\<lparr>inner_tree := t, inner_store := s,
      calls := calls p @ map (\<lambda>l. (l, \<lparr>old_root = root_hash (inner_tree p), new_root = root_hash t, op_type = ty\<rparr>))
        (listeners p)\<rparr> \<Longrightarrow> effect p p'"

lemma effect_refl: "effect p p"
  by (rule silent [where t = "inner_tree p" and s = "inner_store p"]) simp_all

text \<open>The operations that report whether they changed the root report it truly.\<close>

definition truthful :: "bool tree_op \<Rightarrow> bool" where
  "truthful m \<longleftrightarrow> (\<forall>t s t' s'. m (t, s) = (Inr False, (t', s')) \<longrightarrow> root_hash t' = root_hash t)"

lemma changing_effect:
  assumes "quiet H" "tree_locked p" "truthful m" "changing H ty (on_tree m) p = (r, p')"
    and "(\<exists>x. r = Inr x) \<or> root_hash (inner_tree p') = root_hash (inner_tree p)"
  shows "effect p p'"
proof -
  obtain r0 t s where m: "m (inner_tree p, inner_store p) = (r0, (t, s))" by (metis surj_pair)
  note at = changing_at [where m = m, OF assms(1,2) m, of ty, unfolded assms(4)]
  show ?thesis
  proof (cases "r0 = Inr True")
    case True
    with at show ?thesis by (intro told [where t = t and s = s and ty = ty]) simp
  next
    case False
    with at have p': "p' = p\<lparr>inner_tree := t, inner_store := s\<rparr>" "r = lift_failure r0" by simp_all
    have "root_hash t = root_hash (inner_tree p)"
    proof (cases r0)
      case (Inl e)
      with assms(5) p' show ?thesis by (simp add: lift_failure_def)
    next
      case (Inr b)
      with False m assms(3) show ?thesis unfolding truthful_def by (cases b) auto
    qed
    with p' show ?thesis by (intro silent [where t = t and s = s]) simp_all
  qed
qed

lemma with_tree_effect: "with_tree m p = (r, p') \<Longrightarrow> effect p p'"
  by (rule silent [where t = "inner_tree p" and s = "inner_store p'"]) (auto simp: with_tree_def split: prod.splits)

lemma truthful_insert: "truthful (tree_insert E md fuel k v)"
  by (auto simp: truthful_def tree_insert_def comp_simps read_tree_def set_root_def
      split: option.splits prod.splits sum.splits)

lemma truthful_batch: "truthful (insert_batch E fuel kvs)"
  by (auto simp: truthful_def insert_batch_def comp_simps read_tree_def split: prod.splits sum.splits)

lemma truthful_checkout: "truthful (checkout E h)"
  by (auto simp: truthful_def checkout_def comp_simps read_tree_def split: prod.splits sum.splits)

lemma delete_flag:
  "delete_recursive E md cfg fuel h k lvl False s = (Inr (r, False), s') \<Longrightarrow> \<exists>a b. r = NotFound a b"
proof (induction fuel arbitrary: h lvl s r s')
  case 0
  then show ?case by (simp add: comp_simps)
next
  case (Suc fuel)
  from Suc.prems show ?case
    by (auto simp: comp_simps Let_def delete_internal_def dest!: Suc.IH
        split: prod.splits sum.splits node.splits if_splits search_result.splits delete_result.splits)
qed

lemma truthful_delete: "truthful (tree_delete E md fuel k)"
  unfolding truthful_def
proof (intro allI impI)
  fix t s t' s'
  assume "tree_delete E md fuel k (t, s) = (Inr False, (t', s'))"
  then show "root_hash t' = root_hash t"
    by (auto simp: tree_delete_def comp_simps read_tree_def on_store_def set_root_def collapse_root_def
        dest!: delete_flag split: option.splits prod.splits sum.splits delete_result.splits node.splits if_splits)
qed

section \<open>Calls in terms of their effect\<close>

lemma bind_pure:
  assumes "bindC m (\<lambda>x. returnC (f x)) p = (r, p')"
  obtains r0 where "m p = (r0, p')" "(\<exists>x. r = Inr x) \<longleftrightarrow> (\<exists>x. r0 = Inr x)"
  using assms by (cases rule: bindC_cases) (auto simp: comp_simps)

text \<open>A call that fails leaves the root alone; C21 shows the one way in which an insertion may not.\<close>

definition orderly :: "js_error + 'a \<Rightarrow> ptree \<Rightarrow> ptree \<Rightarrow> bool" where
  "orderly r p p' \<longleftrightarrow> (\<exists>x. r = Inr x) \<or> root_hash (inner_tree p') = root_hash (inner_tree p)"

lemma changing_pure_effect:
  assumes "quiet H" "tree_locked p" "truthful m" "bindC (changing H ty (on_tree m)) (\<lambda>x. returnC (f x)) p = (r, p')"
    and "orderly r p p'"
  shows "effect p p'"
proof -
  obtain r0 where "changing H ty (on_tree m) p = (r0, p')" "(\<exists>x. r = Inr x) \<longleftrightarrow> (\<exists>x. r0 = Inr x)"
    by (rule bind_pure [OF assms(4)])
  with changing_effect [OF assms(1-3)] assms(5) show ?thesis unfolding orderly_def by blast
qed

lemma with_tree_pure_effect: "bindC (with_tree m) (\<lambda>x. returnC (f x)) p = (r, p') \<Longrightarrow> effect p p'"
  by (erule bind_pure) (rule with_tree_effect)

text \<open>A call seen through \<open>void\<close>, as the sessions see it.\<close>

lemma void_orderly:
  assumes "void m p = (r, p')" "orderly r p p'"
  obtains r0 where "m p = (r0, p')" "orderly r0 p p'"
  using assms by (auto simp: void_def orderly_def elim: bind_pure)

lemma void_changing_effect:
  assumes "quiet H" "tree_locked p" "truthful m"
    and "void (bindC (changing H ty (on_tree m)) (\<lambda>x. returnC (f x))) p = (r, p')" "orderly r p p'"
  shows "effect p p'"
  by (rule void_orderly [OF assms(4,5)]) (rule changing_pure_effect [OF assms(1-3)])

lemma void_reading_effect:
  "void (with_tree m) p = (r, p') \<Longrightarrow> effect p p'"
  "void (bindC (with_tree m) (\<lambda>x. returnC (f x))) p = (r, p') \<Longrightarrow> effect p p'"
  unfolding void_def by (erule bind_pure, erule with_tree_effect) (erule bind_pure, erule with_tree_pure_effect)

lemma void_throw_effect: "void (throwC e) p = (r, p') \<Longrightarrow> effect p p'"
  unfolding void_def bindC_throwC by (auto simp: throwC_def effect_refl)

text \<open>Arguments that are refused, and options that cannot be parsed, end a call before it does anything.\<close>

lemma void_parsed_effect:
  assumes "void (bindC (lift_parse x) f) p = (r, p')" "orderly r p p'"
    and "\<And>y. x = Inr y \<Longrightarrow> void (f y) p = (r, p') \<Longrightarrow> effect p p'"
  shows "effect p p'"
proof (cases x)
  case (Inl e)
  then have "lift_parse x = throwC e" by (simp add: lift_parse_def throwC_def fun_eq_iff)
  with assms(1) show ?thesis by (auto intro: void_throw_effect)
next
  case (Inr y)
  then have "lift_parse x = returnC y" by (simp add: lift_parse_def returnC_def fun_eq_iff)
  with assms(1,3) Inr show ?thesis by simp
qed

lemma scan_effect: "void (scan_items E fuel options) p = (r, p') \<Longrightarrow> effect p p'"
  by (auto simp: scan_items_def intro: void_reading_effect void_throw_effect split: option.splits sum.splits)

lemma hierarchy_scan_effect: "void (ptree_hierarchy_scan E fuel options) p = (r, p') \<Longrightarrow> effect p p'"
  by (auto simp: ptree_hierarchy_scan_def intro: void_reading_effect void_throw_effect split: option.splits sum.splits)

lemma batch_effect:
  assumes "quiet H" "tree_locked p" "void (ptree_insert_batch E fuel H batch) p = (r, p')" "orderly r p p'"
  shows "effect p p'"
  using assms(3) unfolding ptree_insert_batch_def
  by (rule void_parsed_effect [OF _ assms(4)]) (rule void_changing_effect [OF assms(1,2) truthful_batch _ assms(4)])

lemma gc_effect:
  assumes "void (trigger_gc E live) p = (r, p')" "orderly r p p'"
  shows "effect p p'"
  using assms(1) unfolding trigger_gc_def
  by (rule void_parsed_effect [OF _ assms(2)]) (rule void_reading_effect(2))

lemma checkout_effect:
  assumes "quiet H" "tree_locked p" "void (ptree_checkout E H h) p = (r, p')" "orderly r p p'"
  shows "effect p p'"
proof (cases "hash_width_ok h")
  case True
  with assms(3) show ?thesis
    by (auto simp: ptree_checkout_def intro: void_changing_effect [OF assms(1,2) truthful_checkout _ assms(4)])
next
  case False
  with assms(3) show ?thesis by (auto simp: ptree_checkout_def intro: void_throw_effect)
qed

lemmas reading_defs = ptree_get_def export_chunks_def ptree_count_all_items_def ptree_cursor_start_def ptree_seek_def

lemma run_async_effect:
  assumes "quiet H" "tree_locked p" "run_async E fuel H c p = (r, p')" "orderly r p p'"
  shows "effect p p'"
proof (cases c)
  case (Insert k v)
  with assms(3) void_changing_effect [OF assms(1,2) truthful_insert _ assms(4)] show ?thesis
    by (auto simp: ptree_insert_def)
next
  case (Delete k)
  with assms(3) void_changing_effect [OF assms(1,2) truthful_delete _ assms(4)] show ?thesis
    by (auto simp: ptree_delete_def)
next
  case RootHash
  with assms(3) show ?thesis
    by (auto simp: void_def ptree_get_root_hash_def root_of_def comp_simps effect_refl)
qed (use assms in \<open>auto simp: reading_defs intro: void_reading_effect scan_effect hierarchy_scan_effect
    batch_effect gc_effect checkout_effect\<close>)

lemma try_lock_effect:
  assumes "try_lock e m p = (r, p')" "orderly r p p'"
    and body: "\<And>r1 p1. m (p\<lparr>tree_locked := True\<rparr>) = (r1, p1) \<Longrightarrow> orderly r1 (p\<lparr>tree_locked := True\<rparr>) p1 \<Longrightarrow>
      effect (p\<lparr>tree_locked := True\<rparr>) p1"
  shows "p' = p \<or> (\<not> tree_locked p \<and> (\<exists>p1. effect (p\<lparr>tree_locked := True\<rparr>) p1 \<and> p' \<in> {p1, p1\<lparr>tree_locked := False\<rparr>}))"
proof (cases "tree_locked p")
  case True
  with assms(1) show ?thesis by (simp add: try_lock_def)
next
  case False
  obtain r1 p1 where m: "m (p\<lparr>tree_locked := True\<rparr>) = (r1, p1)" by fastforce
  with False assms(1) have "r = r1" "p' = unlock r1 p1" by (auto simp: try_lock_def)
  moreover have "orderly r1 (p\<lparr>tree_locked := True\<rparr>) p1"
    using assms(2) calculation by (auto simp: orderly_def unlock_def split: if_splits)
  ultimately show ?thesis using body [OF m] False by (auto simp: unlock_def)
qed

text \<open>A synchronous call other than the registration of a listener.\<close>

lemma run_sync_effect:
  assumes "quiet H" "run_sync E fuel H c p = (r, p')" "orderly r p p'"
    and "\<forall>l. c \<noteq> OnChange l \<and> c \<noteq> OffChange l"
  shows "p' = p \<or> (\<not> tree_locked p \<and> (\<exists>p1. effect (p\<lparr>tree_locked := True\<rparr>) p1 \<and> p' \<in> {p1, p1\<lparr>tree_locked := False\<rparr>}))"
proof -
  have body: "p' = p \<or> (\<not> tree_locked p \<and> (\<exists>p1. effect (p\<lparr>tree_locked := True\<rparr>) p1 \<and> p' \<in> {p1, p1\<lparr>tree_locked := False\<rparr>}))"
    if "try_lock e m p = (r0, p')" "orderly r0 p p'"
      "\<And>r1 p1. m (p\<lparr>tree_locked := True\<rparr>) = (r1, p1) \<Longrightarrow> orderly r1 (p\<lparr>tree_locked := True\<rparr>) p1 \<Longrightarrow>
        effect (p\<lparr>tree_locked := True\<rparr>) p1" for e m r0
    using try_lock_effect [OF that(1,2)] that(3) by blast
  have locked: "tree_locked (p\<lparr>tree_locked := True\<rparr>)" by simp
  show ?thesis
  proof (cases c)
    case (GetSync k)
    with assms(2,3) obtain r0 where "ptree_get_sync E fuel k p = (r0, p')" "orderly r0 p p'"
      by (auto elim: void_orderly)
    then show ?thesis
      unfolding ptree_get_sync_def by (rule body) (rule with_tree_pure_effect)
  next
    case RootHashSync
    with assms(2,3) obtain r0 where "ptree_get_root_hash_sync p = (r0, p')" "orderly r0 p p'"
      by (auto elim: void_orderly)
    then show ?thesis
      unfolding ptree_get_root_hash_sync_def by (rule body) (auto simp: root_of_def comp_simps effect_refl)
  next
    case (ScanSync options)
    with assms(2,3) obtain r0 where "scan_items_sync E fuel options p = (r0, p')" "orderly r0 p p'"
      by (auto elim: void_orderly)
    then show ?thesis
      unfolding scan_items_sync_def
      by (rule body) (auto simp: comp_simps effect_refl intro: with_tree_effect split: option.splits sum.splits)
  next
    case (InsertSync k v)
    with assms(2,3) have "ptree_insert_sync E fuel H k v p = (r, p')" "orderly r p p'" by simp_all
    then show ?thesis
      unfolding ptree_insert_sync_def tree_insert_sync_def
      by (rule body) (rule changing_pure_effect [OF assms(1) locked truthful_insert])
  next
    case (DeleteSync k)
    with assms(2,3) obtain r0 where "ptree_delete_sync E fuel H k p = (r0, p')" "orderly r0 p p'"
      by (auto elim: void_orderly)
    then show ?thesis
      unfolding ptree_delete_sync_def tree_delete_sync_def
      by (rule body) (rule changing_effect [OF assms(1) locked truthful_delete], auto simp: orderly_def)
  qed (use assms(4) in auto)
qed

section \<open>Sessions\<close>

text \<open>
  A session as its user sees it who has registered the listener \<open>l\<close> and leaves it registered. The second
  component is the asynchronous call that holds the lock. A call that fails must leave the root alone.
\<close>

inductive session :: "extern \<Rightarrow> nat \<Rightarrow> handler \<Rightarrow> listener \<Rightarrow> ptree \<Rightarrow> ptree \<times> async_call option \<Rightarrow> bool"
  for E :: extern and fuel :: nat and H :: handler and l :: listener and p0 :: ptree where
  start: "session E fuel H l p0 (p0, None)"
| begin_async: "session E fuel H l p0 (p, None) \<Longrightarrow> \<not> tree_locked p \<Longrightarrow> accepted c \<Longrightarrow>
    session E fuel H l p0 (p\<lparr>tree_locked := True\<rparr>, Some c)"
| end_async: "session E fuel H l p0 (p, Some c) \<Longrightarrow> run_async E fuel H c p = (r, p') \<Longrightarrow> orderly r p p' \<Longrightarrow>
    session E fuel H l p0 (unlock r p', None)"
| sync: "session E fuel H l p0 (p, a) \<Longrightarrow> run_sync E fuel H c p = (r, p') \<Longrightarrow> orderly r p p' \<Longrightarrow>
    c \<noteq> OnChange l \<Longrightarrow> c \<noteq> OffChange l \<Longrightarrow> session E fuel H l p0 (p', a)"

text \<open>What the listener heard, and whether it leads from one root to another without a gap.\<close>

definition heard :: "listener \<Rightarrow> ptree \<Rightarrow> change list" where
  "heard l p = map snd (filter (\<lambda>c. fst c = l) (calls p))"

fun leads :: "hash option \<Rightarrow> change list \<Rightarrow> hash option \<Rightarrow> bool" where
  "leads a [] b \<longleftrightarrow> a = b"
| "leads a (d # ds) b \<longleftrightarrow> old_root d = a \<and> leads (new_root d) ds b"

lemma leads_append: "leads a (ds @ es) b \<longleftrightarrow> (\<exists>c. leads a ds c \<and> leads c es b)"
  by (induction ds arbitrary: a) auto

definition told_all :: "listener \<Rightarrow> hash option \<Rightarrow> ptree \<Rightarrow> bool" where
  "told_all l a p \<longleftrightarrow> leads a (heard l p) (root_hash (inner_tree p))
     \<and> filter (\<lambda>l'. l' = l) (listeners p) = [l] \<and> \<not> listeners_borrowed p"

lemma filter_pairs: "filter (\<lambda>c. fst c = l) (map (\<lambda>l'. (l', d)) ls) = map (\<lambda>l'. (l', d)) (filter (\<lambda>l'. l' = l) ls)"
  by (induction ls) auto

lemma filter_other: "l' \<noteq> l \<Longrightarrow> filter (\<lambda>x. x \<noteq> l' \<and> x = l) xs = filter (\<lambda>x. x = l) xs"
  by (rule filter_cong) auto

lemma effect_told_all: "effect p p' \<Longrightarrow> told_all l a p \<Longrightarrow> told_all l a p'"
proof (induction rule: effect.induct)
  case (silent p' t s)
  then show ?case by (simp add: told_all_def heard_def)
next
  case (told p' t s ty)
  then show ?case by (auto simp: told_all_def heard_def filter_pairs leads_append)
qed

lemma told_all_lock [simp]: "told_all l a (p\<lparr>tree_locked := b\<rparr>) = told_all l a p"
  by (simp add: told_all_def heard_def)

lemma told_all_unlock [simp]: "told_all l a (unlock r p) = told_all l a p"
  by (simp add: unlock_def)

lemma session_told_all:
  assumes "quiet H" "told_all l a p0" "session E fuel H l p0 x"
  shows "told_all l a (fst x) \<and> (snd x \<noteq> None \<longrightarrow> tree_locked (fst x))"
  using assms(3)
proof (induction rule: session.induct)
  case start
  with assms(2) show ?case by simp
next
  case (begin_async p c)
  then show ?case by simp
next
  case (end_async p c r p')
  then have "tree_locked p" "told_all l a p" by simp_all
  with effect_told_all [OF run_async_effect [OF assms(1) _ end_async.hyps(2,3)]] show ?case by simp
next
  case (sync p b c r p')
  then have told: "told_all l a p" by simp
  show ?case
  proof (cases "\<exists>l'. c = OnChange l' \<or> c = OffChange l'")
    case True
    with sync told show ?thesis
      by (auto simp: on_change_def off_change_def told_all_def heard_def filter_other split: if_splits)
  next
    case False
    with run_sync_effect [OF assms(1) sync.hyps(2,3)] have
      "p' = p \<or> (\<not> tree_locked p \<and> (\<exists>p1. effect (p\<lparr>tree_locked := True\<rparr>) p1 \<and> p' \<in> {p1, p1\<lparr>tree_locked := False\<rparr>}))" by blast
    then show ?thesis
    proof
      assume "p' = p"
      with sync show ?thesis by simp
    next
      assume "\<not> tree_locked p \<and> (\<exists>p1. effect (p\<lparr>tree_locked := True\<rparr>) p1 \<and> p' \<in> {p1, p1\<lparr>tree_locked := False\<rparr>})"
      with sync told show ?thesis by (auto dest: effect_told_all)
    qed
  qed
qed

end
