(* ===== verification/Object_Map.thy ===== *)
theory Object_Map
  imports Session Tree_Modes
begin

text \<open>
  The exported object as a map that several callers share: asynchronous calls wait for the lock of the
  tree in the order of \<^verbatim>\<open>tokio\<close>'s mutex, synchronous ones try it. Specification and simulation.
\<close>

section \<open>Schedules\<close>

text \<open>
  What happens to the object: a synchronous call; an asynchronous call, which starts to wait; the first
  one that waits gets the lock; the one that holds the lock is done.
\<close>

datatype event = CallSync map_op | CallAsync map_op | Acquire | Finish

fun call_sync :: "extern \<Rightarrow> nat \<Rightarrow> handler \<Rightarrow> map_op \<Rightarrow> js js_op" where
  "call_sync E fuel H (InsertOp k v) = bindC (ptree_insert_sync E fuel H k v) (\<lambda>_. returnC JsUndefined)"
| "call_sync E fuel H (DeleteOp k) = bindC (ptree_delete_sync E fuel H k) (\<lambda>b. returnC (JsBool b))"
| "call_sync E fuel H (GetOp k) = ptree_get_sync E fuel k"

fun call_async :: "extern \<Rightarrow> nat \<Rightarrow> handler \<Rightarrow> map_op \<Rightarrow> js js_op" where
  "call_async E fuel H (InsertOp k v) = ptree_insert E fuel H k v"
| "call_async E fuel H (DeleteOp k) = ptree_delete E fuel H k"
| "call_async E fuel H (GetOp k) = ptree_get E fuel k"

type_synonym outcome = "js_error + js"

text \<open>The object, the call that holds its lock, and the calls that wait.\<close>

type_synonym object = "ptree \<times> map_op option \<times> map_op list"

fun step :: "extern \<Rightarrow> nat \<Rightarrow> handler \<Rightarrow> event \<Rightarrow> object \<Rightarrow> outcome list \<times> object" where
  "step E fuel H (CallSync x) (p, w, q) = (case call_sync E fuel H x p of (r, p') \<Rightarrow> ([r], (p', w, q)))"
| "step E fuel H (CallAsync x) (p, w, q) = ([], (p, w, q @ [x]))"
| "step E fuel H Acquire (p, w, q) = ([], (if tree_locked p \<or> q = [] then (p, w, q)
     else (p\<lparr>tree_locked := True\<rparr>, Some (hd q), tl q)))"
| "step E fuel H Finish (p, None, q) = ([], (p, None, q))"
| "step E fuel H Finish (p, Some x, q) = (case call_async E fuel H x p of (r, p') \<Rightarrow> ([r], (unlock r p', None, q)))"

fun steps :: "extern \<Rightarrow> nat \<Rightarrow> handler \<Rightarrow> event list \<Rightarrow> object \<Rightarrow> outcome list \<times> object" where
  "steps E fuel H [] st = ([], st)"
| "steps E fuel H (e # es) st = (case step E fuel H e st of (out, st1) \<Rightarrow>
     (case steps E fuel H es st1 of (outs, st2) \<Rightarrow> (out @ outs, st2)))"

section \<open>A map with a lock and a queue\<close>

fun answer_js :: "map_answer \<Rightarrow> js" where
  "answer_js Done = JsUndefined"
| "answer_js (Removed b) = JsBool b"
| "answer_js (Answer v) = js_bytes v"

fun busy :: "map_op \<Rightarrow> js_error" where
  "busy (GetOp k) = lock_busy"
| "busy _ = would_block"

type_synonym shared_map = "(key \<Rightarrow> val option) \<times> map_op option \<times> map_op list"

fun spec_step :: "event \<Rightarrow> shared_map \<Rightarrow> outcome list \<times> shared_map" where
  "spec_step (CallSync x) (m, None, q) = ([Inr (answer_js (fst (spec_op x m)))], (snd (spec_op x m), None, q))"
| "spec_step (CallSync x) (m, Some y, q) = ([Inl (busy x)], (m, Some y, q))"
| "spec_step (CallAsync x) (m, w, q) = ([], (m, w, q @ [x]))"
| "spec_step Acquire (m, None, x # q) = ([], (m, Some x, q))"
| "spec_step Acquire a = ([], a)"
| "spec_step Finish (m, None, q) = ([], (m, None, q))"
| "spec_step Finish (m, Some x, q) = ([Inr (answer_js (fst (spec_op x m)))], (snd (spec_op x m), None, q))"

fun spec_steps :: "event list \<Rightarrow> shared_map \<Rightarrow> outcome list \<times> shared_map" where
  "spec_steps [] a = ([], a)"
| "spec_steps (e # es) a = (case spec_step e a of (out, a1) \<Rightarrow>
     (case spec_steps es a1 of (outs, a2) \<Rightarrow> (out @ outs, a2)))"

fun event_ok :: "event \<Rightarrow> bool" where
  "event_ok (CallSync x) = op_ok x"
| "event_ok (CallAsync x) = op_ok x"
| "event_ok _ = True"

section \<open>A call that holds the lock\<close>

fun held :: "extern \<Rightarrow> mode \<Rightarrow> nat \<Rightarrow> handler \<Rightarrow> map_op \<Rightarrow> js js_op" where
  "held E md fuel H (InsertOp k v) =
     bindC (changing H ''insert'' (on_tree (tree_insert E md fuel k v))) (\<lambda>_. returnC JsUndefined)"
| "held E md fuel H (DeleteOp k) =
     bindC (changing H ''delete'' (on_tree (tree_delete E md fuel k))) (\<lambda>b. returnC (JsBool b))"
| "held E md fuel H (GetOp k) = bindC (with_tree (\<lambda>t. tree_get E md fuel t k)) (\<lambda>v. returnC (js_bytes v))"

lemma call_async_held: "call_async E fuel H x = held E Async fuel H x"
  by (cases x) (simp_all add: ptree_insert_def ptree_delete_def ptree_get_def)

lemma bind_try_lock:
  "bindC (try_lock e m) (\<lambda>x. returnC (f x)) = try_lock e (bindC m (\<lambda>x. returnC (f x)))"
  by (auto simp: fun_eq_iff try_lock_def comp_simps unlock_def split: prod.splits sum.splits)

lemma call_sync_held: "call_sync E fuel H x = try_lock (busy x) (held E Sync fuel H x)"
  by (cases x) (simp_all add: ptree_insert_sync_def ptree_delete_sync_def ptree_get_sync_def bind_try_lock
      bindC_assoc tree_insert_sync_def tree_delete_sync_def tree_get_sync_def)

text \<open>It does to the tree what the operation does, whatever listeners there are.\<close>

definition answered :: "failure + map_answer \<Rightarrow> outcome" where
  "answered r = (case r of Inl e \<Rightarrow> Inl (prolly_error_to_js e) | Inr a \<Rightarrow> Inr (answer_js a))"

lemma held_at:
  assumes "quiet H" "tree_locked p" "tree_op_run E md fuel x (inner_tree p, inner_store p) = (r, (t, s))"
    and "held E md fuel H x p = (r', p')"
  shows "r' = answered r \<and> inner_tree p' = t \<and> inner_store p' = s \<and> tree_locked p'"
proof (cases x)
  case (InsertOp k v)
  with assms(3) obtain r0 where "tree_insert E md fuel k v (inner_tree p, inner_store p) = (r0, (t, s))"
    "r = (case r0 of Inl e \<Rightarrow> Inl e | Inr _ \<Rightarrow> Inr Done)"
    by (auto simp: tree_op_run_def comp_simps split: prod.splits sum.splits)
  with changing_at [where m = "tree_insert E md fuel k v", OF assms(1,2) this(1)] InsertOp assms(2,4) show ?thesis
    by (cases r0) (auto simp: comp_simps lift_failure_def answered_def)
next
  case (DeleteOp k)
  with assms(3) obtain r0 where "tree_delete E md fuel k (inner_tree p, inner_store p) = (r0, (t, s))"
    "r = (case r0 of Inl e \<Rightarrow> Inl e | Inr b \<Rightarrow> Inr (Removed b))"
    by (auto simp: tree_op_run_def comp_simps split: prod.splits sum.splits)
  with changing_at [where m = "tree_delete E md fuel k", OF assms(1,2) this(1)] DeleteOp assms(2,4) show ?thesis
    by (cases r0) (auto simp: comp_simps lift_failure_def answered_def)
next
  case (GetOp k)
  with assms(2-4) show ?thesis
    by (auto simp: tree_op_run_def comp_simps read_tree_def on_store_def with_tree_def lift_failure_def answered_def
        split: prod.splits sum.splits)
qed

section \<open>Simulation\<close>

text \<open>The object stands for the map, and has room for \<open>b\<close> more operations.\<close>

fun simulates :: "extern \<Rightarrow> nat \<Rightarrow> nat \<Rightarrow> object \<Rightarrow> shared_map \<Rightarrow> bool" where
  "simulates E fuel b (p, w, q) (m, w', q') \<longleftrightarrow> w' = w \<and> q' = q \<and> (tree_locked p \<longleftrightarrow> w \<noteq> None)
     \<and> (\<forall>x\<in>set_option w \<union> set q. op_ok x) \<and> tree_holds E Sync fuel b (inner_tree p, inner_store p) m"

lemma tree_holds_less: "tree_holds E md fuel (Suc b) st m \<Longrightarrow> tree_holds E md fuel b st m"
  using get_op_law(2) by (cases st) blast

text \<open>One operation in either mode, as long as nobody else uses the store.\<close>

lemma op_step:
  assumes "tree_holds E Sync fuel (Suc b) st m" "op_ok x" "tree_op_run E md fuel x st = (r, st')"
    and "collision_free E (snd st')"
  shows "r = Inr (fst (spec_op x m)) \<and> tree_holds E Sync fuel b st' (snd (spec_op x m))"
proof -
  have "lock (snd st) = Unlocked" using assms(1) by (auto simp: tree_holds_def avail_def split: prod.splits)
  with same_tree_op_run [of E fuel x] assms(3) have "tree_op_run E Sync fuel x st = (r, st')"
    by (cases md; cases st) (auto simp: same_op_def)
  from tm.run_law [OF assms(1,2) this assms(4)] show ?thesis .
qed

lemma held_step:
  assumes "quiet H" "tree_locked p" "held E md fuel H x p = (r, p')" "collision_free E (inner_store p')"
    and "tree_holds E Sync fuel (Suc b) (inner_tree p, inner_store p) m" "op_ok x"
  shows "r = Inr (answer_js (fst (spec_op x m)))"
    and "tree_holds E Sync fuel b (inner_tree p', inner_store p') (snd (spec_op x m))" and "tree_locked p'"
proof -
  obtain r0 t s where run: "tree_op_run E md fuel x (inner_tree p, inner_store p) = (r0, (t, s))"
    by (metis surj_pair)
  note at = held_at [OF assms(1,2) run assms(3)]
  with op_step [OF assms(5,6) run] assms(4)
  show "r = Inr (answer_js (fst (spec_op x m)))"
    "tree_holds E Sync fuel b (inner_tree p', inner_store p') (snd (spec_op x m))" "tree_locked p'"
    by (simp_all add: answered_def)
qed

text \<open>A later store has what an earlier one has, so a collision does not go away.\<close>

lemma held_sound:
  assumes "quiet H" "tree_locked p" "held E md fuel H x p = (r, p')" "collision_free E (inner_store p')"
  shows "collision_free E (inner_store p)"
proof -
  obtain r0 t s where run: "tree_op_run E md fuel x (inner_tree p, inner_store p) = (r0, (t, s))"
    by (metis surj_pair)
  from held_at [OF assms(1,2) run assms(3)] tm.run_sound [OF run] assms(4) show ?thesis by simp
qed

lemma unlock_other [simp]: "inner_tree (unlock r p) = inner_tree p" "inner_store (unlock r p) = inner_store p"
  by (simp_all add: unlock_def)

lemma step_sound:
  assumes "quiet H" "w \<noteq> None \<longrightarrow> tree_locked p" "step E fuel H e (p, w, q) = (out, (p', w', q'))"
    and "collision_free E (inner_store p')"
  shows "collision_free E (inner_store p)"
proof (cases e)
  case (CallSync x)
  with assms(3) obtain r where "call_sync E fuel H x p = (r, p')" by (auto split: prod.splits)
  then show ?thesis
    using held_sound [OF assms(1), of "p\<lparr>tree_locked := True\<rparr>"] assms(4)
    by (auto simp: call_sync_held try_lock_def split: if_splits prod.splits)
next
  case Finish
  with assms show ?thesis
    by (cases w) (auto simp: call_async_held dest: held_sound [OF assms(1)] split: prod.splits)
qed (use assms in \<open>auto split: if_splits\<close>)

lemma step_simulates:
  assumes "quiet H" "simulates E fuel (Suc b) (p, w, q) (m, w, q)" "event_ok e"
    and "step E fuel H e (p, w, q) = (out, (p', w', q'))" "collision_free E (inner_store p')"
  shows "\<exists>m'. spec_step e (m, w, q) = (out, (m', w', q')) \<and> simulates E fuel b (p', w', q') (m', w', q')"
proof (cases e)
  case (CallSync x)
  with assms(4) obtain r where call: "call_sync E fuel H x p = (r, p')" "out = [r]" "w' = w" "q' = q"
    by (auto split: prod.splits)
  show ?thesis
  proof (cases w)
    case None
    obtain r1 p1 where h: "held E Sync fuel H x (p\<lparr>tree_locked := True\<rparr>) = (r1, p1)" by fastforce
    from None assms(2) call(1) h have p': "r = r1" "p' = unlock r1 p1"
      by (auto simp: call_sync_held try_lock_def)
    have "collision_free E (inner_store p1)" using assms(5) p' by simp
    from held_step [OF assms(1) _ h this, of b m] assms(2,3) CallSync p' None call(2-4) show ?thesis
      by (auto simp: unlock_def)
  next
    case (Some y)
    with assms(2) call(1) have "r = Inl (busy x)" "p' = p" by (auto simp: call_sync_held try_lock_def)
    with Some CallSync call(2-4) assms(2) show ?thesis by (auto dest: tree_holds_less)
  qed
next
  case (CallAsync x)
  with assms show ?thesis by (auto dest: tree_holds_less)
next
  case Acquire
  with assms show ?thesis by (cases w; cases q) (auto dest: tree_holds_less)
next
  case Finish
  show ?thesis
  proof (cases w)
    case None
    with Finish assms show ?thesis by (auto dest: tree_holds_less)
  next
    case (Some x)
    with Finish assms(4) obtain r1 p1 where h: "held E Async fuel H x p = (r1, p1)"
      and p': "p' = unlock r1 p1" "out = [r1]" "w' = None" "q' = q"
      by (auto simp: call_async_held split: prod.splits)
    have "collision_free E (inner_store p1)" using assms(5) p' by simp
    from held_step [OF assms(1) _ h this, of b m] assms(2) Finish p' Some show ?thesis
      by (auto simp: unlock_def)
  qed
qed

lemma step_locked:
  assumes "w \<noteq> None \<longrightarrow> tree_locked p" "step E fuel H e (p, w, q) = (out, (p', w', q'))"
  shows "w' \<noteq> None \<longrightarrow> tree_locked p'"
  using assms by (cases e; cases w) (auto simp: call_sync_held try_lock_def split: if_splits prod.splits)

lemma steps_sound:
  assumes "quiet H"
  shows "w \<noteq> None \<longrightarrow> tree_locked p \<Longrightarrow> steps E fuel H es (p, w, q) = (outs, (p', w', q')) \<Longrightarrow>
    collision_free E (inner_store p') \<Longrightarrow> collision_free E (inner_store p)"
proof (induction es arbitrary: p w q outs)
  case (Cons e es)
  obtain out p1 w1 q1 where s: "step E fuel H e (p, w, q) = (out, (p1, w1, q1))" by (metis surj_pair)
  with Cons.prems(2) obtain outs1 where "steps E fuel H es (p1, w1, q1) = (outs1, (p', w', q'))"
    by (auto split: prod.splits)
  with Cons.IH [OF step_locked [OF Cons.prems(1) s]] Cons.prems(3) step_sound [OF assms Cons.prems(1) s] show ?case by blast
qed simp

lemma steps_simulate:
  assumes "quiet H"
  shows "simulates E fuel (b + length es) (p, w, q) (m, w, q) \<Longrightarrow> \<forall>e\<in>set es. event_ok e \<Longrightarrow>
    steps E fuel H es (p, w, q) = (outs, (p', w', q')) \<Longrightarrow> collision_free E (inner_store p') \<Longrightarrow>
    \<exists>m'. spec_steps es (m, w, q) = (outs, (m', w', q')) \<and> simulates E fuel b (p', w', q') (m', w', q')"
proof (induction es arbitrary: p w q m outs)
  case (Cons e es)
  obtain out p1 w1 q1 where s: "step E fuel H e (p, w, q) = (out, (p1, w1, q1))" by (metis surj_pair)
  with Cons.prems(3) obtain outs1 where rest: "steps E fuel H es (p1, w1, q1) = (outs1, (p', w', q'))" "outs = out @ outs1"
    by (auto split: prod.splits)
  have "w \<noteq> None \<longrightarrow> tree_locked p" using Cons.prems(1) by auto
  from steps_sound [OF assms step_locked [OF this s] rest(1) Cons.prems(4)]
  have cf: "collision_free E (inner_store p1)" .
  have "simulates E fuel (Suc (b + length es)) (p, w, q) (m, w, q)" "event_ok e" using Cons.prems(1,2) by simp_all
  from step_simulates [OF assms this s cf] obtain m1 where
    m1: "spec_step e (m, w, q) = (out, (m1, w1, q1))" "simulates E fuel (b + length es) (p1, w1, q1) (m1, w1, q1)" by blast
  have "\<forall>e\<in>set es. event_ok e" using Cons.prems(2) by simp
  from Cons.IH [OF m1(2) this rest(1) Cons.prems(4)] m1(1) rest(2) show ?case by auto
qed simp

text \<open>An object as the constructor makes it, with listeners that were registered since.\<close>

lemma simulates_new:
  assumes "ptree_new options = Inr p0" "unat (min_fanout (config (inner_tree p0))) < 2 ^ 31"
    and "2 \<le> unat (min_fanout (config (inner_tree p0)))" "extern_ok E (config (inner_tree p0))" "256 \<le> fuel" "b < 2 ^ 255"
  shows "simulates E fuel b (p0\<lparr>listeners := ls\<rparr>, None, []) (Map.empty, None, [])"
proof -
  from assms(1) obtain cfg t where t: "new_tree cfg = Inr t" "p0 = wrap_tree t new_store"
    by (auto simp: ptree_new_def Let_def lift_failure_def split: if_splits option.splits sum.splits)
  then have "config t = cfg" by (auto simp: new_tree_def split: if_splits)
  moreover have "avail Sync new_store" by (simp add: avail_def new_store_def)
  moreover have "room cfg 0 0 b" using assms(3,6) t calculation(1) by (simp add: room_def wrap_tree_def)
  ultimately have "tree_holds E Sync fuel b (t, new_store) Map.empty"
    using assms(2-5) t by (intro tree_holds_new [where cfg = cfg]) (simp_all add: wrap_tree_def)
  with t(2) show ?thesis by (simp add: wrap_tree_def)
qed

end
