(* ===== verification/Scan_Properties.thy ===== *)
theory Scan_Properties
  imports Range_Scan Sample_Extern
begin

text \<open>
  The properties of cursors and range scans, each followed by a concrete instance. A well-formed
  tree stands for a map; \<open>listing\<close> is the one list of its pairs in the order of the keys.
\<close>

section \<open>Cursors\<close>

lemma tree_at_listing: "tree_at E s t n es \<Longrightarrow> listing (entries_map s es) (map (entry_pair s) es)"
  by (rule listing_entries) (simp_all add: tree_at_def)

text \<open>
  C28: Reading the cursor of \<^verbatim>\<open>cursor_start\<close> with \<^verbatim>\<open>next\<close> until it returns nothing terminates without an
  error and yields every pair of the map once, in the order of the keys, and changes nothing.
\<close>

theorem iteration_complete:
  assumes "bincode_ok E" "tree_at E s t n es" "Suc n < fuel" "listing (entries_map s es) xs"
  shows "\<exists>c c'. cursor_start E fuel t s = (Inr c, s)
     \<and> drain (cursor_next E fuel) (Suc (length es)) (c, s) = (Inr xs, (c', s))"
proof -
  have xs: "xs = map (entry_pair s) es" by (rule listing_unique [OF assms(4) tree_at_listing [OF assms(2)]])
  obtain c where c: "new_at_start E fuel t s = (Inr c, s)" "cursor_holds E fuel s c xs"
    using new_at_start_at [OF assms(1-3)] by (auto simp: xs)
  with cur.drain_holds [OF c(2), of "Suc (length es)"] show ?thesis by (auto simp: xs cursor_start_def)
qed

definition five :: "map_op list" where
  "five = map (\<lambda>k. InsertOp [k] [k]) [10, 20, 30, 40, 50]"

definition five_pairs :: "(key \<times> val) list" where
  "five_pairs = map (\<lambda>k. ([k], [k])) [10, 20, 30, 40, 50]"

lemma five_reached:
  assumes "sample_after five = (t, s)"
  obtains n es where "tree_at sample s t n es" "Suc n < 256" "avail md s"
    "listing (entries_map s es) five_pairs" "length es = 5"
proof -
  obtain n es where at: "tree_at sample s t n es" "n < 255" "avail md s"
    "entries_map s es = snd (spec_ops five Map.empty)"
    by (rule sample_reached [OF assms, where md = md]) (auto simp: five_def)
  have "snd (spec_ops five Map.empty) = map_of five_pairs"
    by (simp add: five_def five_pairs_def fun_eq_iff)
  moreover have "sorted_wrt (<) (map fst five_pairs)" by code_simp
  ultimately have li: "listing (entries_map s es) five_pairs" using at(4) by (simp add: listing_def)
  have "length es = length five_pairs"
    using arg_cong [OF listing_unique [OF li tree_at_listing [OF at(1)]], of length] by simp
  then have "length es = 5" by (simp add: five_pairs_def)
  with at li show thesis by (intro that) simp_all
qed

theorem iteration_complete_witness:
  "\<exists>t s c c'. sample_after five = (t, s) \<and> cursor_start sample 256 t s = (Inr c, s)
     \<and> drain (cursor_next sample 256) 6 (c, s) = (Inr five_pairs, (c', s))"
proof -
  obtain t s where st: "sample_after five = (t, s)" by fastforce
  obtain n es where at: "tree_at sample s t n es" "Suc n < 256" "avail Async s"
    "listing (entries_map s es) five_pairs" "length es = 5" by (rule five_reached [OF st])
  from iteration_complete [OF sample_bincode_ok at(1,2,4)] st at(5) show ?thesis by simp
qed

text \<open>
  C29: A cursor put at a key with \<^verbatim>\<open>seek\<close>, whether the key is in the tree or not, yields the pairs whose
  keys are not below it, in order, and then nothing.
\<close>

theorem seek_yields_rest:
  assumes "bincode_ok E" "tree_at E s t n es" "Suc n < fuel" "listing (entries_map s es) xs"
  shows "\<exists>c c'. seek E fuel t k s = (Inr c, s)
     \<and> drain (cursor_next E fuel) (Suc (length es)) (c, s) = (Inr (filter (\<lambda>x. k \<le> fst x) xs), (c', s))"
proof -
  have "xs = map (entry_pair s) es" by (rule listing_unique [OF assms(4) tree_at_listing [OF assms(2)]])
  moreover have "sorted_keys es" using assms(2) by (simp add: tree_at_def)
  ultimately have rest: "filter (\<lambda>x. k \<le> fst x) xs = map (entry_pair s) (dropWhile (\<lambda>e. le_key e < k) es)"
    by (simp add: filter_map comp_def dropWhile_sorted_filter)
  have len: "length (dropWhile (\<lambda>e. le_key e < k) es) < Suc (length es)"
    using length_dropWhile_le [of "\<lambda>e. le_key e < k" es] by (simp add: less_Suc_eq_le)
  obtain c where c: "new_at_key E fuel t k s = (Inr c, s)" "cursor_holds E fuel s c (filter (\<lambda>x. k \<le> fst x) xs)"
    using new_at_key_at [OF assms(1-3), of k] unfolding rest by blast
  with cur.drain_holds [OF c(2), of "Suc (length es)"] len rest show ?thesis by (auto simp: seek_def)
qed

theorem seek_yields_rest_witness:
  "\<exists>t s c c'. sample_after five = (t, s) \<and> seek sample 256 t [25] s = (Inr c, s)
     \<and> drain (cursor_next sample 256) 6 (c, s) = (Inr [([30], [30]), ([40], [40]), ([50], [50])], (c', s))"
proof -
  obtain t s where st: "sample_after five = (t, s)" by fastforce
  obtain n es where at: "tree_at sample s t n es" "Suc n < 256" "avail Async s"
    "listing (entries_map s es) five_pairs" "length es = 5" by (rule five_reached [OF st])
  have "filter (\<lambda>x. [25] \<le> fst x) five_pairs = [([30], [30]), ([40], [40]), ([50], [50])]" by code_simp
  with seek_yields_rest [OF sample_bincode_ok at(1,2,4), of "[25]"] st at(5) show ?thesis by simp
qed

section \<open>Pages\<close>









section \<open>Following the pages\<close>












section \<open>Where a scan misses its contract\<close>

text \<open>
  C33: An asynchronous scan with the limit \<^verbatim>\<open>usize::MAX\<close> returns an empty page: the number of items to
  fetch, one more, wraps around to 0.
\<close>

theorem largest_limit_is_empty:
  assumes "bincode_ok E" "tree_at E s t n es" "Suc n < fuel" "length es < fuel" "limit args = Some (- 1)"
  shows "\<exists>p. tree_scan E fuel t args s = (Inr p, s) \<and> items p = [] \<and> \<not> has_next_page p"
proof -
  have "avail Async s" by (simp add: avail_def)
  from new_for_scan_at [OF assms(1) this assms(2-4), of args] obtain c where
    "new_for_scan E Async fuel t args s = (Inr c, s)" by blast
  with assms(5) show ?thesis
    by (simp add: tree_scan_def comp_simps Let_def)
qed

theorem largest_limit_is_empty_witness:
  "\<exists>t s p. sample_after five = (t, s)
     \<and> tree_scan sample 256 t (default_scan_args\<lparr>limit := Some (- 1)\<rparr>) s = (Inr p, s) \<and> items p = []"
proof -
  obtain t s where st: "sample_after five = (t, s)" by fastforce
  obtain n es where at: "tree_at sample s t n es" "Suc n < 256" "avail Async s"
    "listing (entries_map s es) five_pairs" "length es = 5" by (rule five_reached [OF st])
  from largest_limit_is_empty [OF sample_bincode_ok at(1,2), of "default_scan_args\<lparr>limit := Some (- 1)\<rparr>"] st at(5)
  show ?thesis by auto
qed



end
