(* ===== verification/Cursor_Snapshot.thy ===== *)
theory Cursor_Snapshot
  imports Object_Map Scan_Properties
begin

text \<open>
  A \<^verbatim>\<open>PTreeCursor\<close> has its own path into the tree and shares only the store with it, so it can be read
  while the tree changes. What it reads is the version it was made on.
\<close>

section \<open>A cursor in a store that grows\<close>

lemma path_at_extends: "path_at E lo hi s fs n es L R \<Longrightarrow> extends s s' \<Longrightarrow> path_at E lo hi s' fs n es L R"
proof (induction rule: path_at.induct)
  case (root h nd b n es)
  then show ?case by (auto intro: path_at.root stored_extends node_at_extends)
next
  case (child h l ls c rs i fs n xs es ys L R nd)
  then show ?case by (auto intro!: path_at.child intro: stored_extends node_at_extends children_at_extends child_at_extends)
qed

lemma cursor_at_extends: "cursor_at E lo hi s fuel rv c todo \<Longrightarrow> extends s s' \<Longrightarrow> cursor_at E lo hi s' fuel rv c todo"
  by (induction rule: cursor_at.induct) (blast intro: cursor_at.intros path_at_extends)+

lemma entry_pairs_extends: "extends s s' \<Longrightarrow> values_ok s es \<Longrightarrow> map (entry_pair s') es = map (entry_pair s) es"
  by (auto simp: entry_pair_def values_ok_def) (metis option.sel repr_value_extends)

lemma scan_holds_extends:
  assumes "scan_holds E Async fuel args s c xs" "extends s s'"
  shows "scan_holds E Async fuel args s' c xs"
proof -
  from assms(1) obtain lo hi todo where at: "bincode_ok E" "cursor_at E lo hi s fuel (reverse args) c todo"
    "values_ok s todo" "xs = map (entry_pair s) (in_scan args todo)" by (auto simp: scan_holds_def)
  have "values_ok s (in_scan args todo)" using at(3) by (auto simp: values_ok_def in_scan_def dest: set_takeWhileD)
  with entry_pairs_extends [OF assms(2)] at(4) have "xs = map (entry_pair s') (in_scan args todo)" by simp
  with at(1) cursor_at_extends [OF at(2) assms(2)] values_ok_extends [OF assms(2) at(3)] show ?thesis
    by (auto simp: scan_holds_def avail_def)
qed

text \<open>The default arguments bound nothing.\<close>

lemma in_scan_default: "in_scan default_scan_args todo = todo"
  by (simp add: in_scan_def out_of_range_def above_start_def past_end_def default_scan_args_def)

lemma cursor_scan_holds: "cursor_holds E fuel s c xs \<Longrightarrow> scan_holds E Async fuel default_scan_args s c xs"
  unfolding cursor_holds_def scan_holds_def in_scan_default by (auto simp: avail_def default_scan_args_def)

section \<open>Reading while the tree changes\<close>

text \<open>\<open>None\<close> reads the cursor; \<open>Some x\<close> is a call on the object in between. The result is what was read.\<close>

fun reads :: "extern \<Rightarrow> nat \<Rightarrow> handler \<Rightarrow> map_op option list \<Rightarrow> cursor \<Rightarrow> ptree \<Rightarrow> (failure + js) list" where
  "reads E fuel H [] c p = []"
| "reads E fuel H (None # xs) c p = (case ptree_cursor_next E fuel (c, inner_store p) of
     (r, (c', s)) \<Rightarrow> r # reads E fuel H xs c' (p\<lparr>inner_store := s\<rparr>))"
| "reads E fuel H (Some x # xs) c p = reads E fuel H xs c (snd (call_sync E fuel H x p))"

lemma call_sync_extends:
  assumes "quiet H"
  shows "extends (inner_store p) (inner_store (snd (call_sync E fuel H x p)))"
proof (cases "tree_locked p")
  case True
  then show ?thesis by (simp add: call_sync_held try_lock_def)
next
  case False
  let ?p = "p\<lparr>tree_locked := True\<rparr>"
  obtain r p1 where h: "held E Sync fuel H x ?p = (r, p1)" by fastforce
  obtain r0 t s where run: "tree_op_run E Sync fuel x (inner_tree ?p, inner_store ?p) = (r0, (t, s))" by (metis surj_pair)
  have "inner_store p1 = s" using held_at [OF assms _ run h] by simp
  with growsTD [OF growsT_op_run run] False h show ?thesis by (simp add: call_sync_held try_lock_def)
qed

lemma ptree_cursor_next_holds:
  assumes "scan_holds E Async fuel default_scan_args s c xs"
  shows "\<exists>c'. ptree_cursor_next E fuel (c, s) = (Inr (iterator_result (case xs of [] \<Rightarrow> None | x # _ \<Rightarrow> Some x)), (c', s))
    \<and> scan_holds E Async fuel default_scan_args s c' (tl xs)"
proof (cases xs)
  case Nil
  with assms have "scan_holds E Async fuel default_scan_args s c []" by simp
  from scan.advance_Nil [OF this] show ?thesis by (auto simp: Nil ptree_cursor_next_def comp_simps)
next
  case (Cons x xs')
  with assms have "scan_holds E Async fuel default_scan_args s c (x # xs')" by simp
  from scan.advance_Cons [OF this] show ?thesis by (auto simp: Cons ptree_cursor_next_def comp_simps)
qed

text \<open>What an iterator over a list yields when it is asked \<open>n\<close> times.\<close>

fun yields :: "'a list \<Rightarrow> nat \<Rightarrow> 'a option list" where
  "yields xs 0 = []"
| "yields [] (Suc n) = None # yields [] n"
| "yields (x # xs) (Suc n) = Some x # yields xs n"

lemma yields_Suc: "yields xs (Suc n) = (case xs of [] \<Rightarrow> None | x # _ \<Rightarrow> Some x) # yields (tl xs) n"
  by (cases xs) simp_all

lemma reads_holds:
  assumes "quiet H"
  shows "scan_holds E Async fuel default_scan_args (inner_store p) c xs \<Longrightarrow>
    reads E fuel H acts c p = map (\<lambda>r. Inr (iterator_result r)) (yields xs (count_list acts None))"
proof (induction acts arbitrary: c p xs)
  case Nil
  then show ?case by simp
next
  case (Cons a acts)
  show ?case
  proof (cases a)
    case None
    from ptree_cursor_next_holds [OF Cons.prems] obtain c' where
      c': "ptree_cursor_next E fuel (c, inner_store p)
          = (Inr (iterator_result (case xs of [] \<Rightarrow> None | x # _ \<Rightarrow> Some x)), (c', inner_store p))"
        "scan_holds E Async fuel default_scan_args (inner_store p) c' (tl xs)" by blast
    have "scan_holds E Async fuel default_scan_args (inner_store (p\<lparr>inner_store := inner_store p\<rparr>)) c' (tl xs)"
      using c'(2) by simp
    from Cons.IH [OF this] c'(1) None show ?thesis by (simp add: yields_Suc)
  next
    case (Some x)
    with Cons.IH [OF scan_holds_extends [OF Cons.prems call_sync_extends [OF assms]]] show ?thesis by simp
  qed
qed

lemma ptree_cursor_start_holds:
  assumes "bincode_ok E" "tree_at E (inner_store p) (inner_tree p) n es" "Suc n < fuel"
  obtains c where "ptree_cursor_start E fuel p = (Inr c, p)"
    "scan_holds E Async fuel default_scan_args (inner_store p) c (map (entry_pair (inner_store p)) es)"
proof -
  obtain c where c: "new_at_start E fuel (inner_tree p) (inner_store p) = (Inr c, inner_store p)"
    "cursor_holds E fuel (inner_store p) c (map (entry_pair (inner_store p)) es)"
    using new_at_start_at [OF assms] by blast
  with that [OF _ cursor_scan_holds [OF c(2)]] show thesis
    by (simp add: ptree_cursor_start_def with_tree_def cursor_start_def lift_failure_def)
qed

end
