(* ===== verification/Reload.thy ===== *)
theory Reload
  imports Bindings Tree_Modes
begin

text \<open>
  A tree in another store with the same chunks is the same tree: what saving, exporting and loading
  rest on.
\<close>

section \<open>Moving a tree to another store\<close>

lemma stored_moved: "chunk_at s' = chunk_at s \<Longrightarrow> stored E s' = stored E s"
  by (simp add: stored_def fun_eq_iff)

lemma node_at_moved: "chunk_at s' = chunk_at s \<Longrightarrow> node_at E lo hi s' b n nd es = node_at E lo hi s b n nd es"
proof (induction n arbitrary: b nd es)
  case 0
  show ?case by simp
next
  case (Suc n)
  have "child_at E lo hi s' lo n = child_at E lo hi s lo n"
    unfolding child_at_def stored_moved [OF Suc.prems] Suc.IH [OF Suc.prems] ..
  then show ?case by (simp add: node_at_Suc)
qed

lemma repr_value_moved: "chunk_at s' = chunk_at s \<Longrightarrow> repr_value s' = repr_value s"
proof
  fix r assume same: "chunk_at s' = chunk_at s"
  have "chunks_value s' hs = chunks_value s hs" for hs
    using same by (induction hs) simp_all
  with same show "repr_value s' r = repr_value s r" by (cases r) simp_all
qed

lemma tree_at_moved:
  assumes "chunk_at s' = chunk_at s" "store_ok E s'" "tree_at E s t n es"
  shows "tree_at E s' t n es" and "entries_map s' es = entries_map s es"
  using assms(2,3) node_at_moved [OF assms(1)] stored_moved [OF assms(1)] repr_value_moved [OF assms(1)]
  by (simp_all add: tree_at_def root_at_def values_ok_def entries_map_def fun_eq_iff cong: option.case_cong)

section \<open>Storing chunks again\<close>

lemma grows_put_chunks: "grows E (put_chunks E cs)"
proof (induction cs)
  case (Cons c cs)
  have "grows E (put E (snd c))" using grows_put [of E Async] by simp
  with Cons show ?case by (auto intro!: grows_intros)
qed (auto intro!: grows_intros)

lemma put_chunks_at:
  assumes "\<forall>c\<in>set cs. fst c = blake3 E (snd c)"
  shows "\<exists>s'. put_chunks E cs s = (Inr (), s') \<and> chunk_at s' = map_of cs ++ chunk_at s"
  using assms
proof (induction cs arbitrary: s)
  case Nil
  then show ?case by (simp add: comp_simps)
next
  case (Cons c cs)
  obtain s1 where s1: "put E (snd c) s = (Inr (blake3 E (snd c)), s1)"
    "chunk_at s1 = (case chunk_at s (fst c) of None \<Rightarrow> (chunk_at s)(fst c \<mapsto> snd c) | Some _ \<Rightarrow> chunk_at s)"
    using Cons.prems by (simp add: put_def Let_def hash_bytes_def map_of_or_insert cong: option.case_cong)
  from Cons.IH [of s1] Cons.prems obtain s' where "put_chunks E cs s1 = (Inr (), s')" "chunk_at s' = map_of cs ++ chunk_at s1"
    by auto
  moreover have "map_of cs ++ chunk_at s1 = map_of (c # cs) ++ chunk_at s"
    using s1(2) by (auto simp: fun_eq_iff map_add_def split: option.splits)
  ultimately show ?case using s1(1) by (simp add: bindC_apply fun_upd_def)
qed

section \<open>Opening a tree again\<close>

lemma config_not_rejected: "config_valid cfg \<Longrightarrow> \<not> config_rejected cfg"
proof -
  assume valid: "config_valid cfg"
  moreover have "unat (target_fanout cfg) < 2 ^ 32" using unsigned_less [of "target_fanout cfg", where 'a = nat] by simp
  ultimately have "unat (min_fanout cfg) < 2 ^ 31" by (auto simp: config_valid_def)
  with valid show ?thesis by (simp add: config_rejected_iff)
qed

lemma open_tree_at:
  assumes "bincode_ok E" "tree_at E s t n es"
  shows "open_tree E (root_hash t) (config t) s = Inr (wrap_tree t s)"
proof -
  have cfg: "\<not> config_rejected (config t)"
    using assms(2) by (simp add: tree_at_def config_not_rejected)
  show ?thesis
  proof (cases "root_hash t")
    case None
    then have t: "\<lparr>root_hash = None, config = config t\<rparr> = t" by (cases t) simp
    from None cfg have "open_tree E (root_hash t) (config t) s = Inr (wrap_tree \<lparr>root_hash = None, config = config t\<rparr> s)"
      by (simp add: open_tree_def new_tree_def lift_failure_def)
    then show ?thesis unfolding t .
  next
    case (Some h)
    with from_root_hash_at [OF assms Some cfg] show ?thesis by (simp add: open_tree_def lift_failure_def)
  qed
qed

text \<open>The hashes of a well-formed tree have the width of the hash function.\<close>

lemma tree_root_width:
  assumes "\<forall>b. length (blake3 E b) = 32" "tree_at E s t n es"
  shows "hash_width_ok (root_hash t)" and "\<forall>c\<in>set (chunks s). length (fst c) = 32"
proof -
  show "\<forall>c\<in>set (chunks s). length (fst c) = 32"
    using assms by (auto simp: tree_at_def store_ok_def)
  show "hash_width_ok (root_hash t)"
  proof (cases "root_hash t")
    case (Some h)
    with assms(2) obtain nd where "stored E s h nd" by (auto simp: tree_at_def root_at_def)
    then obtain b where "chunk_at s h = Some b" by (auto simp: stored_def)
    with assms(2) have "h = blake3 E b" using store_okD by (auto simp: tree_at_def)
    with Some assms(1) show ?thesis by (simp add: hash_width_ok_def)
  qed (simp add: hash_width_ok_def)
qed

text \<open>The same tree over the same chunks answers alike.\<close>

definition reloaded :: "ptree \<Rightarrow> ptree \<Rightarrow> bool" where
  "reloaded q p \<longleftrightarrow> inner_tree q = inner_tree p \<and> chunk_at (inner_store q) = chunk_at (inner_store p)
     \<and> \<not> tree_locked q \<and> listeners q = []"

lemma load_chunks_reloaded:
  assumes "bincode_ok E" "tree_at E (inner_store p) (inner_tree p) n es"
    and "map_of cs = chunk_at (inner_store p)" "distinct (map fst cs)"
  obtains s where "put_chunks E cs new_store = (Inr (), s)"
    "open_tree E (root_hash (inner_tree p)) (config (inner_tree p)) s = Inr (wrap_tree (inner_tree p) s)"
    "reloaded (wrap_tree (inner_tree p) s) p" "tree_at E s (inner_tree p) n es"
    "entries_map s es = entries_map (inner_store p) es"
proof -
  have ok: "store_ok E (inner_store p)" using assms(2) by (simp add: tree_at_def)
  have "fst c = blake3 E (snd c)" if "c \<in> set cs" for c
  proof -
    have "map_of cs (fst c) = Some (snd c)" using that assms(4) by simp
    with assms(3) store_okD [OF ok] show ?thesis by metis
  qed
  then obtain s where s: "put_chunks E cs new_store = (Inr (), s)" "chunk_at s = map_of cs ++ chunk_at new_store"
    using put_chunks_at [of cs E new_store] by blast
  then have same: "chunk_at s = chunk_at (inner_store p)" by (simp add: new_store_def assms(3))
  have "store_ok E s" using growsD [OF grows_put_chunks s(1)] by simp
  note at = tree_at_moved [OF same this assms(2)]
  show thesis
    using s(1) open_tree_at [OF assms(1) at(1)] at same
    by (intro that [of s]) (simp_all add: reloaded_def wrap_tree_def)
qed

text \<open>The configuration in a file is not checked before it is used: the constructors panic.\<close>

lemma put_chunks_succeeds: "\<exists>s'. put_chunks E cs s = (Inr (), s')"
  by (induction cs arbitrary: s) (auto simp: comp_simps put_def Let_def)

lemma load_bad_config_traps:
  assumes "read_prly_tree_v2 E F b = Inr (root, cfg, cs, descr)" "config_rejected cfg"
  shows "load_tree_from_file_bytes E F b = Inl Trap"
proof -
  obtain s where "put_chunks E cs new_store = (Inr (), s)" using put_chunks_succeeds by blast
  with assms show ?thesis
    by (cases root) (simp_all add: load_tree_from_file_bytes_def lift_failure_def open_tree_def new_tree_def
        from_root_hash_def comp_simps)
qed

end
