(* ===== verification/Sample_Files.thy ===== *)
theory Sample_Files
  imports File_IO Sample_Extern
begin

text \<open>
  Concrete functions for the file format: big-endian numbers, a checksum that adds the bytes, a
  hash of 32 bytes and a text form of the metadata that keeps every field. They show that the
  hypotheses about other crates hold together and let a file be evaluated. They model no code.
\<close>

section \<open>Big-endian numbers\<close>

fun be_bytes :: "nat \<Rightarrow> nat \<Rightarrow> bytes" where
  "be_bytes 0 n = []"
| "be_bytes (Suc i) n = of_nat (n div 256 ^ i) # be_bytes i n"

definition be_value :: "bytes \<Rightarrow> nat" where
  "be_value b = foldl (\<lambda>acc x. acc * 256 + unat x) 0 b"

lemma length_be_bytes [simp]: "length (be_bytes i n) = i"
  by (induction i) auto

lemma be_value_bytes: "foldl (\<lambda>acc x. acc * 256 + unat x) acc (be_bytes i n) = acc * 256 ^ i + n mod 256 ^ i"
proof (induction i arbitrary: acc)
  case 0
  then show ?case by simp
next
  case (Suc i)
  have "unat (of_nat (n div 256 ^ i) :: u8) = n div 256 ^ i mod 256"
    by (simp add: unat_of_nat take_bit_eq_mod)
  moreover have "n mod 256 ^ Suc i = 256 ^ i * (n div 256 ^ i mod 256) + n mod 256 ^ i"
    using mod_mult2_eq [of n "256 ^ i" 256] by (simp add: mult.commute)
  moreover have "(acc * 256 + a) * 256 ^ i + b = acc * 256 ^ Suc i + (256 ^ i * a + b)" for a b
    by (simp add: algebra_simps)
  ultimately show ?case
    by (simp only: be_bytes.simps list.map foldl.simps Suc)
qed

lemma be_value_small: "n < 256 ^ i \<Longrightarrow> be_value (be_bytes i n) = n"
  by (simp add: be_value_def be_value_bytes)

text \<open>The same on words, which evaluates fast.\<close>

definition be_word :: "nat \<Rightarrow> 'a::len word \<Rightarrow> bytes" where
  "be_word i w = map (\<lambda>j. ucast (drop_bit (8 * j) w)) (rev [0..<i])"

definition word_be :: "bytes \<Rightarrow> 'a::len word" where
  "word_be b = foldl (\<lambda>acc x. acc * 256 + ucast x) 0 b"

lemma be_word_bytes: "be_word i w = be_bytes i (unat w)"
proof (induction i)
  case 0
  then show ?case by (simp add: be_word_def)
next
  case (Suc i)
  have "unat w div 256 ^ i = unat (drop_bit (8 * i) w)"
    by (simp only: unat_drop_bit_eq drop_bit_eq_div [where 'a = nat] power_mult) simp
  then have "(of_nat (unat w div 256 ^ i) :: u8) = ucast (drop_bit (8 * i) w)"
    by simp
  with Suc show ?case by (simp add: be_word_def)
qed

lemma word_be_value: "word_be b = of_nat (be_value b)"
proof -
  have "foldl (\<lambda>acc x. acc * 256 + ucast x) (of_nat a) b =
      (of_nat (foldl (\<lambda>acc x. acc * 256 + unat x) a b) :: 'b::len word)" for a
  proof (induction b arbitrary: a)
    case Nil
    then show ?case by simp
  next
    case (Cons x b)
    from Cons [of "a * 256 + unat x"] show ?case by simp
  qed
  from this [of 0] show ?thesis by (simp add: word_be_def be_value_def)
qed

lemma word_be_word:
  assumes "unat w < 256 ^ i"
  shows "length (be_word i w) = i \<and> word_be (be_word i w) = w"
  using assms by (simp add: be_word_bytes word_be_value be_value_small)

section \<open>The metadata\<close>

definition put_string :: "string \<Rightarrow> bytes" where
  "put_string s = put_bytes (map (\<lambda>c. of_nat (of_char c)) s)"

definition get_string :: "bytes \<Rightarrow> (string \<times> bytes) option" where
  "get_string b = map_option (\<lambda>(s, r). (map (\<lambda>x. char_of (unat x)) s, r)) (get_bytes b)"

lemma get_put_string: "get_string (put_string s @ r) = Some (s, r)"
proof -
  have "char_of (unat (of_nat (of_char c :: nat) :: u8)) = c" for c
    by (simp add: unat_of_nat take_bit_eq_mod)
  then show ?thesis
    by (simp add: get_string_def put_string_def get_put_bytes comp_def)
qed

definition put_option :: "('a \<Rightarrow> bytes) \<Rightarrow> 'a option \<Rightarrow> bytes" where
  "put_option f x = (case x of None \<Rightarrow> [0] | Some y \<Rightarrow> 1 # f y)"

fun get_option :: "(bytes \<Rightarrow> ('a \<times> bytes) option) \<Rightarrow> bytes \<Rightarrow> ('a option \<times> bytes) option" where
  "get_option g [] = None"
| "get_option g (b # r) = (if b = 0 then Some (None, r) else map_option (\<lambda>(x, r). (Some x, r)) (g r))"

lemma get_put_option:
  "(\<And>y r. g (f y @ r) = Some (y, r)) \<Longrightarrow> get_option g (put_option f x @ r) = Some (x, r)"
  by (cases x) (simp_all add: put_option_def)

text \<open>The six numbers of a configuration and the number of bytes are one list of numbers.\<close>

definition put_numbers :: "tree_config \<Rightarrow> u64 \<Rightarrow> bytes" where
  "put_numbers c n = put_all put_nat [unat (target_fanout c), unat (min_fanout c), unat (cdc_min_size c),
     unat (cdc_avg_size c), unat (cdc_max_size c), unat (max_inline_value_size c), unat n]"

definition config_of :: "nat list \<Rightarrow> tree_config" where
  "config_of ns = \<lparr>target_fanout = of_nat (ns ! 0), min_fanout = of_nat (ns ! 1),
     cdc_min_size = of_nat (ns ! 2), cdc_avg_size = of_nat (ns ! 3), cdc_max_size = of_nat (ns ! 4),
     max_inline_value_size = of_nat (ns ! 5)\<rparr>"

definition put_metadata :: "metadata_content \<Rightarrow> bytes" where
  "put_metadata m = put_option put_bytes (md_root_hash m) @ put_string (created_at m)
     @ put_option put_string (description m)
     @ put_numbers (md_tree_config m) (total_chunk_data_bytes m)"

definition get_metadata :: "bytes \<Rightarrow> metadata_content option" where
  "get_metadata b = (case get_option get_bytes b of None \<Rightarrow> None
     | Some (root, b) \<Rightarrow> (case get_string b of None \<Rightarrow> None
       | Some (now, b) \<Rightarrow> (case get_option get_string b of None \<Rightarrow> None
         | Some (descr, b) \<Rightarrow> map_option (\<lambda>(ns, _). \<lparr>md_root_hash = root, md_tree_config = config_of ns,
             created_at = now, description = descr, total_chunk_data_bytes = of_nat (ns ! 6)\<rparr>)
             (get_all get_nat b))))"

lemma get_put_metadata: "get_metadata (put_metadata m) = Some m"
proof -
  have numbers: "get_all get_nat (put_numbers c n) = Some ([unat (target_fanout c), unat (min_fanout c),
      unat (cdc_min_size c), unat (cdc_avg_size c), unat (cdc_max_size c),
      unat (max_inline_value_size c), unat n], [])" for c n
    using get_put_all [of get_nat put_nat _ "[]"] unfolding put_numbers_def by (simp add: get_put_nat)
  show ?thesis
    by (simp add: get_metadata_def put_metadata_def get_put_option get_put_bytes get_put_string numbers
        config_of_def)
qed

section \<open>The functions together\<close>

definition sample_crc :: "bytes \<Rightarrow> u32" where
  "sample_crc b = foldl (\<lambda>acc x. acc + ucast x) 0 b"

definition sample_hash :: "bytes \<Rightarrow> hash" where
  "sample_hash b = take 32 (of_nat (length b) # foldl (\<lambda>acc x. acc * 3 + x) 0 b # b @ replicate 30 0)"

definition sample32 :: extern where
  "sample32 = sample\<lparr>blake3 := sample_hash\<rparr>"

definition sample_files :: file_extern where
  "sample_files = \<lparr>crc32 = sample_crc,
     be_put32 = be_word 4, be_get32 = word_be, be_put64 = be_word 8, be_get64 = word_be,
     json_to_vec = (\<lambda>m. Inr (put_metadata m)),
     json_from_slice = (\<lambda>b. case get_metadata b of None \<Rightarrow> Inl ''parse error'' | Some m \<Rightarrow> Inr m)\<rparr>"

lemma sample_byteorder_ok: "byteorder_ok sample_files"
proof -
  have "unat w < 256 ^ 4" for w :: u32
    using unsigned_less [of w, where 'a = nat] by simp
  moreover have "unat w < 256 ^ 8" for w :: u64
    using unsigned_less [of w, where 'a = nat] by simp
  ultimately show ?thesis
    by (simp add: byteorder_ok_def sample_files_def word_be_word)
qed

lemma sample_json_ok: "json_ok sample_files m"
  by (simp add: json_ok_def sample_files_def get_put_metadata)

lemma sample_hash_length: "length (blake3 sample32 b) = BLAKE3_CHECKSUM_SIZE"
  by (simp add: sample32_def sample_hash_def BLAKE3_CHECKSUM_SIZE_def)

lemma sample32_extern_ok: "extern_ok sample32 cfg"
proof -
  have "bincode_ok sample32 = bincode_ok sample" "fastcdc_ok sample32 = fastcdc_ok sample"
    "fastcdc_accepts sample32 cfg = fastcdc_accepts sample cfg"
    by (simp_all add: sample32_def bincode_ok_def fastcdc_ok_def fastcdc_accepts_def)
  with sample_extern_ok [of cfg] show ?thesis
    by (simp add: extern_ok_def)
qed

end
