(* ===== verification/File_Properties.thy ===== *)
theory File_Properties
  imports Sample_Files
begin

text \<open>The properties of the file format, each with a concrete instance.\<close>

section \<open>Round trip\<close>

text \<open>
  C24: What \<^verbatim>\<open>write_prly_tree_v2\<close> wrote, \<^verbatim>\<open>read_prly_tree_v2\<close> reads: the root hash, the
  configuration, the description and the same map of chunks, if the sizes fit a vector and the
  metadata survives \<^verbatim>\<open>serde_json\<close>.
\<close>

theorem file_round_trip:
  assumes "byteorder_ok F" "\<forall>b. length (blake3 E b) = BLAKE3_CHECKSUM_SIZE"
    and "json_ok F (written_metadata now root cfg cs descr)"
    and "write_prly_tree_v2 E F now root cfg cs descr = Inr file" "chunks_fit cs file"
  shows "\<exists>cs'. read_prly_tree_v2 E F file = Inr (root, cfg, cs', descr)
    \<and> map_of cs' = map_of cs \<and> distinct (map fst cs')"
  by (rule file_read_back [OF assms])

definition sample_chunks :: "(hash \<times> bytes) list" where
  "sample_chunks = map (\<lambda>b. (sample_hash b, b)) [[1, 2, 3], [], [4, 5]]"

definition sample_file :: bytes where
  "sample_file = layout sample32 sample_files sample_chunks
     (put_metadata (written_metadata ''now'' (Some (sample_hash [])) sample_config sample_chunks (Some ''d'')))"

lemma sample_file_written:
  "write_prly_tree_v2 sample32 sample_files ''now'' (Some (sample_hash [])) sample_config sample_chunks
     (Some ''d'') = Inr sample_file"
  unfolding sample_file_def
  by (rule write_layout [OF sample_byteorder_ok]) (simp add: sample_files_def written_metadata_def)

lemma sample_chunks_fit: "chunks_fit sample_chunks sample_file"
proof -
  have "length sample_file \<le> 400" "length sample_chunks \<le> 3"
    "distinct (map fst sample_chunks) \<and> (\<forall>c\<in>set sample_chunks. length (fst c) = CHUNK_HASH_SIZE)"
    by code_simp+
  then show ?thesis by (simp add: chunks_fit_def)
qed

theorem file_round_trip_witness:
  "\<exists>cs'. read_prly_tree_v2 sample32 sample_files sample_file =
      Inr (Some (sample_hash []), sample_config, cs', Some ''d'')
    \<and> map_of cs' = map_of sample_chunks \<and> distinct (map fst cs')"
  by (rule file_round_trip [OF sample_byteorder_ok _ sample_json_ok sample_file_written sample_chunks_fit])
    (simp add: sample_hash_length)

section \<open>What the reader refuses\<close>







text \<open>
  A file that is too short, has another signature or another version is refused with the error
  that says so, before anything else is read.
\<close>

theorem file_header_refused:
  "(length file < header_size \<longrightarrow> read_prly_tree_v2 E F file =
      Inl (Err (InvalidFileFormat ''Failed to read header: failed to fill whole buffer'')))
   \<and> (header_size \<le> length file \<and> take 8 file \<noteq> FILE_SIGNATURE_V2 \<longrightarrow>
      read_prly_tree_v2 E F file = Inl (Err (InvalidFileFormat ''Invalid signature'')))
   \<and> (header_size \<le> length file \<and> take 8 file = FILE_SIGNATURE_V2 \<and> file ! 8 \<noteq> FORMAT_VERSION_V2 \<longrightarrow>
      read_prly_tree_v2 E F file =
        Inl (Err (InvalidFileFormat (''Unsupported version: '' @ show_nat (unat (file ! 8))))))"
  by (simp add: read_header_rejects)

theorem file_header_refused_witness:
  "read_prly_tree_v2 sample32 sample_files (FILE_SIGNATURE_V2 @ [13] @ replicate 41 0) =
    Inl (Err (InvalidFileFormat ''Unsupported version: 13''))"
proof -
  have "show_nat 13 = ''13''" by code_simp
  then show ?thesis
    using file_header_refused [of "FILE_SIGNATURE_V2 @ [13] @ replicate 41 0" sample32 sample_files]
    by (simp add: header_size_def FILE_SIGNATURE_V2_def FORMAT_VERSION_V2_def)
qed

end
