(* ===== verification/Hierarchy_Walk.thy ===== *)
theory Hierarchy_Walk
  imports Hierarchy
begin

text \<open>
  What the hierarchy cursor yields: the nodes of the tree in preorder, each followed by its entries
  and then by its subtrees (\<open>outline\<close>); the cursor as an instance of the iterator contract.
\<close>

section \<open>The walk as a list\<close>

definition stored_node :: "extern \<Rightarrow> store \<Rightarrow> hash \<Rightarrow> node option" where
  "stored_node E s h = (case chunk_at s h of None \<Rightarrow> None | Some b \<Rightarrow> bincode_deserialize E b)"

fun value_summary :: "store \<Rightarrow> value_repr \<Rightarrow> string \<times> hash option \<times> u64" where
  "value_summary s (Inline v) = (''Inline'', None, of_nat (length v))"
| "value_summary s (Chunked h) = (''Chunked'', Some h, case chunk_at s h of None \<Rightarrow> 0 | Some d \<Rightarrow> of_nat (length d))"
| "value_summary s (ChunkedSequence hs n) = (''ChunkedSequence'', if hs = [] then None else Some (hd hs), n)"

fun leaf_item :: "store \<Rightarrow> hash \<Rightarrow> nat \<times> leaf_entry \<Rightarrow> hierarchy_item" where
  "leaf_item s h (i, e) = (case value_summary s (le_value e) of (ty, vh, sz) \<Rightarrow> LeafEntryItem h i (le_key e) ty vh sz)"

fun child_item :: "hash \<Rightarrow> nat \<times> internal_entry \<Rightarrow> hierarchy_item" where
  "child_item h (i, c) = InternalEntryItem h i (boundary_key c) (child_hash c) (num_items_subtree c)"

fun entry_items :: "store \<Rightarrow> hash \<Rightarrow> node \<Rightarrow> hierarchy_item list" where
  "entry_items s h (Leaf _ es) = map (leaf_item s h) (enumerate 0 es)"
| "entry_items s h (Internal _ cs) = map (child_item h) (enumerate 0 cs)"

fun node_item :: "hash \<Rightarrow> nat list \<Rightarrow> node \<Rightarrow> hierarchy_item" where
  "node_item h p (Leaf l es) = NodeItem h l True (length es) p"
| "node_item h p (Internal l cs) = NodeItem h l False (length cs) p"

text \<open>The walk below the node with the hash \<open>h\<close>, whose height is \<open>n\<close>.\<close>

fun outline :: "extern \<Rightarrow> store \<Rightarrow> hierarchy_scan_args \<Rightarrow> nat \<Rightarrow> nat \<Rightarrow> nat list \<Rightarrow> hash \<Rightarrow> hierarchy_item list" where
  "outline E s args 0 d p h = (case stored_node E s h of None \<Rightarrow> []
     | Some nd \<Rightarrow> node_item h p nd # entry_items s h nd)"
| "outline E s args (Suc n) d p h = (case stored_node E s h of None \<Rightarrow> []
     | Some nd \<Rightarrow> node_item h p nd # entry_items s h nd @ (case nd of
         Leaf _ _ \<Rightarrow> []
       | Internal _ cs \<Rightarrow> if deeper args d
           then concat (map (\<lambda>(i, c). outline E s args n (Suc d) (p @ [i]) (child_hash c)) (enumerate 0 cs))
           else []))"

definition tree_outline :: "extern \<Rightarrow> store \<Rightarrow> hierarchy_scan_args \<Rightarrow> tree \<Rightarrow> nat \<Rightarrow> hierarchy_item list" where
  "tree_outline E s args t n = (case root_hash t of None \<Rightarrow> [] | Some h \<Rightarrow> outline E s args n 0 [] h)"

section \<open>What the cursor has still to yield\<close>

definition pending :: "extern \<Rightarrow> store \<Rightarrow> hierarchy_scan_args \<Rightarrow> hash \<times> nat \<times> nat list \<Rightarrow> hierarchy_item list \<Rightarrow> bool" where
  "pending E s args q ys \<longleftrightarrow> (case q of (h, d, p) \<Rightarrow> \<not> too_deep args d
     \<and> (\<exists>n lo hi b nd es. stored E s h nd \<and> node_at E lo hi s b n nd es \<and> ys = outline E s args n d p h))"

definition hier_holds :: "extern \<Rightarrow> store \<Rightarrow> hierarchy_cursor \<Rightarrow> hierarchy_item list \<Rightarrow> bool" where
  "hier_holds E s c xs \<longleftrightarrow> bincode_ok E \<and> (\<exists>front yss. xs = front @ concat yss
     \<and> list_all2 (pending E s (hc_args c)) (traversal_queue c) yss
     \<and> (current_node_entries_queue c = [] \<and> front = []
        \<or> (\<exists>h nd i ty. current_node_entries_queue c = [(h, nd, i, ty)] \<and> front = drop i (entry_items s h nd))))"

lemma stored_node_stored: "bincode_ok E \<Longrightarrow> stored E s h nd \<Longrightarrow> stored_node E s h = Some nd"
  by (auto simp: stored_def stored_node_def bincode_ok_def) (metis option.inject)

lemma value_info_at: "value_info r s = (Inr (value_summary s r), s)"
  by (cases r) (auto simp: comp_simps get_def split: list.splits)

lemma length_entry_items: "length (entry_items s h nd) = num_entries nd"
  by (cases nd) simp_all

lemma entry_item_at:
  "entry_item h nd i s = (Inr (if i < num_entries nd then Some (entry_items s h nd ! i) else None), s)"
  by (cases nd) (auto simp: entry_item_def comp_simps value_info_at nth_enumerate_eq split: prod.splits)

lemma push_children_map:
  "push_children d p cs q = map (\<lambda>(i, c). (child_hash c, Suc d, p @ [i])) (enumerate 0 cs) @ q"
proof -
  have "foldr (\<lambda>(i, c) q. (child_hash c, Suc d, p @ [i]) # q) ics q
      = map (\<lambda>(i, c). (child_hash c, Suc d, p @ [i])) ics @ q" for ics :: "(nat \<times> internal_entry) list"
    by (induction ics) auto
  then show ?thesis by (simp add: push_children_def foldr_conv_fold)
qed

lemma children_pending:
  assumes "children_at E lo hi s n cs ess" "deeper args d"
  shows "list_all2 (pending E s args) (map (\<lambda>(i, c). (child_hash c, Suc d, p @ [i])) (enumerate k cs))
    (map (\<lambda>(i, c). outline E s args n (Suc d) (p @ [i]) (child_hash c)) (enumerate k cs))"
  using assms(1)
proof (induction cs ess arbitrary: k rule: list_all2_induct)
  case Nil
  then show ?case by simp
next
  case (Cons c cs es ess)
  have "\<not> too_deep args (Suc d)"
    using assms(2) by (auto simp: deeper_def too_deep_def split: option.splits)
  moreover from Cons.hyps(1) obtain nd where "stored E s (child_hash c) nd" "node_at E lo hi s lo n nd es"
    by (auto simp: child_at_def)
  ultimately have "pending E s args (child_hash c, Suc d, p @ [k]) (outline E s args n (Suc d) (p @ [k]) (child_hash c))"
    unfolding pending_def prod.case by blast
  with Cons.IH [of "Suc k"] show ?case by simp
qed

text \<open>Taking a node off the queue puts its entries and its children in front.\<close>

lemma pending_node:
  assumes "bincode_ok E" "pending E s args (h, d, p) ys"
  obtains nd zss where "stored E s h nd" "\<not> too_deep args d" "ys = node_item h p nd # entry_items s h nd @ concat zss"
    "list_all2 (pending E s args)
       (case nd of Internal _ cs \<Rightarrow> if deeper args d then push_children d p cs [] else [] | Leaf _ _ \<Rightarrow> []) zss"
proof -
  from assms(2) obtain n lo hi b nd es where nd: "stored E s h nd" "node_at E lo hi s b n nd es"
    "ys = outline E s args n d p h" "\<not> too_deep args d"
    by (auto simp: pending_def)
  note st = stored_node_stored [OF assms(1) nd(1)]
  show thesis
  proof (cases n)
    case 0
    with nd(2) have "nd = Leaf 0 es" by simp
    with nd st 0 show thesis by (intro that [of nd "[]"]) simp_all
  next
    case (Suc m)
    with nd(2) obtain cs ess where cs: "nd = Internal (of_nat (Suc m)) cs" "children_at E lo hi s m cs ess"
      by (auto simp: node_at_Suc)
    show thesis
    proof (cases "deeper args d")
      case True
      with nd st Suc cs(1) children_pending [OF cs(2) True, of p 0] show thesis
        by (intro that [of nd "map (\<lambda>(i, c). outline E s args m (Suc d) (p @ [i]) (child_hash c)) (enumerate 0 cs)"])
          (simp_all add: push_children_map)
    next
      case False
      with nd st Suc cs(1) show thesis by (intro that [of nd "[]"]) simp_all
    qed
  qed
qed

section \<open>One step\<close>

lemma read_hier_apply [comp_simps]: "read_hier (c, s) = (Inr c, (c, s))"
  by (simp add: read_hier_def)

lemma set_entries_apply [comp_simps]: "set_entries q (c, s) = (Inr (), (c\<lparr>current_node_entries_queue := q\<rparr>, s))"
  by (simp add: set_entries_def)

lemma set_traversal_apply [comp_simps]: "set_traversal q (c, s) = (Inr (), (c\<lparr>traversal_queue := q\<rparr>, s))"
  by (simp add: set_traversal_def)

lemma hier_load_node_at: "bincode_ok E \<Longrightarrow> stored E s h nd \<Longrightarrow> hier_load_node E h s = (Inr nd, s)"
  using load_node_stored [of E Async s h nd] by (simp add: hier_load_node_def load_node_def avail_def)

lemma next_entry_at:
  "next_entry (c, s) = (case current_node_entries_queue c of
     [] \<Rightarrow> (Inr None, (c, s))
   | (h, nd, i, ty) # rest \<Rightarrow>
       if i < num_entries nd
       then (Inr (Some (entry_items s h nd ! i)), (c\<lparr>current_node_entries_queue := (h, nd, Suc i, ty) # rest\<rparr>, s))
       else (Inr None, (c\<lparr>current_node_entries_queue := rest\<rparr>, s)))"
  by (auto simp: next_entry_def comp_simps entry_item_at split: list.splits)

text \<open>With no entries left to list, the next node of the queue is taken.\<close>

lemma next_item_node:
  assumes "bincode_ok E" "list_all2 (pending E s (hc_args c)) (traversal_queue c) yss"
    and "next_entry (c, s) = (Inr None, (c\<lparr>current_node_entries_queue := []\<rparr>, s))"
  shows "\<exists>c'. next_item E (Suc fuel) (c, s) = (Inr (case concat yss of [] \<Rightarrow> None | x # _ \<Rightarrow> Some x), (c', s))
    \<and> hier_holds E s c' (tl (concat yss))"
proof (cases "traversal_queue c")
  case Nil
  with assms show ?thesis
    by (intro exI [of _ "c\<lparr>current_node_entries_queue := []\<rparr>"]) (auto simp: comp_simps hier_holds_def)
next
  case (Cons q rest)
  obtain h d p where q: "q = (h, d, p)" by (cases q)
  from assms(2) Cons obtain ys yss' where ys: "yss = ys # yss'" "pending E s (hc_args c) (h, d, p) ys"
    "list_all2 (pending E s (hc_args c)) rest yss'"
    by (auto simp: list_all2_Cons1 q)
  obtain nd zss where nd: "stored E s h nd" "\<not> too_deep (hc_args c) d"
    "ys = node_item h p nd # entry_items s h nd @ concat zss"
    "list_all2 (pending E s (hc_args c))
       (case nd of Internal _ cs \<Rightarrow> if deeper (hc_args c) d then push_children d p cs [] else [] | Leaf _ _ \<Rightarrow> []) zss"
    by (rule pending_node [OF assms(1) ys(2)])
  let ?front = "case nd of Internal _ cs \<Rightarrow> if deeper (hc_args c) d then push_children d p cs [] else [] | Leaf _ _ \<Rightarrow> []"
  let ?entries = "if 0 < num_entries nd then [(h, nd, 0, case nd of Leaf _ _ \<Rightarrow> 1 | Internal _ _ \<Rightarrow> 0)] else []"
  let ?c = "c\<lparr>current_node_entries_queue := ?entries, traversal_queue := ?front @ rest\<rparr>"
  have "next_item E (Suc fuel) (c, s) = (Inr (Some (node_item h p nd)), (?c, s))"
    using assms(3) nd(2) Cons
    by (cases nd) (auto simp: comp_simps q hier_load_node_at [OF assms(1) nd(1)] push_children_map Let_def)
  moreover have "hier_holds E s ?c (entry_items s h nd @ concat (zss @ yss'))"
    unfolding hier_holds_def
  proof (intro conjI exI)
    show "list_all2 (pending E s (hc_args ?c)) (traversal_queue ?c) (zss @ yss')"
      using nd(4) ys(3) by (simp add: list_all2_appendI)
    show "current_node_entries_queue ?c = [] \<and> entry_items s h nd = []
      \<or> (\<exists>h' nd' i ty. current_node_entries_queue ?c = [(h', nd', i, ty)] \<and> entry_items s h nd = drop i (entry_items s h' nd'))"
      using length_entry_items [of s h nd] by auto
  qed (use assms(1) in auto)
  ultimately show ?thesis using ys(1) nd(3) by auto
qed

lemma next_item_at:
  assumes "hier_holds E s c xs"
  shows "\<exists>c'. next_item E (Suc fuel) (c, s) = (Inr (case xs of [] \<Rightarrow> None | x # _ \<Rightarrow> Some x), (c', s))
    \<and> hier_holds E s c' (tl xs)"
proof -
  from assms obtain front yss where xs: "bincode_ok E" "xs = front @ concat yss"
    "list_all2 (pending E s (hc_args c)) (traversal_queue c) yss"
    "current_node_entries_queue c = [] \<and> front = []
        \<or> (\<exists>h nd i ty. current_node_entries_queue c = [(h, nd, i, ty)] \<and> front = drop i (entry_items s h nd))"
    by (auto simp: hier_holds_def)
  show ?thesis
  proof (cases front)
    case Nil
    have "next_entry (c, s) = (Inr None, (c\<lparr>current_node_entries_queue := []\<rparr>, s))"
      using xs(4) Nil length_entry_items by (auto simp: next_entry_at)
    from next_item_node [OF xs(1,3) this, of fuel] Nil xs(2) show ?thesis by simp
  next
    case (Cons x front')
    with xs(4) obtain h nd i ty where q: "current_node_entries_queue c = [(h, nd, i, ty)]"
      "front = drop i (entry_items s h nd)" by auto
    have i: "i < num_entries nd" using Cons q(2) length_entry_items [of s h nd] by (metis drop_eq_Nil list.distinct(1) not_le)
    then have drop: "drop i (entry_items s h nd) = entry_items s h nd ! i # drop (Suc i) (entry_items s h nd)"
      by (simp add: Cons_nth_drop_Suc length_entry_items)
    let ?c = "c\<lparr>current_node_entries_queue := [(h, nd, Suc i, ty)]\<rparr>"
    have "hier_holds E s ?c (drop (Suc i) (entry_items s h nd) @ concat yss)"
      unfolding hier_holds_def using xs(1,3) by auto
    moreover have "next_item E (Suc fuel) (c, s) = (Inr (Some x), (?c, s))"
      using i q drop Cons by (simp add: comp_simps next_entry_at)
    ultimately show ?thesis using Cons xs(2) q(2) drop by auto
  qed
qed

interpretation hier: store_iterator "next_item E (Suc fuel)" "hier_holds E" for E fuel
proof unfold_locales
  show "\<exists>c'. next_item E (Suc fuel) (c, s) = (Inr None, (c', s)) \<and> hier_holds E s c' []"
    if "hier_holds E s c []" for s c
    using next_item_at [OF that] by simp
  show "\<exists>c'. next_item E (Suc fuel) (c, s) = (Inr (Some x), (c', s)) \<and> hier_holds E s c' xs"
    if "hier_holds E s c (x # xs)" for s c x xs
    using next_item_at [OF that] by simp
qed

declare next_item.simps(2) [simp del]

end
