(* ===== verification/Hierarchy_Properties.thy ===== *)
theory Hierarchy_Properties
  imports Hierarchy_Walk Scan_Properties
begin

text \<open>
  The properties of the hierarchy scan: the page it returns, and what the walk lists.
\<close>

section \<open>The loops of a page\<close>

lemma hier_skip_at:
  "hier_holds E s c xs \<Longrightarrow> \<exists>c'. hier_skip E (Suc fuel) n (c, s) = (Inr (unat n \<le> length xs), (c', s))
    \<and> (unat n \<le> length xs \<longrightarrow> hier_holds E s c' (drop (unat n) xs))"
proof (induction xs arbitrary: c n)
  case Nil
  show ?case
  proof (cases "n = 0")
    case True
    with Nil show ?thesis by (auto simp: hier_skip.simps [of _ _ 0] comp_simps)
  next
    case False
    with hier.advance_Nil [OF Nil, of fuel] show ?thesis
      by (auto simp: hier_skip.simps [of _ _ n] comp_simps unat_eq_0)
  qed
next
  case (Cons x xs)
  show ?case
  proof (cases "n = 0")
    case True
    with Cons.prems show ?thesis by (auto simp: hier_skip.simps [of _ _ 0] comp_simps)
  next
    case False
    then have n: "unat n = Suc (unat (n - 1))" using unat_pred [OF False] unat_gt_0 [of n] by simp
    from hier.advance_Cons [OF Cons.prems, of fuel] obtain c1 where
      c1: "next_item E (Suc fuel) (c, s) = (Inr (Some x), (c1, s))" "hier_holds E s c1 xs" by blast
    from Cons.IH [OF c1(2), of "n - 1"] c1(1) False n show ?thesis
      by (auto simp: hier_skip.simps [of _ _ n] comp_simps)
  qed
qed

lemma hier_collect_at:
  "hier_holds E s c xs \<Longrightarrow> length xs < unat n \<or> unat lim < unat n + length acc \<Longrightarrow> length acc \<le> unat lim \<Longrightarrow>
   \<exists>c'. hier_collect E (Suc fuel) lim n acc (c, s)
     = (Inr (acc @ take (unat lim - length acc) xs, unat lim - length acc < length xs), (c', s))"
proof (induction xs arbitrary: c n acc)
  case Nil
  then have "n \<noteq> 0" by auto
  with hier.advance_Nil [OF Nil.prems(1), of fuel] show ?case
    by (auto simp: hier_collect.simps [of _ _ _ n] comp_simps)
next
  case (Cons x xs)
  then have "n \<noteq> 0" by auto
  then have n: "unat n = Suc (unat (n - 1))" using unat_pred unat_gt_0 [of n] by simp
  from hier.advance_Cons [OF Cons.prems(1), of fuel] obtain c1 where
    c1: "next_item E (Suc fuel) (c, s) = (Inr (Some x), (c1, s))" "hier_holds E s c1 xs" by blast
  show ?case
  proof (cases "length acc < unat lim")
    case True
    then have l: "unat lim - length acc = Suc (unat lim - length (acc @ [x]))" by simp
    have "length xs < unat (n - 1) \<or> unat lim < unat (n - 1) + length (acc @ [x])"
      using Cons.prems(2) n by auto
    from Cons.IH [OF c1(2) this] True obtain c' where "hier_collect E (Suc fuel) lim (n - 1) (acc @ [x]) (c1, s)
      = (Inr ((acc @ [x]) @ take (unat lim - length (acc @ [x])) xs, unat lim - length (acc @ [x]) < length xs), (c', s))"
      by auto
    with c1(1) \<open>n \<noteq> 0\<close> True l show ?thesis
      by (simp add: hier_collect.simps [of _ _ _ n] comp_simps)
  next
    case False
    with c1(1) \<open>n \<noteq> 0\<close> Cons.prems(3) show ?thesis
      by (simp add: hier_collect.simps [of _ _ _ n] comp_simps)
  qed
qed

section \<open>The page\<close>

definition hs_skipped :: "hierarchy_scan_args \<Rightarrow> nat" where
  "hs_skipped args = (case hs_offset args of None \<Rightarrow> 0 | Some n \<Rightarrow> unat n)"

definition walk_page :: "hierarchy_scan_args \<Rightarrow> hierarchy_item list \<Rightarrow> hierarchy_page" where
  "walk_page args xs = (let ys = drop (hs_skipped args) xs;
       l = unat (case hs_limit args of None \<Rightarrow> - 1 | Some l \<Rightarrow> l) in
     \<lparr>hs_items = take l ys, hs_has_next_page = (l < length ys), next_page_cursor_token = None\<rparr>)"

lemma new_hier_holds:
  assumes "bincode_ok E" "tree_at E s t n es"
  shows "\<exists>c. new_for_hierarchy_scan t args s = (Inr c, s) \<and> hier_holds E s c (tree_outline E s args t n)"
proof (cases "root_hash t")
  case None
  then show ?thesis
    using assms(1) by (auto simp: new_for_hierarchy_scan_def comp_simps hier_holds_def tree_outline_def)
next
  case (Some h)
  with assms(2) obtain nd lo hi b where "stored E s h nd" "node_at E lo hi s b n nd es"
    by (auto simp: tree_at_def root_at_def)
  moreover have "\<not> too_deep args 0" by (simp add: too_deep_def split: option.splits)
  ultimately have "pending E s args (h, 0, []) (outline E s args n 0 [] h)"
    unfolding pending_def prod.case by blast
  then show ?thesis
    using assms(1) Some unfolding new_for_hierarchy_scan_def hier_holds_def tree_outline_def
    by (intro exI [of _ "\<lparr>hc_args = args, traversal_queue = [(h, 0, [])], current_node_entries_queue = []\<rparr>"])
      (auto simp: comp_simps intro!: exI [of _ "[outline E s args n 0 [] h]"])
qed

lemma hierarchy_scan_at:
  assumes "bincode_ok E" "tree_at E s t n es" "length (tree_outline E s args t n) < 2 ^ 32 - 1"
  shows "hierarchy_scan E (Suc f) t args s = (Inr (walk_page args (tree_outline E s args t n)), s)"
proof -
  let ?xs = "tree_outline E s args t n"
  let ?ys = "drop (hs_skipped args) ?xs"
  from new_hier_holds [OF assms(1,2), of args] obtain c where
    c: "new_for_hierarchy_scan t args s = (Inr c, s)" "hier_holds E s c ?xs" by blast
  let ?skip = "case hs_offset args of None \<Rightarrow> returnC True
      | Some offset_val \<Rightarrow> if 0 < offset_val then hier_skip E (Suc f) offset_val else returnC True"
  have skip: "\<exists>c1. ?skip (c, s) = (Inr (hs_skipped args \<le> length ?xs), (c1, s))
      \<and> (hs_skipped args \<le> length ?xs \<longrightarrow> hier_holds E s c1 ?ys)"
  proof (cases "hs_offset args")
    case None
    with c(2) show ?thesis by (auto simp: comp_simps hs_skipped_def)
  next
    case (Some m)
    with c(2) hier_skip_at [OF c(2), of f m] show ?thesis
      by (cases "m = 0") (auto simp: comp_simps hs_skipped_def word_gt_0)
  qed
  then obtain c1 where c1: "?skip (c, s) = (Inr (hs_skipped args \<le> length ?xs), (c1, s))"
    "hs_skipped args \<le> length ?xs \<Longrightarrow> hier_holds E s c1 ?ys" by blast
  show ?thesis
  proof (cases "hs_skipped args \<le> length ?xs")
    case False
    with c(1) c1(1) show ?thesis by (simp add: hierarchy_scan_def comp_simps run_cursor_def walk_page_def)
  next
    case True
    note holds = c1(2) [OF True]
    show ?thesis
    proof (cases "hs_limit args = Some 0")
      case lim: True
      have "\<exists>c2. next_item E (Suc f) (c1, s) = (Inr (case ?ys of [] \<Rightarrow> None | x # _ \<Rightarrow> Some x), (c2, s))"
        using next_item_at [OF holds, of f] by blast
      then obtain c2 where "next_item E (Suc f) (c1, s) = (Inr (case ?ys of [] \<Rightarrow> None | x # _ \<Rightarrow> Some x), (c2, s))" ..
      with c(1) c1(1) True lim show ?thesis
        by (cases ?ys) (simp_all add: hierarchy_scan_def comp_simps run_cursor_def walk_page_def)
    next
      case lim: False
      let ?l = "case hs_limit args of None \<Rightarrow> - 1 | Some l \<Rightarrow> l"
      let ?n = "if ?l = - 1 then - 1 else ?l + 1"
      have "length ?ys < unat ?n \<or> unat ?l < unat ?n + length []"
        using assms(3) unat_succ_usize [of ?l] unat_max_usize by auto
      from hier_collect_at [OF holds this, of f] c(1) c1(1) True lim show ?thesis
        by (auto simp: hierarchy_scan_def comp_simps run_cursor_def walk_page_def Let_def)
    qed
  qed
qed

section \<open>The properties\<close>

lemma deeper_start_key [simp]: "deeper (args\<lparr>start_key := k\<rparr>) d = deeper args d"
  by (simp add: deeper_def)

lemma outline_start_key: "outline E s (args\<lparr>start_key := k\<rparr>) n d p h = outline E s args n d p h"
proof (induction n arbitrary: d p h)
  case 0
  show ?case by simp
next
  case (Suc n)
  show ?case by (simp add: Suc.IH cong: option.case_cong node.case_cong if_cong)
qed

text \<open>
  C36: The hierarchy scan returns the page that the offset and the limit cut out of the walk: the
  nodes in preorder down to the greatest depth, each followed by its entries and then its subtrees.
  The key to start from, which the arguments offer, has no effect.
\<close>

theorem hierarchy_scan_page:
  assumes "bincode_ok E" "tree_at E s t n es" "0 < fuel" "length (tree_outline E s args t n) < 2 ^ 32 - 1"
  shows "hierarchy_scan E fuel t (args\<lparr>start_key := k\<rparr>) s = (Inr (walk_page args (tree_outline E s args t n)), s)"
proof -
  have same: "tree_outline E s (args\<lparr>start_key := k\<rparr>) t n = tree_outline E s args t n"
    by (cases "root_hash t") (simp_all add: tree_outline_def outline_start_key)
  have "walk_page (args\<lparr>start_key := k\<rparr>) xs = walk_page args xs" for xs
    by (simp add: walk_page_def hs_skipped_def)
  with hierarchy_scan_at [OF assms(1,2), of "args\<lparr>start_key := k\<rparr>" "fuel - 1"] assms(3,4) same show ?thesis
    by simp
qed

definition top_of_tree :: hierarchy_scan_args where
  "top_of_tree = \<lparr>start_key = None, max_depth = Some 0, hs_limit = Some 2, hs_offset = Some 1\<rparr>"

definition two_leaf :: node where
  "two_leaf = Leaf 0 (sample_leaf [1, 2])"

definition two_tree :: tree where
  "two_tree = \<lparr>root_hash = Some (put_node two_leaf), config = sample_config\<rparr>"

lemma two_tree_at: "tree_at sample (sample_store [two_leaf]) two_tree 0 (sample_leaf [1, 2])"
proof -
  have "stored sample (sample_store [two_leaf]) (put_node two_leaf) two_leaf"
    by (rule sample_stored) simp
  moreover have "store_ok sample (sample_store [two_leaf])"
    by (rule sample_store_ok) simp
  moreover have "sorted_keys (sample_leaf [1, 2])"
    unfolding sample_leaf_sorted by code_simp
  ultimately show ?thesis
    by (auto simp: tree_at_def root_at_def two_tree_def two_leaf_def config_valid_def sample_config_def
        sample_leaf_def values_ok_def)
qed

theorem hierarchy_scan_page_witness:
  "hierarchy_scan sample 1 two_tree (top_of_tree\<lparr>start_key := Some [9]\<rparr>) (sample_store [two_leaf]) =
    (Inr \<lparr>hs_items = [LeafEntryItem (put_node two_leaf) 0 [1] ''Inline'' None 1,
       LeafEntryItem (put_node two_leaf) 1 [2] ''Inline'' None 1],
       hs_has_next_page = False, next_page_cursor_token = None\<rparr>, sample_store [two_leaf])"
proof -
  let ?s = "sample_store [two_leaf]"
  have "stored_node sample ?s (put_node two_leaf) = Some two_leaf"
    by (rule stored_node_stored [OF sample_bincode_ok sample_stored]) simp
  then have walk: "tree_outline sample ?s top_of_tree two_tree 0 = [NodeItem (put_node two_leaf) 0 True 2 [],
      LeafEntryItem (put_node two_leaf) 0 [1] ''Inline'' None 1, LeafEntryItem (put_node two_leaf) 1 [2] ''Inline'' None 1]"
    by (simp add: tree_outline_def two_tree_def) (simp add: two_leaf_def sample_leaf_def)
  have "hierarchy_scan sample 1 two_tree (top_of_tree\<lparr>start_key := Some [9]\<rparr>) ?s =
      (Inr (walk_page top_of_tree (tree_outline sample ?s top_of_tree two_tree 0)), ?s)"
    by (rule hierarchy_scan_page [OF sample_bincode_ok two_tree_at]) (simp_all add: walk)
  then show ?thesis
    unfolding walk by (simp add: walk_page_def hs_skipped_def top_of_tree_def)
qed

text \<open>The keys a walk shows.\<close>

fun walk_keys :: "hierarchy_item list \<Rightarrow> key list" where
  "walk_keys [] = []"
| "walk_keys (LeafEntryItem _ _ k _ _ _ # xs) = k # walk_keys xs"
| "walk_keys (_ # xs) = walk_keys xs"

lemma walk_keys_append [simp]: "walk_keys (xs @ ys) = walk_keys xs @ walk_keys ys"
  by (induction xs rule: walk_keys.induct) simp_all

lemma walk_keys_node [simp]: "walk_keys (node_item h p nd # xs) = walk_keys xs"
  by (cases nd) simp_all






end
