(* ===== verification/Session_Properties.thy ===== *)
theory Session_Properties
  imports Cursor_Snapshot Reload File_Properties Hierarchy_Properties
begin

text \<open>
  The properties of the exported object: what listeners hear and what they cannot do, the map it is to
  several callers, what a cursor reads while the tree changes, and the two ways in which a tree leaves
  the program and comes back.
\<close>

section \<open>Listeners\<close>


definition idle :: handler where
  "idle = (\<lambda>l d. returnC ())"










section \<open>A map with several callers\<close>

text \<open>
  C18: An object that several callers share answers like one map, whatever the order of events: a
  synchronous call while an asynchronous one holds the lock is refused and changes nothing, any other
  call takes effect once, asynchronous ones in the order in which they were made. What listeners call
  while they are notified makes no difference.
\<close>

theorem object_serializes:
  assumes "ptree_new options = Inr p0" "2 \<le> unat (min_fanout (config (inner_tree p0)))"
    and "unat (min_fanout (config (inner_tree p0))) < 2 ^ 31" "extern_ok E (config (inner_tree p0))"
    and "256 \<le> fuel" "length es < 2 ^ 255" "\<forall>e\<in>set es. event_ok e"
    and "steps E fuel (\<lambda>l d. run_script E fuel H (script l d)) es (p0\<lparr>listeners := ls\<rparr>, None, []) = (outs, (p, w, q))"
    and "collision_free E (inner_store p)"
  shows "\<exists>m. spec_steps es (Map.empty, None, []) = (outs, (m, w, q))"
proof -
  from simulates_new [OF assms(1,3,2,4-6)]
  have "simulates E fuel (0 + length es) (p0\<lparr>listeners := ls\<rparr>, None, []) (Map.empty, None, [])" by simp
  from steps_simulate [OF quiet_script this assms(7-9)] show ?thesis by blast
qed

definition shared_calls :: "event list" where
  "shared_calls = [CallAsync (InsertOp [1] [10]), CallAsync (DeleteOp [2]), CallSync (InsertOp [2] [20]), Acquire,
     CallSync (GetOp [1]), CallSync (DeleteOp [2]), Finish, Acquire, Finish, CallSync (GetOp [1]), CallSync (GetOp [2])]"

theorem object_serializes_witness:
  "fst (steps sample 256 (\<lambda>l d. run_script sample 256 idle [DeleteSync [1], OffChange l]) shared_calls
     ((wrap_tree sample_tree new_store)\<lparr>listeners := [7]\<rparr>, None, [])) =
   [Inr JsUndefined, Inl lock_busy, Inl would_block, Inr JsUndefined, Inr (JsBool True),
     Inr (JsUint8Array [10]), Inr JsNull]"
proof -
  let ?H = "\<lambda>l d. run_script sample 256 idle [DeleteSync [1], OffChange l]"
  let ?st = "((wrap_tree sample_tree new_store)\<lparr>listeners := [7]\<rparr>, None, [])"
  obtain outs p w q where run: "steps sample 256 ?H shared_calls ?st = (outs, (p, w, q))" by (metis surj_pair)
  have new: "ptree_new (Some (Inr sample_config)) = Inr (wrap_tree sample_tree new_store)"
    by (simp add: ptree_new_def sample_new_tree lift_failure_def) (simp add: sample_config_def word_less_nat_alt)
  have "\<exists>m. spec_steps shared_calls (Map.empty, None, []) = (outs, (m, w, q))"
    by (rule object_serializes [OF new _ _ _ _ _ _ run sample_collision_free])
      (simp_all add: sample_extern_ok shared_calls_def, simp_all add: wrap_tree_def sample_tree_def sample_config_def)
  then show ?thesis using run by (auto simp: shared_calls_def)
qed

section \<open>Cursors and changes\<close>



section \<open>Leaving and coming back\<close>

lemma ptree_get_at:
  assumes "bincode_ok E" "tree_at E (inner_store p) (inner_tree p) n es" "n < fuel"
  shows "fst (ptree_get E fuel k p) = Inr (js_bytes (entries_map (inner_store p) es k))"
proof -
  have "avail Async (inner_store p)" by (simp add: avail_def)
  from tree_get_at [OF assms(1) this assms(2,3)] show ?thesis
    by (simp add: ptree_get_def with_tree_def bindC_apply returnC_apply lift_failure_def)
qed

text \<open>
  C40: A tree saved with \<^verbatim>\<open>saveTreeToFileBytes\<close> and loaded with \<^verbatim>\<open>loadTreeFromFileBytes\<close> has the same root and
  configuration over the same chunks, is free, has no listeners, and answers every lookup alike.
\<close>

theorem save_then_load:
  assumes "byteorder_ok F" "bincode_ok E" "\<forall>b. length (blake3 E b) = 32"
    and "tree_at E (inner_store p) (inner_tree p) n es" "n < fuel"
    and "json_ok F (written_metadata now (root_hash (inner_tree p)) (config (inner_tree p))
           (chunks (inner_store p)) descr)"
    and "save_tree_to_file_bytes E F now descr p = (Inr bytes, p')"
    and "length (chunks (inner_store p)) \<le> 44739242" "length bytes < 2 ^ 31"
  shows "p' = p \<and> (\<exists>q. load_tree_from_file_bytes E F bytes = Inr q \<and> reloaded q p
    \<and> fst (ptree_get E fuel k q) = Inr (js_bytes (entries_map (inner_store p) es k)))"
proof -
  let ?t = "inner_tree p" and ?s = "inner_store p"
  have ok: "store_ok E ?s" using assms(4) by (simp add: tree_at_def)
  have saved: "p' = p" "write_prly_tree_v2 E F now (root_hash ?t) (config ?t) (chunks ?s) descr = Inr bytes"
    using assms(7) by (auto simp: save_tree_to_file_bytes_def comp_simps root_of_def get_root_hash_def with_tree_def
        get_all_chunks_def lift_failure_def lift_parse_def split: sum.splits)
  have "chunks_fit (chunks ?s) bytes"
    using assms(8,9) tree_root_width(2) [OF assms(3,4)] ok by (simp add: chunks_fit_def CHUNK_HASH_SIZE_def store_ok_def)
  moreover have "\<forall>b. length (blake3 E b) = BLAKE3_CHECKSUM_SIZE"
    using assms(3) by (simp add: BLAKE3_CHECKSUM_SIZE_def)
  ultimately obtain cs where cs: "read_prly_tree_v2 E F bytes = Inr (root_hash ?t, config ?t, cs, descr)"
    "map_of cs = chunk_at ?s" "distinct (map fst cs)"
    using file_read_back [OF assms(1) _ assms(6) saved(2)] by blast
  from load_chunks_reloaded [OF assms(2,4) cs(2,3)] obtain s where s:
    "put_chunks E cs new_store = (Inr (), s)" "open_tree E (root_hash ?t) (config ?t) s = Inr (wrap_tree ?t s)"
    "reloaded (wrap_tree ?t s) p" "tree_at E s ?t n es" "entries_map s es = entries_map ?s es" by blast
  have "tree_at E (inner_store (wrap_tree ?t s)) (inner_tree (wrap_tree ?t s)) n es"
    using s(4) by (simp add: wrap_tree_def)
  from ptree_get_at [OF assms(2) this assms(5)] s(5)
  have "fst (ptree_get E fuel k (wrap_tree ?t s)) = Inr (js_bytes (entries_map ?s es k))"
    by (simp add: wrap_tree_def)
  with saved(1) cs(1) s(1-3) show ?thesis
    by (simp add: load_tree_from_file_bytes_def lift_failure_def)
qed

definition saved_tree :: ptree where
  "saved_tree = wrap_tree \<lparr>root_hash = Some (sample_hash (put_node two_leaf)), config = sample_config\<rparr>
     \<lparr>chunks = [(sample_hash (put_node two_leaf), put_node two_leaf)], lock = Unlocked, history = {put_node two_leaf}\<rparr>"

definition saved_bytes :: bytes where
  "saved_bytes = layout sample32 sample_files (chunks (inner_store saved_tree))
     (put_metadata (written_metadata ''now'' (root_hash (inner_tree saved_tree)) sample_config
       (chunks (inner_store saved_tree)) None))"

lemma saved_tree_at: "tree_at sample32 (inner_store saved_tree) (inner_tree saved_tree) 0 (sample_leaf [1, 2])"
proof -
  have "sorted_keys (sample_leaf [1, 2])"
    unfolding sample_leaf_sorted by code_simp
  then show ?thesis
    by (auto simp: tree_at_def root_at_def saved_tree_def wrap_tree_def two_leaf_def config_valid_def sample_config_def
        sample_leaf_def values_ok_def stored_def store_ok_def sample32_def sample_def encode_def)
qed

lemma saved_tree_written:
  "save_tree_to_file_bytes sample32 sample_files ''now'' None saved_tree = (Inr saved_bytes, saved_tree)"
proof -
  have "write_prly_tree_v2 sample32 sample_files ''now'' (root_hash (inner_tree saved_tree)) (config (inner_tree saved_tree))
      (chunks (inner_store saved_tree)) None = Inr saved_bytes"
    unfolding saved_bytes_def
    by (rule write_layout [OF sample_byteorder_ok]) (simp add: sample_files_def written_metadata_def saved_tree_def wrap_tree_def)
  then show ?thesis
    by (simp add: save_tree_to_file_bytes_def comp_simps root_of_def get_root_hash_def with_tree_def
        get_all_chunks_def lift_failure_def lift_parse_def)
qed

theorem save_then_load_witness:
  "\<exists>q. load_tree_from_file_bytes sample32 sample_files saved_bytes = Inr q \<and> reloaded q saved_tree
     \<and> fst (ptree_get sample32 1 [2] q) = Inr (JsUint8Array [2])"
proof -
  have "length saved_bytes < 1000" "length (chunks (inner_store saved_tree)) = 1"
    "entries_map (inner_store saved_tree) (sample_leaf [1, 2]) [2] = Some [2]"
    by code_simp+
  then show ?thesis
    using save_then_load [OF sample_byteorder_ok _ _ saved_tree_at _ sample_json_ok saved_tree_written, of 1 "[2]"]
      sample32_extern_ok sample_hash_length
    by (simp add: extern_ok_def BLAKE3_CHECKSUM_SIZE_def)
qed

lemma exported: "export_chunks p = (Inr (chunks_js (chunks (inner_store p))), p)"
  by (simp add: export_chunks_def comp_simps with_tree_def get_all_chunks_def lift_failure_def)

text \<open>
  C23: A tree whose chunks were exported with \<^verbatim>\<open>exportChunks\<close> and loaded with \<^verbatim>\<open>load\<close>, with its root hash and
  configuration, is the same tree over the same chunks, free and without listeners, and answers every
  lookup alike. Exporting changes nothing.
\<close>

theorem export_then_load:
  assumes "bincode_ok E" "\<forall>b. length (blake3 E b) = 32"
    and "tree_at E (inner_store p) (inner_tree p) n es" "n < fuel"
    and "export_chunks p = (Inr m, p')"
  shows "p' = p \<and> (\<exists>q. ptree_load E (root_hash (inner_tree p)) m (Some (Inr (config (inner_tree p)))) = Inr q
    \<and> reloaded q p \<and> fst (ptree_get E fuel k q) = Inr (js_bytes (entries_map (inner_store p) es k)))"
proof -
  let ?t = "inner_tree p" and ?cs = "chunks (inner_store p)"
  have ok: "store_ok E (inner_store p)" and cfg: "\<not> config_rejected (config ?t)"
    using assms(3) by (simp_all add: tree_at_def config_not_rejected)
  have m: "m = chunks_js ?cs" "p' = p" using assms(5) by (auto simp: exported)
  have "distinct (map fst ?cs)" using ok by (simp add: store_ok_def)
  from from_js_map_chunks [OF tree_root_width(2) [OF assms(2,3)] this] obtain s where
    s: "from_js_map m = Inr s" "chunk_at s = chunk_at (inner_store p)" "distinct (map fst (chunks s))"
      "history s = set (map snd (chunks s))"
    unfolding m(1) by blast
  have "fst c = blake3 E (snd c)" if "c \<in> set (chunks s)" for c
  proof -
    have "chunk_at s (fst c) = Some (snd c)" using that s(3) by simp
    with s(2) store_okD [OF ok] show ?thesis by metis
  qed
  then have "store_ok E s" using s(3,4) by (force simp: store_ok_def)
  note at = tree_at_moved [OF s(2) this assms(3)]
  have load: "ptree_load E (root_hash ?t) m (Some (Inr (config ?t))) = Inr (wrap_tree ?t s)"
    using open_tree_at [OF assms(1) at(1)] tree_root_width(1) [OF assms(2,3)] cfg s(1) by (simp add: ptree_load_def)
  have "tree_at E (inner_store (wrap_tree ?t s)) (inner_tree (wrap_tree ?t s)) n es"
    using at(1) by (simp add: wrap_tree_def)
  from ptree_get_at [OF assms(1) this assms(4), of k] at(2)
  have "fst (ptree_get E fuel k (wrap_tree ?t s)) = Inr (js_bytes (entries_map (inner_store p) es k))"
    by (simp add: wrap_tree_def)
  moreover have "reloaded (wrap_tree ?t s) p" using s(2) by (simp add: reloaded_def wrap_tree_def)
  ultimately show ?thesis using load m(2) by blast
qed

theorem export_then_load_witness:
  "\<exists>q. ptree_load sample32 (root_hash (inner_tree saved_tree)) (chunks_js (chunks (inner_store saved_tree)))
      (Some (Inr (config (inner_tree saved_tree)))) = Inr q
    \<and> reloaded q saved_tree \<and> fst (ptree_get sample32 1 [3] q) = Inr JsNull"
proof -
  have "entries_map (inner_store saved_tree) (sample_leaf [1, 2]) [3] = None" by code_simp
  then show ?thesis
    using export_then_load [OF _ _ saved_tree_at _ exported, of 1 "[3]"] sample32_extern_ok sample_hash_length
    by (simp add: extern_ok_def BLAKE3_CHECKSUM_SIZE_def)
qed

end
