(* ===== verification/Spec2Isabelle.thy ===== *)
theory Spec2Isabelle
  imports Sample_Extern Tree_Modes Gc Diff Session_Properties
begin

text \<open>
  The prolly tree of the crate \<^verbatim>\<open>prolly-rust\<close>: a persistent, content-addressed search tree. This
  theory imports the rest of the library and holds the properties of the program (C1, C2, ...), each
  with a concrete instance of its hypotheses after it.

  \<^bold>\<open>The program.\<close> A tree (\<^verbatim>\<open>src/src/tree/prolly_tree.rs\<close>) is a root hash and a configuration; its
  nodes (\<^verbatim>\<open>node/definition.rs\<close>) are serialized with \<^verbatim>\<open>bincode\<close>, hashed with \<^verbatim>\<open>blake3\<close> and kept in a
  store of chunks behind the trait \<^verbatim>\<open>ChunkStore\<close> (\<^verbatim>\<open>store/chunk_store.rs\<close>, \<^verbatim>\<open>store/mem_store.rs\<close>).
  Insertion, removal and lookup descend by boundary keys (\<^verbatim>\<open>tree/core_logic.rs\<close>), write new nodes,
  split full ones, and borrow from or merge with a sibling on underflow (\<^verbatim>\<open>tree/modification.rs\<close>);
  node and value chunks are read and written through \<^verbatim>\<open>tree/io.rs\<close>, where long values are cut by
  \<^verbatim>\<open>fastcdc\<close>. Cursors (\<^verbatim>\<open>tree/cursor.rs\<close>, \<^verbatim>\<open>tree/hierarchy_cursor.rs\<close>) walk the leaves or all nodes; \<^verbatim>\<open>diff.rs\<close>
  compares two trees, \<^verbatim>\<open>gc.rs\<close> deletes the chunks no live root reaches, and a whole tree is saved to
  and loaded from one file (\<^verbatim>\<open>store/format_v2.rs\<close>, \<^verbatim>\<open>store/file_io_v2.rs\<close>). JavaScript sees the class \<^verbatim>\<open>PTree\<close>
  (\<^verbatim>\<open>lib.rs\<close>, \<^verbatim>\<open>wasm_bridge.rs\<close>): a tree behind a lock, with listeners that hear every change of the root.

  \<^bold>\<open>The theories\<close>, in the order they build on each other:
  \<^item> \<open>Prelude\<close>: machine types, computations that thread a state and may fail, vectors, the binary
    search of the standard library with its correctness.
  \<^item> \<open>Common\<close>: \<^verbatim>\<open>common.rs\<close>, \<^verbatim>\<open>error.rs\<close>, the check of a configuration.
  \<^item> \<open>Node\<close>: \<^verbatim>\<open>node/definition.rs\<close>, \<^verbatim>\<open>chunk.rs\<close>; the functions of other crates as the record
    \<open>extern\<close>; sorted association lists, the reference semantics of leaf entries.
  \<^item> \<open>Chunk_Store\<close>: the store, the trait as the locale \<open>chunk_store\<close> and its interpretation.
  \<^item> \<open>Tree_IO\<close>, \<open>Tree_Shape\<close>: \<^verbatim>\<open>tree/io.rs\<close>; well-formed subtrees (\<open>node_at\<close>) and the choice of a child.
  \<^item> \<open>Core_Get\<close>, \<open>Core_Insert\<close>, \<open>Modification\<close>, \<open>Core_Delete\<close>: \<^verbatim>\<open>tree/core_logic.rs\<close> and
    \<^verbatim>\<open>tree/modification.rs\<close>, each operation with what it does to a well-formed subtree.
  \<^item> \<open>Prolly_Tree\<close>, \<open>Tree_Map\<close>, \<open>Map_Contract\<close>: \<^verbatim>\<open>tree/prolly_tree.rs\<close>, its invariant \<open>tree_at\<close>, and the
    contract of a map (locale \<open>map_service\<close>) interpreted on the tree.
  \<^item> \<open>Tree_Modes\<close>: agreement of the asynchronous and synchronous operations, batches, versions, counts.
  \<^item> \<open>Diff\<close>, \<open>Gc\<close>: \<^verbatim>\<open>diff.rs\<close>, \<^verbatim>\<open>gc.rs\<close>.
  \<^item> \<open>File_Format\<close>, \<open>File_IO\<close>: the parts of a file with their readers, a whole file; the functions of other
    crates as the record \<open>file_extern\<close>. \<open>File_Properties\<close>: C24 to C26.
  \<^item> \<open>Cursor\<close>, \<open>Cursor_Path\<close>, \<open>Cursor_Iter\<close>, \<open>Cursor_Start\<close>, \<open>Cursor_Scan\<close>: \<^verbatim>\<open>tree/cursor.rs\<close>; a cursor as a position
    in the list of entries, the contract of an iterator (locale \<open>iterator\<close>), the constructors, bounds.
  \<^item> \<open>Range_Scan\<close>: \<^verbatim>\<open>scan\<close> and \<^verbatim>\<open>scan_sync\<close> with their pages, and what they are asked for. \<open>Scan_Properties\<close>: C28
    to C35.
  \<^item> \<open>Hierarchy\<close>, \<open>Hierarchy_Walk\<close>: \<^verbatim>\<open>tree/hierarchy_cursor.rs\<close> and the preorder walk it takes.
    \<open>Hierarchy_Properties\<close>: C36, C37.
  \<^item> \<open>Js_Values\<close>, \<open>Bindings\<close>: which JavaScript values are accepted and returned, and every method of \<^verbatim>\<open>PTree\<close> on
    the record \<open>ptree\<close> (the tree, its store, its lock, the listeners).
  \<^item> \<open>Session\<close>: synchronous calls between the start and the end of asynchronous ones, as a step relation;
    what a listener can do while it is notified. \<open>Object_Map\<close>: calls that wait for the lock, a map with a
    lock and a queue as their specification, and the simulation. \<open>Reload\<close>: a tree in another store with the
    same chunks. \<open>Cursor_Snapshot\<close>: a cursor in a store that grows. \<open>Session_Properties\<close>: C18, C23, C27,
    C38 to C40.
  \<^item> \<open>Sample_Extern\<close>, \<open>Sample_Files\<close>: concrete functions for the records of other crates' functions, used to
    evaluate concrete runs.

  \<^bold>\<open>State and effects.\<close> A \<^verbatim>\<open>Result\<close> with \<^verbatim>\<open>?\<close> is a computation over the store that returns an error on the
  left; chunks written before an error stay written. Every \<^verbatim>\<open>async fn\<close> and its \<^verbatim>\<open>_sync\<close> twin are one
  definition with the mode as an argument, as they differ only in the store functions they call; a
  synchronous call fails when the lock of the store is taken. The future of an asynchronous call is
  its result: no interleaving of two calls on one \<^verbatim>\<open>ProllyTree\<close> is possible, as the operations borrow the
  tree mutably. Calls on one \<^verbatim>\<open>PTree\<close> do interleave, and its lock decides: a call that changes the tree runs
  as one step while it holds the lock, between two events of a schedule. Reading through a \<^verbatim>\<open>PTreeCursor\<close>
  needs the store only. A panic of the module is the error \<open>Trap\<close> and leaves the lock taken.

  \<^bold>\<open>Fuel.\<close> The recursions of the code follow hashes through the store and have no bound of their own,
  so their definitions take fuel. The level of a node is a \<^verbatim>\<open>u8\<close> and equals its height, so 256 is
  enough; the theorems say that running out of fuel does not happen on a well-formed tree. The loops of
  a cursor and of a scan also take fuel: more than the height and than the number of entries is enough,
  and the theorems about iteration and pages say that they end with a result.

  \<^bold>\<open>Hypotheses.\<close> About other crates: \<^verbatim>\<open>bincode\<close> decodes what it encoded, \<^verbatim>\<open>fastcdc\<close> cuts the data into
  consecutive pieces. About hashing: no two of the strings the run itself stored collide
  (\<open>collision_free\<close>), which is weaker than injectivity of \<^verbatim>\<open>blake3\<close>; a hash has 32 bytes.
  About files: \<^verbatim>\<open>byteorder\<close> and \<^verbatim>\<open>serde_json\<close> read what they wrote. About the configuration: the
  check of the code, and \<^verbatim>\<open>min_fanout\<close> below \<open>2 ^ 31\<close>, where its product does not wrap around.

  \<^bold>\<open>Not modelled.\<close> How \<^verbatim>\<open>serde_wasm_bindgen\<close> parses option objects (their result is an argument), promises as
  objects, exceptions a JavaScript iterator throws, console output, the text of error messages; \<^verbatim>\<open>events.ts\<close>
  and the other TypeScript, build scripts, tests and benchmarks.
\<close>

section \<open>The tree is a map\<close>

text \<open>
  C1: From an empty tree with a valid configuration, any sequence of insertions, deletions and
  lookups, run through \<^verbatim>\<open>ProllyTree\<close> in either mode, gives exactly the answers a map gives, unless
  two different chunks of the run have the same hash. 256 is fuel enough, because with
  \<^verbatim>\<open>min_fanout\<close> at least 2 the tree cannot become higher.
\<close>

theorem tree_implements_map:
  assumes "new_tree cfg = Inr t" "2 \<le> unat (min_fanout cfg)" "unat (min_fanout cfg) < 2 ^ 31"
    and "extern_ok E cfg" "store_ok E s" "avail md s" "256 \<le> fuel"
    and "length ops < 2 ^ 255" "\<forall>x\<in>set ops. op_ok x"
    and "tree_ops E md fuel ops (t, s) = (r, st')" "collision_free E (snd st')"
  shows "r = Inr (fst (spec_ops ops Map.empty))"
proof -
  have "room cfg 0 0 (0 + length ops)"
    using assms(2,8) by (simp add: room_def)
  from tree_holds_new [OF assms(1,3-7) this]
  have "tree_holds E md fuel (0 + length ops) (t, s) Map.empty" .
  from tree_ops_spec [OF this assms(9,10,11)] show ?thesis by blast
qed

theorem tree_implements_map_witness:
  "fst (tree_ops sample Async 256
      [InsertOp [3] [30], InsertOp [1] [10], InsertOp [2] [1, 2, 3, 4, 5, 6], InsertOp [5] [50],
       InsertOp [4] [40], GetOp [2], DeleteOp [1], DeleteOp [1], GetOp [1], InsertOp [5] [51], GetOp [5]]
      (sample_tree, new_store)) =
    Inr [Done, Done, Done, Done, Done, Answer (Some [1, 2, 3, 4, 5, 6]), Removed True, Removed False,
      Answer None, Done, Answer (Some [51])]"
proof -
  let ?ops = "[InsertOp [3] [30], InsertOp [1] [10], InsertOp [2] [1, 2, 3, 4, 5, 6], InsertOp [5] [50],
       InsertOp [4] [40], GetOp [2], DeleteOp [1], DeleteOp [1], GetOp [1], InsertOp [5] [51], GetOp [5]]"
  obtain r st' where run: "tree_ops sample Async 256 ?ops (sample_tree, new_store) = (r, st')"
    by (cases "tree_ops sample Async 256 ?ops (sample_tree, new_store)")
  have "r = Inr (fst (spec_ops ?ops Map.empty))"
    by (rule tree_implements_map [OF sample_new_tree _ _ sample_extern_ok store_ok_new _ _ _ _ run sample_collision_free])
      (simp_all add: sample_config_def avail_def)
  with run show ?thesis by simp
qed

text \<open>
  C2: An insertion into a well-formed tree succeeds, keeps the tree well-formed, changes the map at
  the inserted key only, raises the height by at most one and reports whether the root changed.
\<close>

theorem insert_refines:
  assumes "extern_ok E (config t)" "avail md s" "tree_at E s t n es"
    and "n < fuel" "n < 255" "length v < 2 ^ 31"
    and "tree_insert E md fuel k v (t, s) = (r, (t', s'))" "collision_free E s'"
  shows "r = Inr (root_hash t \<noteq> root_hash t')
     \<and> (\<exists>n' es'. n' \<le> Suc n \<and> tree_at E s' t' n' es'
          \<and> entries_map s' es' = (entries_map s es)(k \<mapsto> v))"
proof -
  have "values_ok s es" using assms(3) by (simp add: tree_at_def)
  moreover have "\<exists>b. r = Inr b \<and> inserted_at E t s n es k v b t' s'"
    using tree_insert_at [OF assms(1-6)] assms(7,8) unfolding achievesT_def by blast
  ultimately show ?thesis
    unfolding inserted_at_def by (metis entries_map_upsert)
qed

theorem insert_refines_witness:
  "\<exists>r t' s'. tree_insert sample Sync 1 [7] [70] (sample_tree, new_store) = (r, (t', s'))
     \<and> (\<exists>n' es'. n' \<le> Suc 0 \<and> tree_at sample s' t' n' es' \<and> entries_map s' es' = [[7] \<mapsto> [70]])"
proof -
  obtain r t' s' where run: "tree_insert sample Sync 1 [7] [70] (sample_tree, new_store) = (r, (t', s'))"
    by (metis surj_pair)
  have at: "tree_at sample new_store sample_tree 0 []"
    by (rule tree_at_new [OF sample_new_tree _ store_ok_new]) (simp add: sample_config_def)
  have "entries_map new_store [] = Map.empty" by (simp add: entries_map_def fun_eq_iff)
  with insert_refines [OF sample_extern_ok _ at _ _ _ run sample_collision_free] run show ?thesis
    by (auto simp: avail_def new_store_def)
qed

text \<open>
  C3: A deletion from a well-formed tree succeeds, reports whether the key was there, removes the key
  and nothing else from the map, keeps the tree well-formed and no higher than before, and leaves
  tree and store exactly as they were when the key was not there.
\<close>

theorem delete_refines:
  assumes "bincode_ok E" "avail md s" "tree_at E s t n es" "n < fuel" "n < 256"
    and "tree_delete E md fuel k (t, s) = (r, (t', s'))" "collision_free E s'"
  shows "r = Inr (entries_map s es k \<noteq> None)
     \<and> (entries_map s es k = None \<longrightarrow> t' = t \<and> s' = s)
     \<and> (\<exists>n' es'. n' \<le> n \<and> tree_at E s' t' n' es'
          \<and> entries_map s' es' = (entries_map s es)(k := None))"
proof -
  have es: "values_ok s es" "sorted_keys es" using assms(3) by (auto simp: tree_at_def)
  have "\<exists>b. r = Inr b \<and> deleted_from E t s n es k b t' s'"
    using tree_delete_at [OF assms(1-5)] assms(6,7) unfolding achievesT_def by blast
  then have del: "r = Inr (k \<in> le_key ` set es)" "deleted_from E t s n es k (k \<in> le_key ` set es) t' s'"
    by (auto simp: deleted_from_def)
  moreover have "k \<in> le_key ` set es \<longleftrightarrow> entries_map s es k \<noteq> None"
    using entries_map_in_dom [OF es(1)] by (auto simp: dom_def)
  moreover from del(2) obtain n' where "n' \<le> n" "tree_at E s' t' n' (delete_key k es)" "extends s s'"
    unfolding deleted_from_def by blast
  moreover from entries_map_delete_key [OF this(3) es]
  have "entries_map s' (delete_key k es) = (entries_map s es)(k := None)" .
  moreover have "k \<notin> le_key ` set es \<longrightarrow> t' = t \<and> s' = s"
    using del(2) unfolding deleted_from_def by blast
  ultimately show ?thesis by blast
qed

theorem delete_refines_witness:
  "\<exists>t s r t' s'. sample_after [InsertOp [1] [10], InsertOp [2] [20]] = (t, s)
     \<and> tree_delete sample Async 256 [1] (t, s) = (r, (t', s'))
     \<and> r = Inr True
     \<and> (\<exists>n' es'. tree_at sample s' t' n' es' \<and> entries_map s' es' = [[2] \<mapsto> [20]])"
proof -
  obtain t s where st: "sample_after [InsertOp [1] [10], InsertOp [2] [20]] = (t, s)" by fastforce
  obtain n es where at: "tree_at sample s t n es" "n < 255" "avail Async s" "config t = sample_config"
    "entries_map s es = snd (spec_ops [InsertOp [1] [10], InsertOp [2] [20]] Map.empty)"
    by (rule sample_reached [OF st, where md = Async]) simp_all
  obtain r t' s' where run: "tree_delete sample Async 256 [1] (t, s) = (r, (t', s'))" by (metis surj_pair)
  have m: "entries_map s es = [[1] \<mapsto> [10], [2] \<mapsto> [20]]" using at(5) by simp
  have m': "(entries_map s es)([1] := None) = [[2] \<mapsto> [20]]" "entries_map s es [1] \<noteq> None"
    unfolding m by auto
  have "n < 256" using at(2) by simp
  from delete_refines [OF sample_bincode_ok at(3,1) this this run sample_collision_free] m'
  have "r = Inr True" "\<exists>n' es'. tree_at sample s' t' n' es' \<and> entries_map s' es' = [[2] \<mapsto> [20]]"
    by (simp_all only:) blast+
  with st run show ?thesis by blast
qed

text \<open>
  C4: A lookup in a well-formed tree, asynchronous or synchronous, returns the value of the key in
  the map the tree stands for, and changes nothing.
\<close>

theorem get_refines:
  assumes "bincode_ok E" "avail md s" "tree_at E s t n es" "n < fuel"
  shows "tree_get E md fuel t k s = (Inr (entries_map s es k), s)"
  by (rule tree_get_at [OF assms])

theorem get_refines_witness:
  "\<exists>t s. sample_after [InsertOp [1] [10], InsertOp [2] [1, 2, 3, 4, 5, 6]] = (t, s)
     \<and> tree_get sample Sync 256 t [2] s = (Inr (Some [1, 2, 3, 4, 5, 6]), s)"
proof -
  obtain t s where st: "sample_after [InsertOp [1] [10], InsertOp [2] [1, 2, 3, 4, 5, 6]] = (t, s)" by fastforce
  obtain n es where at: "tree_at sample s t n es" "n < 255" "avail Sync s" "config t = sample_config"
    "entries_map s es = snd (spec_ops [InsertOp [1] [10], InsertOp [2] [1, 2, 3, 4, 5, 6]] Map.empty)"
    by (rule sample_reached [OF st, where md = Sync]) simp_all
  with get_refines [OF sample_bincode_ok at(3,1), of 256 "[2]"] st show ?thesis by simp
qed

text \<open>
  C5: Versions are immutable: whatever an insertion or a deletion on one tree does, and even if it
  fails half way, every other tree in the same store keeps its map.
\<close>

theorem versions_survive:
  assumes "bincode_ok E" "avail md s" "tree_at E s t0 n es" "n < fuel"
    and "tree_op_run E md' fuel' x (t, s) = (r, (t', s'))"
  shows "tree_get E md fuel t0 k s' = (Inr (entries_map s es k), s')"
proof -
  have grown: "extends s s'" "store_ok E s'"
    using growsTD [OF growsT_op_run assms(5)] assms(3) by (auto simp: tree_at_def)
  have at: "tree_at E s' t0 n es" "avail md s'"
    using tree_at_extends [OF grown assms(3)] assms(2) grown(1) by (auto intro: extends_availI)
  have "entries_map s' es k = entries_map s es k"
    using assms(3) by (auto simp: tree_at_def intro: entries_map_extends [OF grown(1)])
  with tree_get_at [OF assms(1) at(2,1) assms(4)] show ?thesis by simp
qed

theorem versions_survive_witness:
  "\<exists>t s r t' s'. sample_after [InsertOp [1] [10], InsertOp [2] [20]] = (t, s)
     \<and> tree_op_run sample Async 256 (DeleteOp [1]) (t, s) = (r, (t', s'))
     \<and> tree_get sample Async 256 t [1] s' = (Inr (Some [10]), s')"
proof -
  obtain t s where st: "sample_after [InsertOp [1] [10], InsertOp [2] [20]] = (t, s)" by fastforce
  obtain n es where at: "tree_at sample s t n es" "n < 255" "avail Async s" "config t = sample_config"
    "entries_map s es = snd (spec_ops [InsertOp [1] [10], InsertOp [2] [20]] Map.empty)"
    by (rule sample_reached [OF st, where md = Async]) simp_all
  obtain r t' s' where run: "tree_op_run sample Async 256 (DeleteOp [1]) (t, s) = (r, (t', s'))" by (metis surj_pair)
  from versions_survive [OF sample_bincode_ok at(3,1) _ run, of 256 "[1]"] at(2,5) st run show ?thesis
    by auto
qed

section \<open>Garbage collection and differences\<close>

text \<open>
  C6: A collection always succeeds and is exact: afterwards the store holds precisely the chunks
  reachable from the live roots, unchanged, and the result is the number of chunks removed.
\<close>

theorem gc_collect_exact:
  "\<exists>count s'. gc_collect E roots s = (Inr count, s')
     \<and> (\<forall>h. chunk_at s' h = (if reachable E s (set roots) h then chunk_at s h else None))
     \<and> count = card {h. chunk_at s h \<noteq> None \<and> \<not> reachable E s (set roots) h}"
  using gc_collect_at [of E roots s] unfolding collected_def by blast

text \<open>
  C7: Collecting through a tree loses nothing of the tree itself, nor of any other tree whose root
  the application names: both keep their maps.
\<close>

theorem gc_keeps_live_trees:
  assumes "bincode_ok E" "tree_at E s t n es" "tree_at E s t2 m es2"
    and "root_hash t2 = None \<or> the (root_hash t2) \<in> set roots"
    and "n < fuel" "m < fuel"
    and "tree_gc E t roots s = (r, s')"
  shows "(\<exists>count. r = Inr count)
     \<and> tree_get E Async fuel t k s' = (Inr (entries_map s es k), s')
     \<and> tree_get E Async fuel t2 k s' = (Inr (entries_map s es2 k), s')"
proof -
  let ?roots = "remdups (roots @ (case root_hash t of None \<Rightarrow> [] | Some h \<Rightarrow> [h]))"
  obtain count where gc: "r = Inr count" "collected E (set ?roots) s count s'"
    using gc_collect_at [of E ?roots s] assms(7) by (auto simp: tree_gc_def)
  have "root_hash t = None \<or> the (root_hash t) \<in> set ?roots" "root_hash t2 = None \<or> the (root_hash t2) \<in> set ?roots"
    using assms(4) by auto
  note kept = tree_at_collected [OF assms(1) gc(2) assms(2) this(1)] tree_at_collected [OF assms(1) gc(2) assms(3) this(2)]
  have av: "avail Async s'" by (simp add: avail_def)
  from tree_get_at [OF assms(1) av kept(1) assms(5)] tree_get_at [OF assms(1) av kept(3) assms(6)]
    kept(2) [of k] kept(4) [of k] gc(1)
  show ?thesis by simp
qed

theorem gc_keeps_live_trees_witness:
  "\<exists>t s r s'. sample_after [InsertOp [1] [10], InsertOp [2] [20]] = (t, s)
     \<and> tree_gc sample t [] s = (r, s')
     \<and> tree_get sample Async 256 t [2] s' = (Inr (Some [20]), s')"
proof -
  obtain t s where st: "sample_after [InsertOp [1] [10], InsertOp [2] [20]] = (t, s)" by fastforce
  obtain n es where at: "tree_at sample s t n es" "n < 255" "avail Async s" "config t = sample_config"
    "entries_map s es = snd (spec_ops [InsertOp [1] [10], InsertOp [2] [20]] Map.empty)"
    by (rule sample_reached [OF st, where md = Async]) simp_all
  have empty: "tree_at sample s sample_tree 0 []"
    using at(1) by (simp add: tree_at_def sample_tree_def sample_config_def config_valid_def values_ok_def)
  obtain r s' where run: "tree_gc sample t [] s = (r, s')" by (metis surj_pair)
  from gc_keeps_live_trees [OF sample_bincode_ok at(1) empty _ _ _ run, of 256 "[2]"] at(2,5) st run show ?thesis
    by (auto simp: sample_tree_def)
qed





section \<open>Nodes\<close>

text \<open>
  C10: Insertion below a node: the result is one well-formed subtree of the same height, or two of
  them with at least \<open>lo\<close> entries in each root, that together hold the old entries with the key
  inserted at its place; nothing already stored changes.
\<close>

theorem insert_recursive_shape:
  assumes "bincode_ok E" "config_valid cfg" "avail md s" "store_ok E s"
    and "stored E s h nd" "node_at E (unat (min_fanout cfg)) (unat (target_fanout cfg)) s b n nd es"
    and "sorted_keys es" "es \<noteq> []" "n < fuel"
    and "insert_recursive E md cfg fuel h k v (of_nat n) s = (r, s')" "collision_free E s'"
  shows "\<exists>u. r = Inr u \<and> extends s s'
     \<and> update_at E (unat (min_fanout cfg)) (unat (target_fanout cfg)) s' b n u (upsert k v es)"
proof -
  have "1 \<le> unat (min_fanout cfg)" "2 * unat (min_fanout cfg) \<le> unat (target_fanout cfg)"
    using assms(2) by (auto simp: config_valid_def)
  from insert_recursive_at [OF assms(1) this refl assms(3-9) refl, of k v] assms(10,11)
  show ?thesis unfolding achieves_def by blast
qed

theorem insert_recursive_shape_witness:
  "\<exists>h s u r s'. sample_after (map (\<lambda>k. InsertOp [k] [k]) [1, 2, 3, 4]) = (\<lparr>root_hash = Some h, config = sample_config\<rparr>, s)
     \<and> insert_recursive sample Async sample_config 1 h [5] (Inline [5]) 0 s = (r, s') \<and> r = Inr u
     \<and> update_at sample 2 4 s' 1 0 u (map (\<lambda>k. \<lparr>le_key = [k], le_value = Inline [k]\<rparr>) [1, 2, 3, 4, 5])"
proof -
  let ?es = "map (\<lambda>k. \<lparr>le_key = [k], le_value = Inline [k]\<rparr>) [1, 2, 3, 4] :: leaf_entry list"
  let ?h = "put_node (Leaf 0 ?es)"
  obtain t s where st: "sample_after (map (\<lambda>k. InsertOp [k] [k]) [1, 2, 3, 4]) = (t, s)" by fastforce
  obtain n es where at: "tree_at sample s t n es" "avail Async s" "config t = sample_config"
    by (rule sample_reached [OF st, where md = Async]) simp_all
  have "root_hash (fst (sample_after (map (\<lambda>k. InsertOp [k] [k]) [1, 2, 3, 4]))) = Some ?h
      \<and> chunk_at (snd (sample_after (map (\<lambda>k. InsertOp [k] [k]) [1, 2, 3, 4]))) ?h = Some ?h"
    by code_simp
  then have root: "root_hash t = Some ?h" "stored sample s ?h (Leaf 0 ?es)"
    unfolding st by (simp_all add: stored_def sample_def)
  have t: "t = \<lparr>root_hash = Some ?h, config = sample_config\<rparr>"
    using root(1) at(3) by (cases t) simp
  have cfg: "config_valid sample_config" "unat (min_fanout sample_config) = 2" "unat (target_fanout sample_config) = 4"
    by (simp_all add: config_valid_def sample_config_def)
  let ?run = "insert_recursive sample Async sample_config 1 ?h [5] (Inline [5]) 0 s"
  obtain r s' where run: "?run = (r, s')"
    by (cases ?run)
  have "\<exists>u. r = Inr u \<and> extends s s' \<and> update_at sample (unat (min_fanout sample_config))
      (unat (target_fanout sample_config)) s' 1 0 u (upsert [5] (Inline [5]) ?es)"
    by (rule insert_recursive_shape [OF sample_bincode_ok cfg(1) at(2) _ root(2), where n = 0 and fuel = 1])
      (use run at(1) in \<open>simp_all add: sample_collision_free cfg tree_at_def\<close>)
  then obtain u where u: "r = Inr u" and at_u: "update_at sample (unat (min_fanout sample_config))
      (unat (target_fanout sample_config)) s' 1 0 u (upsert [5] (Inline [5]) ?es)" by blast
  have "upsert [5] (Inline [5]) ?es = map (\<lambda>k. \<lparr>le_key = [k], le_value = Inline [k]\<rparr>) [1, 2, 3, 4, 5]"
    by simp
  from at_u [unfolded cfg this] u
  show ?thesis
    by (intro exI [of _ ?h] exI [of _ s] exI [of _ u] exI [of _ r] exI [of _ s'] conjI st [unfolded t] run)
qed

text \<open>
  C11: Deletion below a node: a key that is not there is reported as not found and nothing is
  written; a key that is there goes, and what is left is one well-formed subtree of the same height
  whose root is at most one entry short, or nothing at all.
\<close>

theorem delete_recursive_shape:
  assumes "bincode_ok E" "config_valid cfg" "avail md s" "store_ok E s"
    and "stored E s h nd" "node_at E (unat (min_fanout cfg)) (unat (target_fanout cfg)) s b n nd es"
    and "sorted_keys es" "es \<noteq> []" "n < fuel" "n < 256"
    and "1 \<le> b" "n = 0 \<or> min 2 (unat (min_fanout cfg)) \<le> b"
    and "delete_recursive E md cfg fuel h k (of_nat n) False s = (r, s')" "collision_free E s'"
  shows "if k \<in> le_key ` set es
    then \<exists>x. r = Inr (x, True) \<and> extends s s' \<and> deleted_at E (unat (min_fanout cfg)) (unat (target_fanout cfg))
           s' (b - 1) n x (delete_key k es)
    else r = Inr (NotFound h (le_key (last es)), False) \<and> s' = s"
proof (cases "k \<in> le_key ` set es")
  case True
  have "1 \<le> unat (min_fanout cfg)" "2 * unat (min_fanout cfg) \<le> unat (target_fanout cfg)"
    using assms(2) by (auto simp: config_valid_def)
  from delete_recursive_at [OF assms(1) this refl assms(3-7) True assms(9) refl assms(10-12)] assms(13,14) True
  show ?thesis unfolding achieves_def by fastforce
next
  case False
  with delete_recursive_absent [OF assms(1,3,5-8) False assms(9) refl assms(10)] assms(13) show ?thesis
    by simp
qed

theorem delete_recursive_shape_witness:
  "\<exists>r s'. delete_recursive sample Async sample_config 1 (put_node (Leaf 0 (sample_leaf [1, 2, 3]))) [2] 0 False
       (sample_store [Leaf 0 (sample_leaf [1, 2, 3])]) = (r, s')
     \<and> (\<exists>x. r = Inr (x, True) \<and> deleted_at sample 2 4 s' 0 0 x (sample_leaf [1, 3]))"
proof -
  let ?nd = "Leaf 0 (sample_leaf [1, 2, 3])"
  let ?run = "delete_recursive sample Async sample_config 1 (put_node ?nd) [2] (of_nat 0) False (sample_store [?nd])"
  obtain r s' where run: "?run = (r, s')" by (cases ?run)
  have cfg: "config_valid sample_config" "unat (min_fanout sample_config) = 2" "unat (target_fanout sample_config) = 4"
    by (simp_all add: config_valid_def sample_config_def)
  have k: "[2] \<in> le_key ` set (sample_leaf [1, 2, 3])" "delete_key [2] (sample_leaf [1, 2, 3]) = sample_leaf [1, 3]"
    by (simp_all add: sample_leaf_def)
  have "if [2] \<in> le_key ` set (sample_leaf [1, 2, 3])
    then \<exists>x. r = Inr (x, True) \<and> extends (sample_store [?nd]) s' \<and> deleted_at sample (unat (min_fanout sample_config))
           (unat (target_fanout sample_config)) s' (1 - 1) 0 x (delete_key [2] (sample_leaf [1, 2, 3]))
    else r = Inr (NotFound (put_node ?nd) (le_key (last (sample_leaf [1, 2, 3]))), False) \<and> s' = sample_store [?nd]"
    by (rule delete_recursive_shape [OF sample_bincode_ok cfg(1) sample_store_avail sample_store_ok
          sample_stored _ _ _ _ _ _ _ run sample_collision_free])
      (simp_all add: sample_leaf_sorted cfg, simp_all add: sample_leaf_def)
  with run show ?thesis unfolding cfg k(2) by (simp only: k(1) if_True) auto
qed

text \<open>
  C12: The strategy for a child that is one entry short keeps all entries below the parent in order,
  gives every child at least the minimum and at most the maximum again, and costs the parent at
  most one child. It needs a sibling; every parent has one where the code calls it.
\<close>

theorem underflow_rebalanced:
  assumes "bincode_ok E" "config_valid cfg" "avail md s" "store_ok E s"
    and "lo = unat (min_fanout cfg)" "hi = unat (target_fanout cfg)"
    and "children_at E lo hi s n ls xss" "children_at E lo hi s n rs yss" "ls \<noteq> [] \<or> rs \<noteq> []"
    and "child_at E lo hi s (lo - 1) n c es" "stored E s (child_hash c) nd" "num_entries nd < lo"
    and "handle_underflow_strategy E md cfg (ls @ c # rs) (length ls) s = (r, s')" "collision_free E s'"
  shows "\<exists>cs' ess. r = Inr cs' \<and> children_at E lo hi s' n cs' ess \<and> concat ess = concat (xss @ es # yss)
     \<and> length (ls @ rs) \<le> length cs' \<and> length cs' \<le> Suc (length (ls @ rs)) \<and> extends s s'"
proof -
  have "1 \<le> lo" "2 * lo \<le> hi"
    using assms(2,5,6) by (auto simp: config_valid_def)
  note strategy = handle_underflow_at [OF assms(1,3,4) this assms(5,7,8,10-12)]
  have "achieves E (handle_underflow_strategy E md cfg (ls @ c # rs) (length ls)) s
     (rebalanced E lo hi s n (ls @ c # rs) (concat (xss @ es # yss)))"
    by (rule strategy) (use assms(9) in blast)
  from achievesD [OF this assms(13,14)] obtain cs' where cs': "r = Inr cs'"
    "rebalanced E lo hi s n (ls @ c # rs) (concat (xss @ es # yss)) cs' s'" .
  then show ?thesis unfolding rebalanced_def by auto
qed

theorem underflow_rebalanced_witness:
  "\<exists>r s' cs' ess. handle_underflow_strategy sample Async sample_config ([sample_child [1, 2, 3]] @ [sample_child [5]]) 1
       (sample_store [Leaf 0 (sample_leaf [1, 2, 3]), Leaf 0 (sample_leaf [5])]) = (r, s')
     \<and> r = Inr cs' \<and> children_at sample 2 4 s' 0 cs' ess \<and> concat ess = sample_leaf [1, 2, 3, 5]"
proof -
  let ?s = "sample_store [Leaf 0 (sample_leaf [1, 2, 3]), Leaf 0 (sample_leaf [5])]"
  let ?run = "handle_underflow_strategy sample Async sample_config ([sample_child [1, 2, 3]] @ sample_child [5] # [])
     (length [sample_child [1, 2, 3]]) ?s"
  obtain r s' where run: "?run = (r, s')" by (cases ?run)
  have cfg: "config_valid sample_config" "2 = unat (min_fanout sample_config)" "4 = unat (target_fanout sample_config)"
    by (simp_all add: config_valid_def sample_config_def)
  have left: "children_at sample 2 4 ?s 0 [sample_child [1, 2, 3]] [sample_leaf [1, 2, 3]]"
    by (simp add: sample_child_at)
  have child: "child_at sample 2 4 ?s (2 - 1) 0 (sample_child [5]) (sample_leaf [5])"
    by (rule sample_child_at) simp_all
  have st: "stored sample ?s (child_hash (sample_child [5])) (Leaf 0 (sample_leaf [5]))"
    using sample_stored [of "Leaf 0 (sample_leaf [5])"] by (simp add: sample_child_def)
  have "\<exists>cs' ess. r = Inr cs' \<and> children_at sample 2 4 s' 0 cs' ess
      \<and> concat ess = concat ([sample_leaf [1, 2, 3]] @ sample_leaf [5] # [])
      \<and> length ([sample_child [1, 2, 3]] @ []) \<le> length cs'
      \<and> length cs' \<le> Suc (length ([sample_child [1, 2, 3]] @ [])) \<and> extends ?s s'"
    by (rule underflow_rebalanced [OF sample_bincode_ok cfg(1) sample_store_avail sample_store_ok cfg(2,3) left
          list_all2_Nil [THEN iffD2, OF refl] _ child st _ run sample_collision_free])
      (simp_all add: sample_leaf_def)
  with run show ?thesis by (auto simp: sample_leaf_def)
qed

section \<open>Batches, counts, versions\<close>

text \<open>
  C13: A batch of insertions has the effect of its insertions in order, so for a key that occurs
  twice the last value wins; it reports whether the root changed.
\<close>

theorem insert_batch_refines:
  assumes "tree_holds E Async fuel (b + length batch) (t, s) m" "\<forall>kv\<in>set batch. length (snd kv) < 2 ^ 31"
    and "insert_batch E fuel batch (t, s) = (r, (t', s'))" "collision_free E s'"
  shows "r = Inr (root_hash t \<noteq> root_hash t') \<and> tree_holds E Async fuel b (t', s') (m ++ map_of (rev batch))"
  using insert_batch_at [OF assms(1,2)] assms(3,4) unfolding achievesT_def by blast

theorem insert_batch_refines_witness:
  "\<exists>r t' s'. insert_batch sample 256 [([1], [10]), ([2], [20]), ([1], [11])] (sample_tree, new_store) = (r, (t', s'))
     \<and> tree_holds sample Async 256 0 (t', s') [[1] \<mapsto> [11], [2] \<mapsto> [20]]"
proof -
  let ?batch = "[([1], [10]), ([2], [20]), ([1], [11])] :: (key \<times> val) list"
  let ?run = "insert_batch sample 256 ?batch (sample_tree, new_store)"
  obtain r t' s' where run: "?run = (r, (t', s'))" by (cases ?run) auto
  have "tree_holds sample Async 256 (0 + length ?batch) (sample_tree, new_store) Map.empty"
    by (rule sample_holds) simp_all
  from insert_batch_refines [OF this _ run sample_collision_free]
  have "tree_holds sample Async 256 0 (t', s') (Map.empty ++ map_of (rev ?batch))" by simp
  moreover have "Map.empty ++ map_of (rev ?batch) = [[1] \<mapsto> [11], [2] \<mapsto> [20]]"
    by (auto simp: fun_eq_iff)
  ultimately show ?thesis using run by auto
qed

text \<open>C14: The item count is the number of keys, modulo the width of a \<^verbatim>\<open>u64\<close>.\<close>

theorem count_is_cardinality:
  assumes "bincode_ok E" "tree_at E s t n es"
  shows "count_all_items E t s = (Inr (of_nat (card (dom (entries_map s es)))), s)"
  by (rule count_all_items_at [OF assms])

theorem count_is_cardinality_witness:
  "\<exists>t s. sample_after [InsertOp [1] [10], InsertOp [2] [20]] = (t, s)
     \<and> count_all_items sample t s = (Inr 2, s)"
proof -
  obtain t s where st: "sample_after [InsertOp [1] [10], InsertOp [2] [20]] = (t, s)" by fastforce
  obtain n es where at: "tree_at sample s t n es" "n < 255" "avail Async s" "config t = sample_config"
    "entries_map s es = snd (spec_ops [InsertOp [1] [10], InsertOp [2] [20]] Map.empty)"
    by (rule sample_reached [OF st, where md = Async]) simp_all
  have m: "entries_map s es = [[1] \<mapsto> [10], [2] \<mapsto> [20]]" using at(5) by simp
  have "card (dom [[1::u8] \<mapsto> [10::u8], [2] \<mapsto> [20]]) = 2" by simp
  with count_is_cardinality [OF sample_bincode_ok at(1)] st show ?thesis unfolding m by auto
qed

text \<open>
  C15: A value survives: whatever way it is represented, inline, as one chunk or as a sequence of
  chunks, loading the representation gives the value back.
\<close>

theorem value_round_trip:
  assumes "extern_ok E cfg" "avail md s" "store_ok E s" "length v < 2 ^ 31"
    and "bindC (prepare_value_repr E md cfg v) (load_value_repr md) s = (r, s')" "collision_free E s'"
  shows "r = Inr v"
proof -
  have E: "fastcdc_ok E" "fastcdc_accepts E cfg" using assms(1) by (auto simp: extern_ok_def)
  have "achieves E (bindC (prepare_value_repr E md cfg v) (load_value_repr md)) s (\<lambda>x _. x = v)"
  proof (rule achieves_bind [OF achieves_prepare_value_repr [OF assms(2,3) E assms(4)]])
    fix x s1
    assume x: "repr_value s1 x = Some v \<and> extends s s1 \<and> store_ok E s1"
    then have "avail md s1" using assms(2) by (auto intro: extends_availI)
    with x show "achieves E (load_value_repr md x) s1 (\<lambda>x _. x = v)"
      by (simp add: achieves_def load_value_repr_value)
  qed (intro grows_intros)
  from achievesD [OF this assms(5,6)] show ?thesis by blast
qed

theorem value_round_trip_witness:
  "fst (bindC (prepare_value_repr sample Async sample_config [1, 2, 3, 4, 5, 6, 7]) (load_value_repr Async) new_store)
     = Inr [1, 2, 3, 4, 5, 6, 7]"
proof -
  let ?v = "[1, 2, 3, 4, 5, 6, 7] :: val"
  let ?run = "bindC (prepare_value_repr sample Async sample_config ?v) (load_value_repr Async) new_store"
  obtain r s' where run: "?run = (r, s')" by (cases ?run)
  have "avail Async new_store" by (simp add: avail_def)
  from value_round_trip [OF sample_extern_ok this store_ok_new _ run sample_collision_free] run
  show ?thesis by simp
qed



text \<open>
  C17: A tree can be reopened: its root hash and configuration give back the same tree; checking out
  the root of an old version makes the current tree that version; checking out a hash that is not
  in the store fails and leaves the tree alone.
\<close>

theorem reopen_and_checkout:
  assumes "bincode_ok E" "tree_at E s t0 n es" "root_hash t0 = Some h" "\<not> config_rejected (config t0)"
    and "config t = config t0" "chunk_at s h' = None"
  shows "from_root_hash E h (config t0) s = (Inr t0, s)
     \<and> checkout E (Some h) (t, s) = (Inr (root_hash t \<noteq> Some h), (t0, s))
     \<and> checkout E (Some h') (t, s) = (Inl (Err (ChunkNotFound h')), (t, s))"
  using from_root_hash_at [OF assms(1-4)] checkout_at [OF assms(1,2) assms(5) [symmetric]] assms(3)
    checkout_missing [OF assms(6)]
  by simp_all

theorem reopen_and_checkout_witness:
  "checkout sample (Some (put_node (Leaf 0 (sample_leaf [1, 2])))) (sample_tree, sample_store [Leaf 0 (sample_leaf [1, 2])])
     = (Inr True, (sample_tree\<lparr>root_hash := Some (put_node (Leaf 0 (sample_leaf [1, 2])))\<rparr>, sample_store [Leaf 0 (sample_leaf [1, 2])]))"
proof -
  let ?nd = "Leaf 0 (sample_leaf [1, 2])"
  let ?t = "sample_tree\<lparr>root_hash := Some (put_node ?nd)\<rparr>"
  have "config_valid sample_config" "1 \<le> unat (target_fanout sample_config)" "2 \<le> unat (target_fanout sample_config)"
    by (simp_all add: config_valid_def sample_config_def)
  then have at: "tree_at sample (sample_store [?nd]) ?t 0 (sample_leaf [1, 2])"
    using sample_store_ok [of "[?nd]"] sample_stored [of ?nd "[?nd]"]
    by (auto simp: tree_at_def root_at_def sample_tree_def sample_leaf_sorted values_ok_def)
      (auto simp: sample_leaf_def)
  have cfg: "\<not> config_rejected (config ?t)" "config sample_tree = config ?t"
    by (simp_all add: sample_tree_def config_rejected_def sample_config_def word_less_nat_alt)
  have root: "root_hash ?t = Some (put_node ?nd)" by simp
  have "chunk_at (sample_store [?nd]) [] = None"
    by (simp add: sample_store_def)
  from reopen_and_checkout [OF sample_bincode_ok at root cfg this]
  have "checkout sample (Some (put_node ?nd)) (sample_tree, sample_store [?nd])
      = (Inr (root_hash sample_tree \<noteq> Some (put_node ?nd)), (?t, sample_store [?nd]))" by blast
  moreover have "(root_hash sample_tree \<noteq> Some (put_node ?nd)) = True" by (simp add: sample_tree_def)
  ultimately show ?thesis by (simp only:)
qed

section \<open>Search in a leaf, the lock, the configuration\<close>

text \<open>
  In a sorted leaf the insertion by binary search is the ordered insertion of the reference
  semantics, which keeps the leaf sorted, and the search finds exactly the keys that are there.
\<close>

theorem leaf_upsert_reference:
  assumes "sorted_keys es"
  shows "leaf_upsert es k v = upsert k v es \<and> sorted_keys (leaf_upsert es k v)
     \<and> (case leaf_search es k of
          Found i \<Rightarrow> i < length es \<and> le_key (es ! i) = k
        | Missing i \<Rightarrow> i \<le> length es \<and> k \<notin> le_key ` set es)"
proof -
  from assms have "case leaf_search es k of
          Found i \<Rightarrow> i < length es \<and> le_key (es ! i) = k
        | Missing i \<Rightarrow> i \<le> length es \<and> k \<notin> le_key ` set es"
  proof (cases rule: leaf_search_cases [where k = k])
    case (found as e bs)
    then show ?thesis by simp
  next
    case (missing as bs)
    then show ?thesis by (simp add: lookup_key_None_iff)
  qed
  with leaf_upsert_eq [OF assms] sorted_upsert [OF assms] show ?thesis by simp
qed



text \<open>
  C20: Below \<open>2 ^ 31\<close> the configuration check accepts exactly the configurations with a positive
  \<^verbatim>\<open>min_fanout\<close> and a \<^verbatim>\<open>target_fanout\<close> of at least twice as much; from there on the product wraps
  around and configurations pass that the check means to refuse.
\<close>

theorem config_check_wraps:
  "(\<forall>cfg. unat (min_fanout cfg) < 2 ^ 31 \<longrightarrow> (new_tree cfg = Inl Panic \<longleftrightarrow> \<not> config_valid cfg))
   \<and> \<not> config_rejected (default_config\<lparr>min_fanout := 2 ^ 31, target_fanout := 1\<rparr>)
   \<and> \<not> config_valid (default_config\<lparr>min_fanout := 2 ^ 31, target_fanout := 1\<rparr>)"
proof (intro conjI allI impI)
  fix cfg :: tree_config
  assume "unat (min_fanout cfg) < 2 ^ 31"
  from config_rejected_iff [OF this] show "new_tree cfg = Inl Panic \<longleftrightarrow> \<not> config_valid cfg"
    by (simp add: new_tree_def)
next
  show "\<not> config_rejected (default_config\<lparr>min_fanout := 2 ^ 31, target_fanout := 1\<rparr>)"
    by code_simp
qed (simp add: config_valid_def default_config_def)

theorem config_check_wraps_witness:
  "new_tree (default_config\<lparr>target_fanout := 31\<rparr>) = Inl Panic"
proof -
  let ?cfg = "default_config\<lparr>target_fanout := 31\<rparr>"
  have "unat (min_fanout ?cfg) < 2 ^ 31" "\<not> config_valid ?cfg"
    by (simp_all add: default_config_def config_valid_def)
  with config_check_wraps show ?thesis by blast
qed

text \<open>
  C21: The level of a root is a byte. When a root of level 255 splits, the insertion fails, and the
  tree is left with the left half as its root: the right half is no longer part of it.
\<close>

theorem root_level_overflow:
  assumes "root_hash t = Some h" "prepare_value_repr E md (config t) v s = (Inr r, s1)"
    and "load_node E md h s1 = (Inr nd, s2)" "level nd = 255"
    and "insert_recursive E md (config t) fuel h k r 255 s2 = (Inr u, s3)" "split_info u = Some sp"
  shows "tree_insert E md fuel k v (t, s)
     = (Inl (Err (ConfigError ''Internal node level cannot be 0'')), (t\<lparr>root_hash := Some (new_hash u)\<rparr>, s3))"
  using assms
  by (simp add: tree_insert_def comp_simps read_tree_def on_store_def set_root_def grow_root_def
      new_internal_def Let_def liftE_def)

theorem root_level_overflow_witness:
  "fst (tree_insert sample Async 2 [14] [14]
     (sample_tree\<lparr>root_hash := Some (put_node (Internal 255
        [sample_child [1, 2], sample_child [3, 4], sample_child [5, 6], sample_child [10, 11, 12, 13]]))\<rparr>,
      sample_store [Internal 255
        [sample_child [1, 2], sample_child [3, 4], sample_child [5, 6], sample_child [10, 11, 12, 13]],
        Leaf 0 (sample_leaf [10, 11, 12, 13])]))
   = Inl (Err (ConfigError ''Internal node level cannot be 0''))"
proof -
  let ?nd = "Internal 255 [sample_child [1, 2], sample_child [3, 4], sample_child [5, 6], sample_child [10, 11, 12, 13]]"
  let ?s = "sample_store [?nd, Leaf 0 (sample_leaf [10, 11, 12, 13])]"
  let ?t = "sample_tree\<lparr>root_hash := Some (put_node ?nd)\<rparr>"
  have prep: "prepare_value_repr sample Async (config ?t) [14] ?s = (Inr (Inline [14]), ?s)"
    by (simp add: prepare_value_repr_def sample_tree_def sample_config_def comp_simps)
  have load: "load_node sample Async (put_node ?nd) ?s = (Inr ?nd, ?s)"
    by (rule load_node_stored [OF sample_bincode_ok sample_store_avail sample_stored]) simp
  have "case insert_recursive sample Async sample_config 2 (put_node ?nd) [14] (Inline [14]) 255 ?s of
      (Inr u, s3) \<Rightarrow> split_info u \<noteq> None | _ \<Rightarrow> False"
    by code_simp
  then obtain u s3 sp where rec: "insert_recursive sample Async (config ?t) 2 (put_node ?nd) [14] (Inline [14]) 255 ?s = (Inr u, s3)"
    "split_info u = Some sp"
    by (auto simp: sample_tree_def split: prod.splits sum.splits)
  have "root_hash ?t = Some (put_node ?nd)" "level ?nd = 255" by simp_all
  from root_level_overflow [OF this(1) prep load this(2) rec] show ?thesis
    by simp
qed


text \<open>
  The shape of a tree depends on its history: the same six entries, inserted in ascending and in descending order, give trees with different
  root hashes.
\<close>

theorem root_hash_depends_on_history:
  "root_hash (fst (sample_after (map (\<lambda>k. InsertOp [k] [k]) [1, 2, 3, 4, 5, 6])))
     \<noteq> root_hash (fst (sample_after (map (\<lambda>k. InsertOp [k] [k]) [6, 5, 4, 3, 2, 1])))"
  by code_simp

end
